(* ===== verification/Prelude.thy ===== *)
theory Prelude
  imports Main "HOL-Library.Word" "HOL-Library.Sublist"
begin

text \<open>
  What every component of the minirpc development shares: the names of the machine types, the
  error numbers of the Linux interface, the effect type (a state transformer that may throw, with
  the state at the throw kept, as C++ unwinding keeps it), its combinators, and the rules for
  predicates that an effect keeps. The collections \<open>eff_simps\<close> and \<open>keeps_intros\<close> are what
  component proofs hand to \<open>simp\<close> and \<open>intro\<close>.
\<close>

unbundle bit_operations_syntax

section \<open>Machine types\<close>

type_synonym byte = "8 word"
type_synonym u16 = "16 word"
type_synonym u32 = "32 word"
type_synonym u64 = "64 word"
type_synonym bytes = "byte list"

text \<open>
  A C++ \<^verbatim>\<open>std::int32_t\<close> is a 32-bit word read as two's complement (\<open>sint\<close>).
\<close>

type_synonym i32 = "32 word"

text \<open>File descriptors are C++ \<^verbatim>\<open>int\<close>; -1 stands for "no descriptor", as in the code.\<close>

type_synonym fd = int

text \<open>
  \<^verbatim>\<open>errno\<close> and the value of a \<^verbatim>\<open>std::error_code\<close> of the generic category are the
  same numbers; 0 is success. On Linux \<^verbatim>\<open>EWOULDBLOCK\<close> is \<^verbatim>\<open>EAGAIN\<close>.
\<close>

type_synonym errno = int

abbreviation ENOENT :: errno where "ENOENT \<equiv> 2"
abbreviation EINTR :: errno where "EINTR \<equiv> 4"
abbreviation EBADF :: errno where "EBADF \<equiv> 9"
abbreviation EAGAIN :: errno where "EAGAIN \<equiv> 11"
abbreviation EPROTO :: errno where "EPROTO \<equiv> 71"
abbreviation EMSGSIZE :: errno where "EMSGSIZE \<equiv> 90"
abbreviation EADDRINUSE :: errno where "EADDRINUSE \<equiv> 98"
abbreviation ECONNRESET :: errno where "ECONNRESET \<equiv> 104"
abbreviation ENOTCONN :: errno where "ENOTCONN \<equiv> 107"

text \<open>String literals of the source as bytes.\<close>

definition bytes_of :: "string \<Rightarrow> bytes" where
  "bytes_of s = map of_char s"

lemma bytes_of_simps [simp]:
  "bytes_of [] = []"
  "bytes_of (c # cs) = of_char c # bytes_of cs"
  by (simp_all add: bytes_of_def)

lemma length_bytes_of [simp]: "length (bytes_of s) = length s"
  by (simp add: bytes_of_def)

section \<open>Effects that may throw\<close>

datatype exn =
    SystemError errno string   \<comment> \<open>\<^verbatim>\<open>std::system_error(errno, generic_category(), what)\<close>\<close>
  | RuntimeError string        \<comment> \<open>\<^verbatim>\<open>std::runtime_error(what)\<close>\<close>

text \<open>
  A program that transforms a state and ends with a value or abruptly, with an \<open>'x\<close>: an exception in
  minirpc, the exit status of the process in the benchmarks.
\<close>

type_synonym ('x, 's, 'a) prog = "'s \<Rightarrow> ('x + 'a) \<times> 's"
type_synonym ('s, 'a) eff = "(exn, 's, 'a) prog"

named_theorems eff_simps "the equations that run an effect"
named_theorems keeps_intros "the rules for the predicates an effect keeps"

definition ret :: "'a \<Rightarrow> ('x, 's, 'a) prog" where
  "ret x = (\<lambda>s. (Inr x, s))"

definition throw :: "'x \<Rightarrow> ('x, 's, 'a) prog" where
  "throw e = (\<lambda>s. (Inl e, s))"

definition bind :: "('x, 's, 'a) prog \<Rightarrow> ('a \<Rightarrow> ('x, 's, 'b) prog) \<Rightarrow> ('x, 's, 'b) prog" where
  "bind m f = (\<lambda>s. case m s of (Inl e, s') \<Rightarrow> (Inl e, s') | (Inr x, s') \<Rightarrow> f x s')"

definition seq :: "('x, 's, unit) prog \<Rightarrow> ('x, 's, 'b) prog \<Rightarrow> ('x, 's, 'b) prog" where
  "seq m k = bind m (\<lambda>_. k)"

definition upd :: "('s \<Rightarrow> 's) \<Rightarrow> ('x, 's, unit) prog" where
  "upd g = (\<lambda>s. (Inr (), g s))"

text \<open>An effect on the second component of a pair, as \<^verbatim>\<open>loop_.f()\<close> inside a method.\<close>

definition on_snd :: "('x, 'e, 'a) prog \<Rightarrow> ('x, 's \<times> 'e, 'a) prog" where
  "on_snd m = (\<lambda>(s, e). case m e of (r, e') \<Rightarrow> (r, (s, e')))"

text \<open>A range-for over a list of effects, stopped by the first throw.\<close>

fun for_each :: "('a \<Rightarrow> ('x, 's, unit) prog) \<Rightarrow> 'a list \<Rightarrow> ('x, 's, unit) prog" where
  "for_each f [] = ret ()"
| "for_each f (x # xs) = seq (f x) (for_each f xs)"

lemma ret_run [simp, eff_simps]: "ret x s = (Inr x, s)"
  by (simp add: ret_def)

lemma throw_run [simp, eff_simps]: "throw e s = (Inl e, s)"
  by (simp add: throw_def)

lemma upd_run [simp, eff_simps]: "upd g s = (Inr (), g s)"
  by (simp add: upd_def)

lemma on_snd_run [eff_simps]: "on_snd m (s, e) = (case m e of (r, e') \<Rightarrow> (r, (s, e')))"
  by (simp add: on_snd_def)

lemma bind_run_Inr [simp]: "m s = (Inr x, s') \<Longrightarrow> bind m f s = f x s'"
  by (simp add: bind_def)

lemma bind_run_Inl [simp]: "m s = (Inl e, s') \<Longrightarrow> bind m f s = (Inl e, s')"
  by (simp add: bind_def)

lemma seq_run_Inr [simp]: "m s = (Inr (), s') \<Longrightarrow> seq m k s = k s'"
  by (simp add: seq_def)

lemma seq_run_Inl [simp]: "m s = (Inl e, s') \<Longrightarrow> seq m k s = (Inl e, s')"
  by (simp add: seq_def)

lemma seq_run [eff_simps]:
  "seq m k s = (case m s of (Inl e, s') \<Rightarrow> (Inl e, s') | (Inr _, s') \<Rightarrow> k s')"
  by (simp add: seq_def bind_def)

lemma bind_run [eff_simps]:
  "bind m f s = (case m s of (Inl e, s') \<Rightarrow> (Inl e, s') | (Inr x, s') \<Rightarrow> f x s')"
  by (simp add: bind_def)

lemma seq_assoc: "seq (seq a b) c = seq a (seq b c)"
  by (rule ext) (auto simp: seq_run split: prod.splits sum.splits)

lemma seq_ret [simp]: "seq m (ret ()) = m"
  by (rule ext) (auto simp: seq_run split: prod.splits sum.splits)

lemma ret_seq [simp]: "seq (ret ()) m = m"
  by (rule ext) simp

lemma for_each_append: "for_each f (xs @ ys) = seq (for_each f xs) (for_each f ys)"
  by (induction xs) (simp_all add: seq_assoc)

lemma for_each_pure:
  "(\<And>x s. f x s = (Inr (), g x s)) \<Longrightarrow> for_each f xs s = (Inr (), fold g xs s)"
  by (induction xs arbitrary: s) (simp_all add: seq_run)

section \<open>Predicates an effect keeps\<close>

text \<open>
  \<open>keeps I m\<close>: from a state with \<open>I\<close>, running \<open>m\<close> ends in a state with \<open>I\<close>, whether it
  returns or throws.
\<close>

definition keeps :: "('s \<Rightarrow> bool) \<Rightarrow> ('x, 's, 'a) prog \<Rightarrow> bool" where
  "keeps I m \<longleftrightarrow> (\<forall>s. I s \<longrightarrow> I (snd (m s)))"

lemma keepsI: "(\<And>s. I s \<Longrightarrow> I (snd (m s))) \<Longrightarrow> keeps I m"
  by (simp add: keeps_def)

lemma keepsD: "keeps I m \<Longrightarrow> I s \<Longrightarrow> I (snd (m s))"
  by (simp add: keeps_def)

lemma keeps_run: "keeps I m \<Longrightarrow> m s = (r, s') \<Longrightarrow> I s \<Longrightarrow> I s'"
  by (metis keepsD snd_conv)

lemma keeps_ret [keeps_intros]: "keeps I (ret x)"
  by (simp add: keeps_def)

lemma keeps_throw [keeps_intros]: "keeps I (throw e)"
  by (simp add: keeps_def)

lemma keeps_bind [keeps_intros]:
  "keeps I m \<Longrightarrow> (\<And>x. keeps I (f x)) \<Longrightarrow> keeps I (bind m f)"
  by (fastforce simp: keeps_def bind_run split: prod.splits sum.splits)

lemma keeps_seq [keeps_intros]: "keeps I m \<Longrightarrow> keeps I k \<Longrightarrow> keeps I (seq m k)"
  by (auto simp: seq_def intro: keeps_bind)

lemma keeps_upd [keeps_intros]: "(\<And>s. I s \<Longrightarrow> I (g s)) \<Longrightarrow> keeps I (upd g)"
  by (simp add: keeps_def)

lemma keeps_if [keeps_intros]: "keeps I m \<Longrightarrow> keeps I k \<Longrightarrow> keeps I (if b then m else k)"
  by simp

lemma keeps_for_each [keeps_intros]:
  "(\<And>x. x \<in> set xs \<Longrightarrow> keeps I (f x)) \<Longrightarrow> keeps I (for_each f xs)"
  by (induction xs) (auto intro: keeps_intros)

lemma keeps_on_snd [keeps_intros]: "keeps I m \<Longrightarrow> keeps (\<lambda>(s, e). I e) (on_snd m)"
  by (fastforce simp: keeps_def on_snd_def split: prod.splits)

section \<open>Lists and options\<close>

lemma drop_nth_Cons: "n < length xs \<Longrightarrow> drop n xs = xs ! n # drop (Suc n) xs"
  by (rule Cons_nth_drop_Suc [symmetric])

lemma take_drop_length_append [simp]:
  "take (length xs) (xs @ ys) = xs"
  "drop (length xs) (xs @ ys) = ys"
  by simp_all

lemma suffix_drop_eq: "suffix ys xs \<Longrightarrow> drop (length xs - length ys) xs = ys"
  by (auto simp: suffix_def)

lemma suffix_take_append: "suffix ys xs \<Longrightarrow> take (length xs - length ys) xs @ ys = xs"
  by (auto simp: suffix_def)

fun option_fold :: "('a \<Rightarrow> 'b \<Rightarrow> 'b option) \<Rightarrow> 'a list \<Rightarrow> 'b \<Rightarrow> 'b option" where
  "option_fold f [] s = Some s"
| "option_fold f (x # xs) s = (case f x s of None \<Rightarrow> None | Some s' \<Rightarrow> option_fold f xs s')"

lemma option_fold_append:
  "option_fold f (xs @ ys) s
     = (case option_fold f xs s of None \<Rightarrow> None | Some s' \<Rightarrow> option_fold f ys s')"
  by (induction xs arbitrary: s) (auto split: option.splits)

section \<open>Words\<close>

lemma ucast_ucast_byte [simp]: "ucast (ucast (w :: byte) :: u64) = w"
  by (rule bit_word_eqI) (simp add: bit_simps)

lemma ucast_ucast_u32 [simp]: "ucast (ucast (w :: u32) :: u64) = w"
  by (rule bit_word_eqI) (simp add: bit_simps)

end
