(* ===== verification/Message.thy ===== *)
theory Message
  imports Prelude
begin

text \<open>
  \<^verbatim>\<open>include/minirpc/message.hpp\<close> and \<^verbatim>\<open>src/message.cpp\<close>: the RPC message and its kind.
  \<^verbatim>\<open>enum class Kind : std::uint32_t\<close> has a fixed underlying type, so a \<^verbatim>\<open>Kind\<close> holds any
  32-bit value (the decoder makes such values from the wire); the enumerators are five of them.
  Strings are byte lists.
\<close>

section \<open>The kind of a message\<close>

datatype kind = Kind (kind_value: u32)

definition Unknown :: kind where "Unknown = Kind 0"
definition Request :: kind where "Request = Kind 1"
definition Response :: kind where "Response = Kind 2"
definition Notify :: kind where "Notify = Kind 3"
definition Heartbeat :: kind where "Heartbeat = Kind 4"

lemmas kind_defs = Unknown_def Request_def Response_def Notify_def Heartbeat_def

text \<open>A scoped enumeration compares by its underlying value.\<close>

instantiation kind :: linorder
begin

definition less_eq_kind :: "kind \<Rightarrow> kind \<Rightarrow> bool" where
  "less_eq_kind a b \<longleftrightarrow> kind_value a \<le> kind_value b"

definition less_kind :: "kind \<Rightarrow> kind \<Rightarrow> bool" where
  "less_kind a b \<longleftrightarrow> kind_value a < kind_value b"

instance
  by standard (auto simp: less_eq_kind_def less_kind_def kind.expand)

end

definition to_string :: "kind \<Rightarrow> string" where
  "to_string k =
     (if k = Request then ''REQUEST''
      else if k = Response then ''RESPONSE''
      else if k = Notify then ''NOTIFY''
      else if k = Heartbeat then ''HEARTBEAT''
      else ''UNKNOWN'')"

lemma enumerators_sorted:
  "Unknown < Request" "Request < Response" "Response < Notify" "Notify < Heartbeat"
  by (simp_all add: less_kind_def kind_defs)

text \<open>Only declared enumerators up to \<open>Heartbeat\<close> have a name of their own.\<close>

lemma to_string_named:
  "to_string k \<noteq> ''UNKNOWN'' \<longleftrightarrow> Request \<le> k \<and> k \<le> Heartbeat"
proof -
  obtain v where k: "k = Kind v" by (cases k)
  have "v = 1 \<or> v = 2 \<or> v = 3 \<or> v = 4 \<longleftrightarrow> 1 \<le> v \<and> v \<le> 4"
    by unat_arith
  then show ?thesis
    by (auto simp: to_string_def less_eq_kind_def kind_defs k)
qed

section \<open>The message\<close>

record rpc_message =
  msg_id :: u64
  kind :: kind
  service :: bytes
  "method" :: bytes
  payload :: bytes
  status :: i32
  error :: bytes

definition empty_message :: rpc_message where
  "empty_message = \<lparr>msg_id = 0, kind = Unknown, service = [], method = [], payload = [],
     status = 0, error = []\<rparr>"

text \<open>
  Every string of a C++ program is shorter than \<^verbatim>\<open>std::string::max_size()\<close>, hence than \<open>2 ^ 64\<close>.
\<close>

definition fits_memory :: "rpc_message \<Rightarrow> bool" where
  "fits_memory m \<longleftrightarrow>
     length (service m) < 2 ^ 64 \<and> length (method m) < 2 ^ 64 \<and>
     length (payload m) < 2 ^ 64 \<and> length (error m) < 2 ^ 64"

end
