(* ===== verification/Varint.thy ===== *)
theory Varint
  imports Message
begin

text \<open>
  The base-128 integers of \<^verbatim>\<open>src/protobuf_wire.cpp\<close>: \<^verbatim>\<open>write_varint\<close> appends one to a
  string, \<^verbatim>\<open>read_varint\<close> reads one at a position of a string view. The loops are translated as
  they are (position, shift and accumulator). \<open>varint_prefix\<close> states the reader over list
  suffixes; it is what the codec's proofs use.
\<close>

section \<open>Shifting seven bits out\<close>

lemma unat_drop_bit_7: "unat (drop_bit 7 (v :: u64)) = unat v div 128"
  by (simp only: unat_drop_bit_eq) (simp add: drop_bit_eq_div)

lemma ge_0x80_iff: "0x80 \<le> (v :: u64) \<longleftrightarrow> 128 \<le> unat v"
  by (simp add: word_le_nat_alt)

lemma drop_bit_7_less: "0x80 \<le> (v :: u64) \<Longrightarrow> unat (drop_bit 7 v) < unat v"
  by (simp add: unat_drop_bit_7 ge_0x80_iff)

lemma shift7_induct [case_names small large]:
  assumes small: "\<And>v :: u64. v < 0x80 \<Longrightarrow> P v"
    and large: "\<And>v. 0x80 \<le> v \<Longrightarrow> P (drop_bit 7 v) \<Longrightarrow> P v"
  shows "P v"
proof (induction "unat v" arbitrary: v rule: less_induct)
  case less
  then show ?case
    using small [of v] large [of v] drop_bit_7_less [of v] by (cases "0x80 \<le> v") auto
qed

section \<open>Writing\<close>

function write_varint :: "bytes \<Rightarrow> u64 \<Rightarrow> bytes" where
  "write_varint out v =
     (if 0x80 \<le> v
      then write_varint (out @ [ucast ((v AND 0x7f) OR 0x80)]) (drop_bit 7 v)
      else out @ [ucast v])"
  by pat_completeness auto
termination
  by (relation "measure (\<lambda>(out, v). unat v)") (auto simp: drop_bit_7_less)

declare write_varint.simps [simp del]

abbreviation varint_bytes :: "u64 \<Rightarrow> bytes" where
  "varint_bytes v \<equiv> write_varint [] v"

text \<open>One byte of a varint that has more to come.\<close>

definition continuation_byte :: "u64 \<Rightarrow> byte" where
  "continuation_byte v = ucast ((v AND 0x7f) OR 0x80)"

lemma write_varint_append: "write_varint out v = out @ varint_bytes v"
proof (induction v arbitrary: out rule: shift7_induct)
  case (small v)
  then have "\<not> 0x80 \<le> v" by (simp add: not_le)
  then show ?case by (simp add: write_varint.simps [of _ v])
next
  case (large v)
  have "write_varint out' v = out' @ continuation_byte v # varint_bytes (drop_bit 7 v)" for out'
    using large(1) large(2) [of "out' @ [continuation_byte v]"]
    by (subst write_varint.simps) (simp add: continuation_byte_def)
  from this [of out] this [of "[]"] show ?case by simp
qed

lemma varint_bytes_small: "v < 0x80 \<Longrightarrow> varint_bytes v = [ucast v]"
  by (simp add: write_varint.simps)

lemma varint_bytes_large:
  "0x80 \<le> v \<Longrightarrow> varint_bytes v = continuation_byte v # varint_bytes (drop_bit 7 v)"
  by (subst write_varint.simps)
     (simp add: write_varint_append [of "[ucast (v AND 0x7f OR 0x80)]"] continuation_byte_def)

lemma varint_bytes_not_Nil [simp]: "varint_bytes v \<noteq> []"
  by (cases "0x80 \<le> v") (simp_all add: varint_bytes_small varint_bytes_large)

text \<open>The number of bytes: one for each started group of seven bits.\<close>

lemma length_varint_bytes_le: "unat v < 128 ^ n \<Longrightarrow> 0 < n \<Longrightarrow> length (varint_bytes v) \<le> n"
proof (induction v arbitrary: n rule: shift7_induct)
  case (small v)
  then show ?case by (simp add: varint_bytes_small)
next
  case (large v)
  then obtain k where n: "n = Suc k" by (cases n) auto
  have "128 \<le> unat v" using large(1) by (simp add: ge_0x80_iff)
  with large(3) n have "0 < k" by (cases k) auto
  moreover have "unat (drop_bit 7 v) < 128 ^ k"
    using large(3) n by (simp add: unat_drop_bit_7 div_less_iff_less_mult mult.commute)
  ultimately show ?case using large n by (simp add: varint_bytes_large)
qed

lemma length_varint_bytes_10: "length (varint_bytes v) \<le> 10"
proof (rule length_varint_bytes_le)
  have "unat v < 2 ^ LENGTH(64)" by (rule unsigned_less)
  then show "unat v < 128 ^ 10" by simp
qed simp

section \<open>Reading\<close>

function read_varint_loop :: "bytes \<Rightarrow> nat \<Rightarrow> nat \<Rightarrow> u64 \<Rightarrow> bool \<times> nat \<times> u64" where
  "read_varint_loop bytes pos shift acc =
     (if pos < length bytes \<and> shift \<le> 63
      then let byte = bytes ! pos;
               acc' = acc OR push_bit shift (ucast (byte AND 0x7f))
           in if byte AND 0x80 = 0 then (True, pos + 1, acc')
              else read_varint_loop bytes (pos + 1) (shift + 7) acc'
      else (False, pos, acc))"
  by pat_completeness auto
termination
  by (relation "measure (\<lambda>(bytes, pos, shift, acc). length bytes - pos)") auto

declare read_varint_loop.simps [simp del]

text \<open>
  \<^verbatim>\<open>bool read_varint(bytes, pos\&, value\&)\<close>: the result, the new position and the value.
\<close>

definition read_varint :: "bytes \<Rightarrow> nat \<Rightarrow> bool \<times> nat \<times> u64" where
  "read_varint bytes pos = read_varint_loop bytes pos 0 0"

fun varint_prefix :: "nat \<Rightarrow> u64 \<Rightarrow> bytes \<Rightarrow> (u64 \<times> bytes) option" where
  "varint_prefix shift acc [] = None"
| "varint_prefix shift acc (b # bs) =
     (if shift \<le> 63
      then let acc' = acc OR push_bit shift (ucast (b AND 0x7f))
           in if b AND 0x80 = 0 then Some (acc', bs)
              else varint_prefix (shift + 7) acc' bs
      else None)"

abbreviation varint_of :: "bytes \<Rightarrow> (u64 \<times> bytes) option" where
  "varint_of \<equiv> varint_prefix 0 0"

lemma varint_prefix_shorter: "varint_prefix shift acc bs = Some (v, rest) \<Longrightarrow> length rest < length bs"
  by (induction shift acc bs rule: varint_prefix.induct)
     (fastforce simp: Let_def split: if_splits)+

lemma varint_prefix_suffix: "varint_prefix shift acc bs = Some (v, rest) \<Longrightarrow> suffix rest bs"
  by (induction shift acc bs rule: varint_prefix.induct)
     (fastforce simp: Let_def suffix_Cons split: if_splits)+

text \<open>What the position-based reader does, in terms of the suffix at its position.\<close>

lemma read_varint_loop_prefix:
  assumes "pos \<le> length bytes"
  shows "case varint_prefix shift acc (drop pos bytes) of
      None \<Rightarrow> \<not> fst (read_varint_loop bytes pos shift acc)
    | Some (v, rest) \<Rightarrow>
        read_varint_loop bytes pos shift acc = (True, length bytes - length rest, v)"
  using assms
proof (induction bytes pos shift acc rule: read_varint_loop.induct)
  case (1 bytes pos shift acc)
  show ?case
  proof (cases "pos < length bytes \<and> shift \<le> 63")
    case False
    with "1.prems" show ?thesis
      by (cases "drop pos bytes") (auto simp: read_varint_loop.simps [of bytes pos])
  next
    case True
    then have d: "drop pos bytes = bytes ! pos # drop (pos + 1) bytes"
      by (simp add: drop_nth_Cons)
    show ?thesis
    proof (cases "bytes ! pos AND 0x80 = 0")
      case end_byte: True
      with True d show ?thesis by (simp add: read_varint_loop.simps [of bytes pos] Let_def)
    next
      case False
      then show ?thesis
        using "1.IH" [OF True refl refl False] True d
        by (simp add: read_varint_loop.simps [of bytes pos] Let_def split: option.splits prod.splits)
    qed
  qed
qed

text \<open>The two outcomes of a read inside the string, by the suffix at the position.\<close>

lemma read_varint_cases [consumes 1, case_names fail ok]:
  assumes "pos \<le> length bytes"
  obtains (fail) p v where "read_varint bytes pos = (False, p, v)" "varint_of (drop pos bytes) = None"
  | (ok) p v where "read_varint bytes pos = (True, p, v)"
      "varint_of (drop pos bytes) = Some (v, drop p bytes)" "pos < p" "p \<le> length bytes"
proof (cases "varint_of (drop pos bytes)")
  case None
  then show thesis
    using fail read_varint_loop_prefix [OF assms, of 0 0]
    by (cases "read_varint bytes pos") (auto simp: read_varint_def)
next
  case (Some r)
  obtain v rest where r: "r = (v, rest)" by (cases r)
  from Some r have "suffix rest (drop pos bytes)" and short: "length rest < length (drop pos bytes)"
    by (auto dest: varint_prefix_suffix varint_prefix_shorter)
  then have "suffix rest bytes" by (meson suffix_drop suffix_order.trans)
  then have "drop (length bytes - length rest) bytes = rest" by (rule suffix_drop_eq)
  then show thesis
    using ok [of "length bytes - length rest" v] Some r short
      read_varint_loop_prefix [OF assms, of 0 0]
    by (simp add: read_varint_def less_diff_conv)
qed

text \<open>The position never runs past the end, and a successful read moves it forward.\<close>

lemma read_varint_loop_pos:
  "read_varint_loop bytes pos shift acc = (ok, pos', v) \<Longrightarrow> pos \<le> length bytes \<Longrightarrow>
   pos \<le> pos' \<and> pos' \<le> length bytes \<and> (ok \<longrightarrow> pos < pos') \<and> (shift \<le> 70 \<longrightarrow> 7 * (pos' - pos) \<le> 70 - shift)"
proof (induction bytes pos shift acc rule: read_varint_loop.induct)
  case (1 bytes pos shift acc)
  show ?case
  proof (cases "(pos < length bytes \<and> shift \<le> 63) \<and> bytes ! pos AND 0x80 \<noteq> 0")
    case True
    then show ?thesis
      using "1.IH" [OF _ refl refl] "1.prems"
      by (auto simp: read_varint_loop.simps [of bytes pos] Let_def)
  next
    case False
    then show ?thesis
      using "1.prems" by (auto simp: read_varint_loop.simps [of bytes pos] Let_def split: if_splits)
  qed
qed

lemma read_varint_progress:
  assumes "read_varint bytes pos = (True, pos', v)"
  shows "pos < pos'"
proof -
  have "pos < length bytes"
    using assms by (cases "pos < length bytes")
      (auto simp: read_varint_def read_varint_loop.simps [of bytes pos 0 0])
  with assms read_varint_loop_pos [of bytes pos 0 0 True pos' v] show ?thesis
    by (simp add: read_varint_def)
qed

lemma read_varint_bound:
  "read_varint bytes pos = (ok, pos', v) \<Longrightarrow> pos \<le> length bytes \<Longrightarrow> pos' \<le> length bytes"
  unfolding read_varint_def by (auto dest: read_varint_loop_pos)

section \<open>Round trip\<close>

text \<open>The simplifier reads the bits of a numeral word as those of the integer.\<close>

lemma bit_0x7f: "bit (0x7f :: int) n \<longleftrightarrow> n < 7"
proof -
  have "bit (mask 7 :: int) n \<longleftrightarrow> n < 7" by (simp only: bit_mask_iff) simp
  then show ?thesis by (simp add: mask_eq_exp_minus_1)
qed

lemma bit_0x80: "bit (0x80 :: int) n \<longleftrightarrow> n = 7"
proof -
  have "bit (2 ^ 7 :: int) n \<longleftrightarrow> n = 7" by (simp only: bit_exp_iff) auto
  then show ?thesis by simp
qed

lemmas byte_masks = bit_0x7f bit_0x80

lemma continuation_byte_high: "continuation_byte v AND 0x80 \<noteq> 0"
proof -
  have "bit (continuation_byte v AND 0x80) 7"
    by (simp add: continuation_byte_def bit_simps byte_masks)
  then show ?thesis by auto
qed

lemma continuation_byte_low: "ucast (continuation_byte v AND 0x7f) = (v AND 0x7f :: u64)"
  by (rule bit_word_eqI) (auto simp: continuation_byte_def bit_simps byte_masks)

lemma below_0x80_bit: "(v :: u64) < 0x80 \<Longrightarrow> bit v n \<Longrightarrow> n < 7"
proof -
  assume "v < 0x80" and n: "bit v n"
  then have "v AND mask 7 = v" by (intro less_mask_eq) simp
  with n have "bit (v AND mask 7) n" by simp
  then show ?thesis by (simp only: bit_and_iff bit_mask_iff)
qed

lemma last_byte_high: "v < 0x80 \<Longrightarrow> (ucast (v :: u64) :: byte) AND 0x80 = 0"
  by (rule bit_word_eqI) (auto simp: bit_simps byte_masks dest: below_0x80_bit)

lemma last_byte_low: "v < 0x80 \<Longrightarrow> ucast ((ucast v :: byte) AND 0x7f) = (v :: u64)"
  by (rule bit_word_eqI) (auto simp: bit_simps byte_masks dest: below_0x80_bit)

lemma push_bit_split:
  "push_bit shift (v AND 0x7f) OR push_bit (shift + 7) (drop_bit 7 v) = push_bit shift (v :: u64)"
proof (rule bit_word_eqI)
  fix n
  assume "n < LENGTH(64)"
  have "7 + (n - (shift + 7)) = n - shift" if "shift + 7 \<le> n"
    using that by simp
  with \<open>n < LENGTH(64)\<close>
  show "bit (push_bit shift (v AND 0x7f) OR push_bit (shift + 7) (drop_bit 7 v)) n
      \<longleftrightarrow> bit (push_bit shift v) n"
    by (cases "shift + 7 \<le> n") (auto simp: bit_simps byte_masks)
qed

text \<open>
  The reader undoes the writer, whatever follows. The bound on \<open>v\<close> is what keeps the shift
  below 64 for as many bytes as the writer makes.
\<close>

lemma varint_prefix_bytes:
  "unat v < 2 ^ (64 - shift) \<Longrightarrow> shift \<le> 63 \<Longrightarrow>
   varint_prefix shift acc (varint_bytes v @ rest) = Some (acc OR push_bit shift v, rest)"
proof (induction v arbitrary: shift acc rule: shift7_induct)
  case (small v)
  then show ?case by (simp add: varint_bytes_small last_byte_high last_byte_low)
next
  case (large v)
  have ge: "128 \<le> unat v" using large(1) by (simp add: ge_0x80_iff)
  have room: "shift + 7 \<le> 63"
  proof (rule ccontr)
    assume "\<not> shift + 7 \<le> 63"
    then have "64 - shift \<le> 7" by simp
    then have "(2::nat) ^ (64 - shift) \<le> 2 ^ 7" by (rule power_increasing) simp
    with ge large.prems(1) show False by simp
  qed
  have "64 - shift = 7 + (64 - (shift + 7))" using room by simp
  then have "(2::nat) ^ (64 - shift) = 128 * 2 ^ (64 - (shift + 7))"
    by (simp only: power_add) simp
  then have "unat (drop_bit 7 v) < 2 ^ (64 - (shift + 7))"
    using large.prems(1) by (simp add: unat_drop_bit_7 div_less_iff_less_mult mult.commute)
  from large.IH [OF this room] show ?case
    using large(1) large.prems(2) continuation_byte_high [of v]
    by (simp add: varint_bytes_large continuation_byte_low push_bit_split [unfolded push_bit_and] or.assoc)
qed

lemma varint_of_bytes: "varint_of (varint_bytes v @ rest) = Some (v, rest)"
proof -
  have "unat v < 2 ^ LENGTH(64)" by (rule unsigned_less)
  then show ?thesis using varint_prefix_bytes [of v 0 0 rest] by simp
qed

text \<open>
  Reading at the place where \<^verbatim>\<open>write_varint\<close> wrote gives the value back and stops right
  behind it, whatever stands before and after; a varint has at most ten bytes.
\<close>

lemma read_varint_write_varint:
  "read_varint (pre @ write_varint [] v @ rest) (length pre)
     = (True, length pre + length (write_varint [] v), v) \<and> length (write_varint [] v) \<le> 10"
proof -
  let ?bytes = "pre @ varint_bytes v @ rest"
  have "length pre \<le> length ?bytes" by simp
  then have "read_varint ?bytes (length pre) = (True, length pre + length (varint_bytes v), v)"
  proof (cases rule: read_varint_cases)
    case (fail p w)
    then show ?thesis by (simp add: varint_of_bytes)
  next
    case (ok p w)
    have "drop (length pre) ?bytes = varint_bytes v @ rest" by simp
    with ok(2) have "Some (v, rest) = Some (w, drop p ?bytes)" by (simp only: varint_of_bytes)
    then have v: "v = w" and rest: "rest = drop p ?bytes" by (metis option.inject prod.inject)+
    from arg_cong [OF rest, of length] have "length rest = length ?bytes - p"
      by (simp only: length_drop)
    with ok(4) have "p = length pre + length (varint_bytes v)"
      unfolding length_append by linarith
    with ok(1) v show ?thesis by simp
  qed
  then show ?thesis using length_varint_bytes_10 by simp
qed

lemma read_varint_loop_overlong:
  "10 \<le> n + shift div 7 \<Longrightarrow> \<forall>i<n. pos + i < length bytes \<longrightarrow> bytes ! (pos + i) AND 0x80 \<noteq> 0 \<Longrightarrow>
   \<not> fst (read_varint_loop bytes pos shift acc)"
proof (induction n arbitrary: pos shift acc)
  case 0
  then have "\<not> shift \<le> 63" by linarith
  then show ?case by (simp add: read_varint_loop.simps [of bytes pos])
next
  case (Suc n)
  have "bytes ! pos AND 0x80 \<noteq> 0" if "pos < length bytes"
    using Suc.prems(2) that by force
  moreover have "\<not> fst (read_varint_loop bytes (pos + 1) (shift + 7) acc')" for acc'
  proof (rule Suc.IH)
    show "10 \<le> n + (shift + 7) div 7" using Suc.prems(1) by simp
    show "\<forall>i<n. pos + 1 + i < length bytes \<longrightarrow> bytes ! (pos + 1 + i) AND 0x80 \<noteq> 0"
      using Suc.prems(2) by (metis Suc_less_eq add.assoc plus_1_eq_Suc)
  qed
  ultimately show ?case
    by (auto simp: read_varint_loop.simps [of bytes pos] Let_def)
qed

text \<open>
  Ten bytes that all announce another one are refused, and so are fewer when the string ends
  there: the shift never reaches the width of the accumulator.
\<close>

lemma read_varint_rejects_overlong:
  assumes "\<forall>i<10. pos + i < length bytes \<longrightarrow> bytes ! (pos + i) AND 0x80 \<noteq> 0"
  shows "\<not> fst (read_varint bytes pos)"
  unfolding read_varint_def by (rule read_varint_loop_overlong [of 10]) (use assms in simp_all)

end
