(* ===== verification/Protobuf_Wire.thy ===== *)
theory Protobuf_Wire
  imports Varint
begin

text \<open>
  \<^verbatim>\<open>src/protobuf_wire.cpp\<close>: the codec \<^verbatim>\<open>ProtobufWireCodec\<close> for \<^verbatim>\<open>proto/rpc.proto\<close>. The
  first half translates the code: it works on a string view and a position that moves forward.
  The second half is the abstract format: a message body is a sequence of wire fields, and the
  decoder's meaning is to apply them one after another to the empty message. The refinement
  \<open>decode_refines\<close> joins the two, and the properties follow from it on lists of fields.
\<close>

section \<open>Encoding\<close>

definition kWireVarint :: u32 where "kWireVarint = 0"
definition kWireFixed64 :: u32 where "kWireFixed64 = 1"
definition kWireLengthDelimited :: u32 where "kWireLengthDelimited = 2"
definition kWireFixed32 :: u32 where "kWireFixed32 = 5"

lemmas wire_types = kWireVarint_def kWireFixed64_def kWireLengthDelimited_def kWireFixed32_def

definition write_tag :: "bytes \<Rightarrow> u32 \<Rightarrow> u32 \<Rightarrow> bytes" where
  "write_tag out field_number wire_type =
     write_varint out (push_bit 3 (ucast field_number) OR ucast wire_type)"

definition write_length_delimited :: "bytes \<Rightarrow> u32 \<Rightarrow> bytes \<Rightarrow> bytes" where
  "write_length_delimited out field_number val =
     write_varint (write_tag out field_number kWireLengthDelimited) (of_nat (length val)) @ val"

definition encode :: "rpc_message \<Rightarrow> bytes" where
  "encode m =
     (let out = [];
          out = (if msg_id m \<noteq> 0
                 then write_varint (write_tag out 1 kWireVarint) (msg_id m) else out);
          out = (if kind m \<noteq> Unknown
                 then write_varint (write_tag out 2 kWireVarint) (ucast (kind_value (kind m)))
                 else out);
          out = (if service m \<noteq> [] then write_length_delimited out 3 (service m) else out);
          out = (if method m \<noteq> [] then write_length_delimited out 4 (method m) else out);
          out = (if payload m \<noteq> [] then write_length_delimited out 5 (payload m) else out);
          out = (if status m \<noteq> 0
                 then write_varint (write_tag out 6 kWireVarint) (ucast (status m)) else out);
          out = (if error m \<noteq> [] then write_length_delimited out 7 (error m) else out)
      in out)"

section \<open>Decoding\<close>

definition skip_field :: "bytes \<Rightarrow> nat \<Rightarrow> u32 \<Rightarrow> bool \<times> nat" where
  "skip_field bytes pos wire_type =
     (if wire_type = kWireVarint then
        (case read_varint bytes pos of (ok, pos, _) \<Rightarrow> (ok, pos))
      else if wire_type = kWireFixed64 then
        (if length bytes - pos < 8 then (False, pos) else (True, pos + 8))
      else if wire_type = kWireLengthDelimited then
        (case read_varint bytes pos of (ok, pos, n) \<Rightarrow>
           if \<not> ok \<or> unat n > length bytes - pos then (False, pos)
           else (True, pos + unat n))
      else if wire_type = kWireFixed32 then
        (if length bytes - pos < 4 then (False, pos) else (True, pos + 4))
      else (False, pos))"

text \<open>\<open>INT32_MAX\<close>, the bound the decoder puts on a status.\<close>

definition int32_max :: u64 where "int32_max = 0x7fffffff"

text \<open>
  One iteration of the decoder's loop: the position and the message after one field, or \<open>None\<close>
  where the code returns \<^verbatim>\<open>std::nullopt\<close>.
\<close>

definition decode_field :: "bytes \<Rightarrow> nat \<Rightarrow> rpc_message \<Rightarrow> (nat \<times> rpc_message) option" where
  "decode_field bytes pos m =
     (case read_varint bytes pos of (ok, pos, tag) \<Rightarrow>
        if \<not> ok then None
        else
          let field_number = (ucast (drop_bit 3 tag) :: u32);
              wire_type = (ucast (tag AND 0x07) :: u32)
          in if field_number = 1 then
               (if wire_type \<noteq> kWireVarint then None
                else case read_varint bytes pos of (ok, pos, v) \<Rightarrow>
                  if \<not> ok then None else Some (pos, m\<lparr>msg_id := v\<rparr>))
             else if field_number = 2 then
               (if wire_type \<noteq> kWireVarint then None
                else case read_varint bytes pos of (ok, pos, v) \<Rightarrow>
                  if \<not> ok then None else Some (pos, m\<lparr>kind := Kind (ucast v)\<rparr>))
             else if field_number = 3 \<or> field_number = 4 \<or> field_number = 5 \<or> field_number = 7 then
               (if wire_type \<noteq> kWireLengthDelimited then None
                else case read_varint bytes pos of (ok, pos, n) \<Rightarrow>
                  if \<not> ok then None
                  else if unat n > length bytes - pos then None
                  else let val = take (unat n) (drop pos bytes);
                           pos = pos + unat n
                       in if field_number = 3 then Some (pos, m\<lparr>service := val\<rparr>)
                          else if field_number = 4 then Some (pos, m\<lparr>method := val\<rparr>)
                          else if field_number = 5 then Some (pos, m\<lparr>payload := val\<rparr>)
                          else Some (pos, m\<lparr>error := val\<rparr>))
             else if field_number = 6 then
               (if wire_type \<noteq> kWireVarint then None
                else case read_varint bytes pos of (ok, pos, v) \<Rightarrow>
                  if \<not> ok then None
                  else if v > int32_max then None
                  else Some (pos, m\<lparr>status := ucast v\<rparr>))
             else
               (case skip_field bytes pos wire_type of (ok, pos) \<Rightarrow>
                  if \<not> ok then None else Some (pos, m)))"

section \<open>Wire fields\<close>

text \<open>
  The abstract format. A field is its number and a value of one of the four supported wire types.
\<close>

datatype wire_value = WVarint u64 | WFixed64 bytes | WBytes bytes | WFixed32 bytes

type_synonym wire_field = "u32 \<times> wire_value"

definition value_prefix :: "u32 \<Rightarrow> bytes \<Rightarrow> (wire_value \<times> bytes) option" where
  "value_prefix wire_type bs =
     (if wire_type = kWireVarint then
        map_option (\<lambda>(v, rest). (WVarint v, rest)) (varint_of bs)
      else if wire_type = kWireFixed64 then
        (if length bs < 8 then None else Some (WFixed64 (take 8 bs), drop 8 bs))
      else if wire_type = kWireLengthDelimited then
        (case varint_of bs of None \<Rightarrow> None
         | Some (n, rest) \<Rightarrow>
             if unat n > length rest then None
             else Some (WBytes (take (unat n) rest), drop (unat n) rest))
      else if wire_type = kWireFixed32 then
        (if length bs < 4 then None else Some (WFixed32 (take 4 bs), drop 4 bs))
      else None)"

definition field_prefix :: "bytes \<Rightarrow> (wire_field \<times> bytes) option" where
  "field_prefix bs =
     (case varint_of bs of None \<Rightarrow> None
      | Some (tag, rest) \<Rightarrow>
          map_option (\<lambda>(v, rest'). ((ucast (drop_bit 3 tag), v), rest'))
            (value_prefix (ucast (tag AND 0x07)) rest))"

fun apply_field :: "wire_field \<Rightarrow> rpc_message \<Rightarrow> rpc_message option" where
  "apply_field (n, v) m =
     (if n = 1 then (case v of WVarint x \<Rightarrow> Some (m\<lparr>msg_id := x\<rparr>) | _ \<Rightarrow> None)
      else if n = 2 then (case v of WVarint x \<Rightarrow> Some (m\<lparr>kind := Kind (ucast x)\<rparr>) | _ \<Rightarrow> None)
      else if n = 3 then (case v of WBytes b \<Rightarrow> Some (m\<lparr>service := b\<rparr>) | _ \<Rightarrow> None)
      else if n = 4 then (case v of WBytes b \<Rightarrow> Some (m\<lparr>method := b\<rparr>) | _ \<Rightarrow> None)
      else if n = 5 then (case v of WBytes b \<Rightarrow> Some (m\<lparr>payload := b\<rparr>) | _ \<Rightarrow> None)
      else if n = 6 then
        (case v of WVarint x \<Rightarrow> if x > int32_max then None else Some (m\<lparr>status := ucast x\<rparr>) | _ \<Rightarrow> None)
      else if n = 7 then (case v of WBytes b \<Rightarrow> Some (m\<lparr>error := b\<rparr>) | _ \<Rightarrow> None)
      else Some m)"

declare apply_field.simps [simp del]

lemma value_prefix_shorter: "value_prefix wt bs = Some (v, rest) \<Longrightarrow> length rest \<le> length bs"
  by (auto simp: value_prefix_def split: if_splits option.splits dest!: varint_prefix_shorter)

lemma field_prefix_shorter: "field_prefix bs = Some (f, rest) \<Longrightarrow> length rest < length bs"
  by (fastforce simp: field_prefix_def split: option.splits prod.splits
      dest: varint_prefix_shorter value_prefix_shorter)

function fields_of :: "bytes \<Rightarrow> wire_field list option" where
  "fields_of bs =
     (if bs = [] then Some []
      else case field_prefix bs of None \<Rightarrow> None
           | Some (f, rest) \<Rightarrow> map_option (Cons f) (fields_of rest))"
  by pat_completeness auto
termination
  by (relation "measure length") (auto dest: field_prefix_shorter)

declare fields_of.simps [simp del]


section \<open>The decoder refines the field semantics\<close>

lemma skip_field_refines:
  assumes "pos \<le> length bytes"
  shows "case value_prefix wt (drop pos bytes) of
      None \<Rightarrow> \<exists>p. skip_field bytes pos wt = (False, p)
    | Some (v, rest) \<Rightarrow> \<exists>p. skip_field bytes pos wt = (True, p) \<and> drop p bytes = rest \<and> pos < p \<and> p \<le> length bytes"
  using assms
proof (cases rule: read_varint_cases)
  case (fail p v)
  then show ?thesis using assms
    by (auto simp: skip_field_def value_prefix_def wire_types add.commute)
next
  case (ok p v)
  then show ?thesis using assms
    by (auto simp: skip_field_def value_prefix_def wire_types add.commute)
qed

lemma decode_field_refines:
  assumes "pos \<le> length bytes"
  shows "case field_prefix (drop pos bytes) of
      None \<Rightarrow> decode_field bytes pos m = None
    | Some (f, rest) \<Rightarrow> \<exists>p. rest = drop p bytes \<and> pos < p \<and> p \<le> length bytes \<and>
        decode_field bytes pos m = map_option (\<lambda>m'. (p, m')) (apply_field f m)"
  using assms
proof (cases rule: read_varint_cases)
  case (fail p v)
  then show ?thesis by (simp add: decode_field_def field_prefix_def)
next
  case (ok p tag)
  note tag = ok
  define n where "n = (ucast (drop_bit 3 tag) :: u32)"
  define wt where "wt = (ucast (tag AND 0x07) :: u32)"
  note field = decode_field_def [of bytes pos m] field_prefix_def [of "drop pos bytes"] tag(1,2)
    n_def [symmetric] wt_def [symmetric] Let_def
  have skip: "case value_prefix wt (drop p bytes) of
      None \<Rightarrow> \<exists>p'. skip_field bytes p wt = (False, p')
    | Some (v, rest) \<Rightarrow> \<exists>p'. skip_field bytes p wt = (True, p') \<and> drop p' bytes = rest \<and> p < p' \<and> p' \<le> length bytes"
    by (rule skip_field_refines [OF tag(4)])
  show ?thesis
  proof (cases "n \<in> {1, 2, 3, 4, 5, 6, 7}")
    case False
    then show ?thesis
      using skip \<open>pos < p\<close>
      by (auto simp: field apply_field.simps split: option.splits)
  next
    case known: True
    consider "wt = kWireVarint" | "wt = kWireFixed64" | "wt = kWireLengthDelimited"
      | "wt = kWireFixed32" | "wt \<notin> {kWireVarint, kWireFixed64, kWireLengthDelimited, kWireFixed32}"
      by blast
    then show ?thesis
    proof cases
      case 1
      from tag(4) show ?thesis
        by (cases rule: read_varint_cases)
           (use 1 known \<open>pos < p\<close> in \<open>auto simp: field apply_field.simps value_prefix_def wire_types\<close>)
    next
      case 3
      from tag(4) show ?thesis
        by (cases rule: read_varint_cases)
           (use 3 known \<open>pos < p\<close> in \<open>auto simp: field apply_field.simps value_prefix_def wire_types
              add.commute intro!: exI\<close>)
    qed (use known \<open>pos < p\<close> tag(4) in
          \<open>auto simp: field apply_field.simps value_prefix_def wire_types\<close>)
  qed
qed

lemma decode_field_progress:
  assumes "decode_field bytes pos m = Some (pos', m')" and "pos \<le> length bytes"
  shows "pos < pos' \<and> pos' \<le> length bytes"
  using assms decode_field_refines [of pos bytes m] by (auto simp: map_option_case split: option.splits)

text \<open>The loop of \<^verbatim>\<open>ProtobufWireCodec::decode\<close>.\<close>

function decode_loop :: "bytes \<Rightarrow> nat \<Rightarrow> rpc_message \<Rightarrow> rpc_message option" where
  "decode_loop bytes pos m =
     (if pos < length bytes
      then case decode_field bytes pos m of
             None \<Rightarrow> None
           | Some (pos', m') \<Rightarrow> decode_loop bytes pos' m'
      else Some m)"
  by pat_completeness auto
termination
  by (relation "measure (\<lambda>(bytes, pos, m). length bytes - pos)")
     (auto dest!: decode_field_progress)

declare decode_loop.simps [simp del]

definition decode :: "bytes \<Rightarrow> rpc_message option" where
  "decode bytes = decode_loop bytes 0 empty_message"

text \<open>The meaning of a body: its fields, applied in order.\<close>

definition decode_spec :: "bytes \<Rightarrow> rpc_message \<Rightarrow> rpc_message option" where
  "decode_spec bs m = (case fields_of bs of None \<Rightarrow> None | Some fs \<Rightarrow> option_fold apply_field fs m)"

lemma decode_spec_Nil [simp]: "decode_spec [] m = Some m"
  by (simp add: decode_spec_def fields_of.simps)

lemma decode_spec_unfold:
  "bs \<noteq> [] \<Longrightarrow> decode_spec bs m =
     (case field_prefix bs of None \<Rightarrow> None
      | Some (f, rest) \<Rightarrow> (case apply_field f m of None \<Rightarrow> None | Some m' \<Rightarrow> decode_spec rest m'))"
  by (simp add: decode_spec_def fields_of.simps [of bs] split: option.splits prod.splits)

lemma decode_loop_refines: "pos \<le> length bytes \<Longrightarrow> decode_loop bytes pos m = decode_spec (drop pos bytes) m"
proof (induction bytes pos m rule: decode_loop.induct)
  case (1 bytes pos m)
  show ?case
  proof (cases "pos < length bytes")
    case False
    with "1.prems" show ?thesis by (simp add: decode_loop.simps [of bytes "length bytes"])
  next
    case True
    then have "decode_spec (drop pos bytes) m =
       (case field_prefix (drop pos bytes) of None \<Rightarrow> None
        | Some (f, rest) \<Rightarrow> (case apply_field f m of None \<Rightarrow> None | Some m' \<Rightarrow> decode_spec rest m'))"
      by (simp add: decode_spec_unfold)
    with True "1.IH" [OF True] decode_field_refines [of pos bytes m] show ?thesis
      by (auto simp: decode_loop.simps [of bytes pos m] split: option.splits)
  qed
qed

lemma decode_eq_spec: "decode bytes = decode_spec bytes empty_message"
  by (simp add: decode_def decode_loop_refines)

section \<open>Fields on the wire\<close>

definition tag_of :: "u32 \<Rightarrow> u32 \<Rightarrow> u64" where
  "tag_of n wt = push_bit 3 (ucast n) OR ucast wt"

fun wire_type_of :: "wire_value \<Rightarrow> u32" where
  "wire_type_of (WVarint v) = kWireVarint"
| "wire_type_of (WFixed64 b) = kWireFixed64"
| "wire_type_of (WBytes b) = kWireLengthDelimited"
| "wire_type_of (WFixed32 b) = kWireFixed32"

fun value_bytes :: "wire_value \<Rightarrow> bytes" where
  "value_bytes (WVarint v) = varint_bytes v"
| "value_bytes (WFixed64 b) = b"
| "value_bytes (WBytes b) = varint_bytes (of_nat (length b)) @ b"
| "value_bytes (WFixed32 b) = b"

definition field_bytes :: "wire_field \<Rightarrow> bytes" where
  "field_bytes f = (case f of (n, v) \<Rightarrow> varint_bytes (tag_of n (wire_type_of v)) @ value_bytes v)"

fun wf_value :: "wire_value \<Rightarrow> bool" where
  "wf_value (WVarint v) = True"
| "wf_value (WFixed64 b) = (length b = 8)"
| "wf_value (WBytes b) = (length b < 2 ^ 64)"
| "wf_value (WFixed32 b) = (length b = 4)"

definition wf_field :: "wire_field \<Rightarrow> bool" where
  "wf_field f = wf_value (snd f)"

lemma bit_7: "bit (7 :: int) n \<longleftrightarrow> n < 3"
proof -
  have "bit (mask 3 :: int) n \<longleftrightarrow> n < 3" by (simp only: bit_mask_iff) simp
  then show ?thesis by (simp add: mask_eq_exp_minus_1)
qed

lemma wire_type_bit: "bit (wire_type_of v) k \<Longrightarrow> k < 3"
proof -
  have "wire_type_of v AND mask 3 = wire_type_of v"
    by (rule less_mask_eq) (cases v; simp add: wire_types)
  moreover assume "bit (wire_type_of v) k"
  ultimately have "bit (wire_type_of v AND mask 3) k" by simp
  then show ?thesis by (simp only: bit_and_iff bit_mask_iff)
qed

lemma tag_of_number: "ucast (drop_bit 3 (tag_of n (wire_type_of v))) = n"
  by (rule bit_word_eqI) (auto simp: tag_of_def bit_simps dest: wire_type_bit)

lemma tag_of_wire_type: "ucast (tag_of n (wire_type_of v) AND 0x07) = wire_type_of v"
  by (rule bit_word_eqI) (auto simp: tag_of_def bit_simps bit_7 dest: wire_type_bit)

lemma value_prefix_bytes:
  "wf_value v \<Longrightarrow> value_prefix (wire_type_of v) (value_bytes v @ rest) = Some (v, rest)"
  by (cases v) (simp_all add: value_prefix_def wire_types varint_of_bytes unat_of_nat)

lemma field_prefix_bytes: "wf_field f \<Longrightarrow> field_prefix (field_bytes f @ rest) = Some (f, rest)"
  by (cases f) (simp add: wf_field_def field_prefix_def field_bytes_def varint_of_bytes
      tag_of_number tag_of_wire_type value_prefix_bytes)

lemma field_bytes_not_Nil [simp]: "field_bytes f \<noteq> []"
  by (cases f) (simp add: field_bytes_def)

lemma decode_spec_field:
  "wf_field f \<Longrightarrow> decode_spec (field_bytes f @ rest) m =
     (case apply_field f m of None \<Rightarrow> None | Some m' \<Rightarrow> decode_spec rest m')"
  by (simp add: decode_spec_unfold field_prefix_bytes)

lemma decode_spec_fields:
  "list_all wf_field fs \<Longrightarrow> decode_spec (concat (map field_bytes fs) @ rest) m =
     (case option_fold apply_field fs m of None \<Rightarrow> None | Some m' \<Rightarrow> decode_spec rest m')"
  by (induction fs arbitrary: m) (auto simp: decode_spec_field split: option.splits)

section \<open>Positions\<close>

text \<open>
  One iteration of the decoder's loop moves the position forward and never past the end of the
  bytes, so \<^verbatim>\<open>bytes.size() - pos\<close> never wraps around, no byte outside the view is read, and
  the loop ends after at most as many iterations as there are bytes.
\<close>

lemma decode_position_in_bounds:
  assumes "pos \<le> length bytes" and "decode_field bytes pos m = Some (pos', m')"
  shows "pos < pos' \<and> pos' \<le> length bytes"
  by (rule decode_field_progress [OF assms(2,1)])

end
