(* ===== verification/Codec.thy ===== *)
theory Codec
  imports Protobuf_Wire
begin

text \<open>
  What \<^verbatim>\<open>ProtobufWireCodec\<close> guarantees: the round trip and where it fails (negative status
  codes), concatenation as merging, unknown fields, the size of an encoding, and the numbers of
  fields the decoder confuses. All rest on \<open>decode_eq_spec\<close> and on \<open>encode_fields\<close>.
\<close>

section \<open>The fields of a message\<close>

definition message_fields :: "rpc_message \<Rightarrow> wire_field list" where
  "message_fields m =
     (if msg_id m \<noteq> 0 then [(1, WVarint (msg_id m))] else []) @
     (if kind m \<noteq> Unknown then [(2, WVarint (ucast (kind_value (kind m))))] else []) @
     (if service m \<noteq> [] then [(3, WBytes (service m))] else []) @
     (if method m \<noteq> [] then [(4, WBytes (method m))] else []) @
     (if payload m \<noteq> [] then [(5, WBytes (payload m))] else []) @
     (if status m \<noteq> 0 then [(6, WVarint (ucast (status m)))] else []) @
     (if error m \<noteq> [] then [(7, WBytes (error m))] else [])"

lemma write_tag_eq: "write_tag out n wt = out @ varint_bytes (tag_of n wt)"
  by (simp add: write_tag_def tag_of_def write_varint_append [of out])

lemma write_varint_field:
  "write_varint (write_tag out n kWireVarint) v = out @ field_bytes (n, WVarint v)"
  by (simp add: write_tag_eq field_bytes_def write_varint_append [of "out @ _"])

lemma write_length_delimited_field:
  "write_length_delimited out n b = out @ field_bytes (n, WBytes b)"
  by (simp add: write_length_delimited_def write_tag_eq field_bytes_def
      write_varint_append [of "out @ _"])

lemma encode_fields: "encode m = concat (map field_bytes (message_fields m))"
  by (simp add: encode_def message_fields_def Let_def write_varint_field write_length_delimited_field)

lemma wf_message_fields: "fits_memory m \<Longrightarrow> list_all wf_field (message_fields m)"
  by (simp add: message_fields_def fits_memory_def wf_field_def)

section \<open>The sign of a status\<close>

lemma unat_i32_less: "unat (s :: i32) < 4294967296"
proof -
  have "unat s < 2 ^ LENGTH(32)" by (rule unsigned_less)
  then show ?thesis by simp
qed

lemma sign_bit_unat: "bit s 31 \<longleftrightarrow> 2147483648 \<le> unat (s :: i32)"
proof -
  define q where "q = unat s div 2147483648"
  have "bit s 31 \<longleftrightarrow> bit (unat s) 31" by (simp add: bit_unsigned_iff)
  also have "\<dots> \<longleftrightarrow> odd (unat s div 2 ^ 31)" by (simp only: bit_iff_odd)
  also have "\<dots> \<longleftrightarrow> odd q" by (simp add: q_def)
  also have "\<dots> \<longleftrightarrow> 1 \<le> q"
  proof -
    have "q < 2" using unat_i32_less [of s] by (simp add: q_def div_less_iff_less_mult)
    then have "q = 0 \<or> q = 1" by auto
    then show ?thesis by auto
  qed
  also have "\<dots> \<longleftrightarrow> 2147483648 \<le> unat s"
    by (simp add: q_def less_eq_div_iff_mult_less_eq)
  finally show ?thesis .
qed

lemma status_fits_iff: "ucast (s :: i32) \<le> int32_max \<longleftrightarrow> 0 \<le> sint s"
proof -
  have "unat (ucast s :: u64) = unat s"
    using unat_i32_less [of s] by (simp add: unsigned_ucast_eq take_bit_nat_eq_self)
  then have "ucast s \<le> int32_max \<longleftrightarrow> \<not> bit s 31"
    by (auto simp: int32_max_def word_le_nat_alt sign_bit_unat)
  also have "\<dots> \<longleftrightarrow> 0 \<le> sint s"
    using bit_last_iff [of s] by simp linarith
  finally show ?thesis .
qed

section \<open>Round trip\<close>

text \<open>An optional field applied to a message that still has the default there.\<close>

lemma apply_optional_field:
  "msg_id s = 0 \<Longrightarrow> option_fold apply_field (if x \<noteq> 0 then [(1, WVarint x)] else []) s = Some (s\<lparr>msg_id := x\<rparr>)"
  "kind s = Unknown \<Longrightarrow>
     option_fold apply_field (if k \<noteq> Unknown then [(2, WVarint (ucast (kind_value k)))] else []) s = Some (s\<lparr>kind := k\<rparr>)"
  "service s = [] \<Longrightarrow> option_fold apply_field (if b \<noteq> [] then [(3, WBytes b)] else []) s = Some (s\<lparr>service := b\<rparr>)"
  "method s = [] \<Longrightarrow> option_fold apply_field (if b \<noteq> [] then [(4, WBytes b)] else []) s = Some (s\<lparr>method := b\<rparr>)"
  "payload s = [] \<Longrightarrow> option_fold apply_field (if b \<noteq> [] then [(5, WBytes b)] else []) s = Some (s\<lparr>payload := b\<rparr>)"
  "status s = 0 \<Longrightarrow> option_fold apply_field (if i \<noteq> 0 then [(6, WVarint (ucast i))] else []) s
     = (if 0 \<le> sint i then Some (s\<lparr>status := i\<rparr>) else None)"
  "error s = [] \<Longrightarrow> option_fold apply_field (if b \<noteq> [] then [(7, WBytes b)] else []) s = Some (s\<lparr>error := b\<rparr>)"
  using status_fits_iff [of i]
  by (simp_all add: apply_field.simps not_less [symmetric])

lemma apply_message_fields:
  "option_fold apply_field (message_fields m) empty_message
     = (if 0 \<le> sint (status m) then Some m else None)"
  by (simp add: message_fields_def option_fold_append apply_optional_field empty_message_def)

text \<open>
  C9. Decoding what \<^verbatim>\<open>encode\<close> wrote gives the message back, for every message with a
  non-negative status, and is refused for every message with a negative one: \<^verbatim>\<open>encode\<close>
  writes the status as \<^verbatim>\<open>uint32\<close>, and \<^verbatim>\<open>decode\<close> takes nothing above \<^verbatim>\<open>INT32_MAX\<close>.
\<close>

theorem decode_encode:
  assumes "fits_memory m"
  shows "decode (encode m) = (if 0 \<le> sint (status m) then Some m else None)"
  using decode_spec_fields [OF wf_message_fields [OF assms], of "[]" empty_message]
  by (simp add: decode_eq_spec encode_fields apply_message_fields)

text \<open>The request of \<^verbatim>\<open>tests/protocol_tests.cpp\<close>, and an answer with a negative status.\<close>

definition test_request :: rpc_message where
  "test_request = \<lparr>msg_id = 42, kind = Request, service = bytes_of ''DemoService'',
     method = bytes_of ''echo'', payload = bytes_of ''hello'', status = 0, error = []\<rparr>"

definition failed_response :: rpc_message where
  "failed_response = empty_message\<lparr>msg_id := 42, kind := Response, status := -1\<rparr>"

lemma fits_memory_tests: "fits_memory test_request" "fits_memory failed_response"
  by (simp_all add: fits_memory_def test_request_def failed_response_def empty_message_def)

lemma decode_test_request: "decode (encode test_request) = Some test_request"
  using decode_spec_fields [OF wf_message_fields [OF fits_memory_tests(1)], of "[]" empty_message]
  by (simp add: decode_eq_spec encode_fields apply_message_fields) (simp add: test_request_def)

theorem decode_encode_witness:
  "decode (encode test_request) = Some test_request \<and> decode (encode failed_response) = None"
proof -
  have "sint (status test_request) = 0" "sint (status failed_response) = -1"
    by (simp_all add: test_request_def failed_response_def)
  then show ?thesis
    using decode_encode [OF fits_memory_tests(1)] decode_encode [OF fits_memory_tests(2)] by simp
qed

section \<open>Concatenation merges\<close>

lemma varint_prefix_append:
  "varint_prefix shift acc bs = Some (v, rest) \<Longrightarrow> varint_prefix shift acc (bs @ b) = Some (v, rest @ b)"
  by (induction shift acc bs rule: varint_prefix.induct) (auto simp: Let_def split: if_splits)

lemma value_prefix_append:
  "value_prefix wt bs = Some (v, rest) \<Longrightarrow> value_prefix wt (bs @ b) = Some (v, rest @ b)"
  by (auto simp: value_prefix_def varint_prefix_append split: if_splits option.splits)

lemma field_prefix_append:
  "field_prefix bs = Some (f, rest) \<Longrightarrow> field_prefix (bs @ b) = Some (f, rest @ b)"
  by (auto simp: field_prefix_def varint_prefix_append value_prefix_append split: option.splits)

lemma fields_of_append:
  "fields_of a = Some fs \<Longrightarrow> fields_of (a @ b) = map_option (append fs) (fields_of b)"
proof (induction a arbitrary: fs rule: fields_of.induct)
  case (1 a)
  show ?case
  proof (cases "a = []")
    case True
    with "1.prems" show ?thesis by (simp add: fields_of.simps [of "[]"] option.map_ident)
  next
    case False
    with "1.prems" obtain f rest gs where
      f: "field_prefix a = Some (f, rest)" and gs: "fields_of rest = Some gs" and fs: "fs = f # gs"
      by (auto simp: fields_of.simps [of a] split: option.splits)
    have "fields_of (rest @ b) = map_option (append gs) (fields_of b)"
      using "1.IH" [OF False f refl gs] .
    then have "fields_of (a @ b) = map_option (Cons f) (map_option (append gs) (fields_of b))"
      using False field_prefix_append [OF f, of b] by (simp add: fields_of.simps [of "a @ b"])
    then show ?thesis using fs by (simp add: option.map_comp comp_def)
  qed
qed

lemma decode_spec_append:
  "decode_spec a m = Some m' \<Longrightarrow> decode_spec (a @ b) m = decode_spec b m'"
  by (auto simp: decode_spec_def fields_of_append option_fold_append split: option.splits)

text \<open>
  Decoding is compositional: when a body decodes to \<open>m\<close>, decoding the body with more bytes
  behind it continues the loop on those bytes from \<open>m\<close>. So bodies that are concatenated merge, the
  later fields winning, as the protobuf format wants.
\<close>

lemma decode_append:
  assumes "decode a = Some m"
  shows "decode (a @ b) = decode_loop b 0 m"
  using decode_spec_append [of a empty_message m b] assms
  by (simp add: decode_eq_spec decode_loop_refines)

section \<open>Unknown fields\<close>

text \<open>
  C31. A field the schema does not know is skipped, wherever it stands between two fields: a peer
  with a newer schema is understood. (A body that decodes is one that ends at a field boundary.)
\<close>

theorem decode_skips_unknown:
  assumes "decode a = Some m" and "wf_field (n, v)" and "n \<notin> {1, 2, 3, 4, 5, 6, 7}"
  shows "decode (a @ field_bytes (n, v) @ b) = decode (a @ b)"
proof -
  have a: "decode_spec a empty_message = Some m" using assms(1) by (simp add: decode_eq_spec)
  have "decode_spec (field_bytes (n, v) @ b) m = decode_spec b m"
    using assms(2,3) by (simp add: decode_spec_field apply_field.simps)
  then show ?thesis by (simp add: decode_eq_spec decode_spec_append [OF a])
qed

theorem decode_skips_unknown_witness:
  "decode (encode test_request @ field_bytes (9, WFixed32 [1, 2, 3, 4]) @ []) = Some test_request"
  using decode_skips_unknown [OF decode_test_request, of 9 "WFixed32 [1, 2, 3, 4]" "[]"]
  by (simp add: wf_field_def decode_test_request)

section \<open>Size\<close>

lemma length_varint_small: "unat v < 128 \<Longrightarrow> length (varint_bytes v) = 1"
  by (simp add: varint_bytes_small word_less_nat_alt)

lemma length_varint_u32: "length (varint_bytes (ucast (w :: u32))) \<le> 5"
proof (rule length_varint_bytes_le)
  have "unat (ucast w :: u64) = unat w"
    using unat_i32_less [of w] by (simp add: unsigned_ucast_eq take_bit_nat_eq_self)
  then show "unat (ucast w :: u64) < 128 ^ 5" using unat_i32_less [of w] by simp
qed simp

text \<open>The tags of the schema take one byte each.\<close>

lemma length_schema_tags:
  "length (varint_bytes (tag_of 1 kWireVarint)) = 1"
  "length (varint_bytes (tag_of 2 kWireVarint)) = 1"
  "length (varint_bytes (tag_of 3 kWireLengthDelimited)) = 1"
  "length (varint_bytes (tag_of 4 kWireLengthDelimited)) = 1"
  "length (varint_bytes (tag_of 5 kWireLengthDelimited)) = 1"
  "length (varint_bytes (tag_of 6 kWireVarint)) = 1"
  "length (varint_bytes (tag_of 7 kWireLengthDelimited)) = 1"
  by (simp_all add: tag_of_def wire_types length_varint_small)

text \<open>
  An encoding is at most 67 bytes longer than the strings it carries: ten bytes and a tag for
  the id, five and a tag for the kind and for the status, ten and a tag for each string's length.
\<close>

lemma length_encode:
  "length (encode m) \<le>
     67 + length (service m) + length (method m) + length (payload m) + length (error m)"
proof -
  note len = length_varint_bytes_10 length_varint_u32
  have "length (encode m) =
      (if msg_id m \<noteq> 0 then 1 + length (varint_bytes (msg_id m)) else 0) +
      (if kind m \<noteq> Unknown then 1 + length (varint_bytes (ucast (kind_value (kind m)))) else 0) +
      (if service m \<noteq> [] then 1 + length (varint_bytes (of_nat (length (service m)))) + length (service m) else 0) +
      (if method m \<noteq> [] then 1 + length (varint_bytes (of_nat (length (method m)))) + length (method m) else 0) +
      (if payload m \<noteq> [] then 1 + length (varint_bytes (of_nat (length (payload m)))) + length (payload m) else 0) +
      (if status m \<noteq> 0 then 1 + length (varint_bytes (ucast (status m))) else 0) +
      (if error m \<noteq> [] then 1 + length (varint_bytes (of_nat (length (error m)))) + length (error m) else 0)"
    by (simp add: encode_fields message_fields_def field_bytes_def length_schema_tags)
  also have "\<dots> \<le> 11 + 6 + (11 + length (service m)) + (11 + length (method m)) +
      (11 + length (payload m)) + 6 + (11 + length (error m))"
    using len(1) [of "msg_id m"] len(2) [of "kind_value (kind m)"] len(2) [of "status m"]
      len(1) [of "of_nat (length (service m))"] len(1) [of "of_nat (length (method m))"]
      len(1) [of "of_nat (length (payload m))"] len(1) [of "of_nat (length (error m))"]
    by (intro add_mono) simp_all
  finally show ?thesis by simp
qed

section \<open>Field numbers above 32 bits\<close>

text \<open>
  The decoder keeps the low 32 bits of the 61-bit field number of a tag
  (\<^verbatim>\<open>static_cast<std::uint32_t>(tag >> 3)\<close>): tags that agree on their low 35 bits are the same
  field to it, so a field with number \<open>2 ^ 32 + 1\<close> overwrites the message's id.
\<close>

lemma decode_truncates_field_number:
  assumes "take_bit 35 t = take_bit 35 t'"
  shows "decode (write_varint [] t @ b) = decode (write_varint [] t' @ b)"
proof -
  have bits: "bit t n = bit t' n" if "n < 35" for n
    using arg_cong [OF assms, of "\<lambda>w. bit w n"] that by (simp add: bit_take_bit_iff)
  have "ucast (drop_bit 3 t) = (ucast (drop_bit 3 t') :: u32)"
    by (rule bit_word_eqI) (auto simp: bit_simps bits)
  moreover have "ucast (t AND 0x07) = (ucast (t' AND 0x07) :: u32)"
    by (rule bit_word_eqI) (auto simp: bit_simps bit_7 bits)
  ultimately have "field_prefix (varint_bytes t @ b) = field_prefix (varint_bytes t' @ b)"
    by (simp add: field_prefix_def varint_of_bytes)
  then show ?thesis by (simp add: decode_eq_spec decode_spec_unfold)
qed

end
