(* ===== verification/Framing.thy ===== *)
theory Framing
  imports Codec
begin

text \<open>
  \<^verbatim>\<open>include/minirpc/framing.hpp\<close>: the transport frame, a four-byte big-endian length and
  the body. \<^verbatim>\<open>try_pop_frame\<close> takes one frame off the front of the read buffer.
  \<open>parse_stream\<close> is the abstract meaning of a byte stream: the messages it carries and how it
  ends; a session's read loop is proved to compute it, so that the facts here, about how a stream
  may be cut into pieces, are facts about the code. The locale \<open>framed_codec\<close> is what the
  transport needs of a codec.
\<close>

section \<open>Frames\<close>

definition kMaxFrameSize :: u32 where
  "kMaxFrameSize = 4 * 1024 * 1024"

definition kFrameHeaderSize :: nat where
  "kFrameHeaderSize = 4"

definition encode_frame_size :: "u32 \<Rightarrow> bytes" where
  "encode_frame_size n =
     [ucast (drop_bit 24 n AND 0xff),
      ucast (drop_bit 16 n AND 0xff),
      ucast (drop_bit 8 n AND 0xff),
      ucast (n AND 0xff)]"

definition decode_frame_size :: "bytes \<Rightarrow> u32" where
  "decode_frame_size data =
     push_bit 24 (ucast (data ! 0)) OR
     push_bit 16 (ucast (data ! 1)) OR
     push_bit 8 (ucast (data ! 2)) OR
     ucast (data ! 3)"

definition make_frame :: "bytes \<Rightarrow> bytes" where
  "make_frame body = encode_frame_size (of_nat (length body)) @ body"

datatype frame_read_result = NeedMore | Ok | TooLarge

text \<open>The result, the buffer and the output argument \<^verbatim>\<open>payload\<close> after the call.\<close>

definition try_pop_frame :: "bytes \<Rightarrow> bytes \<Rightarrow> frame_read_result \<times> bytes \<times> bytes" where
  "try_pop_frame buffer out =
     (if length buffer < kFrameHeaderSize then (NeedMore, buffer, out)
      else let n = decode_frame_size buffer
           in if n > kMaxFrameSize then (TooLarge, buffer, out)
              else if length buffer < kFrameHeaderSize + unat n then (NeedMore, buffer, out)
              else (Ok, drop (kFrameHeaderSize + unat n) buffer,
                    take (unat n) (drop kFrameHeaderSize buffer)))"

section \<open>Frame sizes\<close>

lemma bit_0xff: "bit (0xff :: int) n \<longleftrightarrow> n < 8"
proof -
  have "bit (mask 8 :: int) n \<longleftrightarrow> n < 8" by (simp only: bit_mask_iff) simp
  then show ?thesis by (simp add: mask_eq_exp_minus_1)
qed

lemma unat_kMaxFrameSize: "unat kMaxFrameSize = 4194304"
  by (simp add: kMaxFrameSize_def)

lemma length_encode_frame_size [simp]: "length (encode_frame_size n) = 4"
  by (simp add: encode_frame_size_def)

lemma length_make_frame [simp]: "length (make_frame p) = 4 + length p"
  by (simp add: make_frame_def)

lemma decode_frame_size_append:
  "4 \<le> length data \<Longrightarrow> decode_frame_size (data @ rest) = decode_frame_size data"
  by (cases "data = []") (simp_all add: decode_frame_size_def nth_append)

lemma decode_encode_frame_size: "decode_frame_size (encode_frame_size n) = n"
proof (rule bit_word_eqI)
  fix k
  assume k: "k < LENGTH(32)"
  then consider "k < 8" | "8 \<le> k" "k - 8 < 8" "\<not> 16 \<le> k" | "16 \<le> k" "\<not> k - 8 < 8" "k - 16 < 8" "\<not> 24 \<le> k"
    | "24 \<le> k" "\<not> k - 8 < 8" "\<not> k - 16 < 8" "k - 24 < 8"
    by fastforce
  then show "bit (decode_frame_size (encode_frame_size n)) k \<longleftrightarrow> bit n k"
    using k by cases (simp_all add: encode_frame_size_def decode_frame_size_def bit_simps bit_0xff)
qed

lemma decode_make_frame:
  "length p < 2 ^ 32 \<Longrightarrow> unat (decode_frame_size (make_frame p @ rest)) = length p"
  by (simp add: make_frame_def decode_frame_size_append decode_encode_frame_size unat_of_nat)

lemma unat_header_byte: "unat (ucast (drop_bit k (n :: u32) AND 0xff) :: byte) = unat n div 2 ^ k mod 256"
proof -
  have "(ucast (drop_bit k n AND 0xff) :: byte) = ucast (drop_bit k n)"
    by (rule bit_word_eqI) (auto simp: bit_simps bit_0xff)
  then have "unat (ucast (drop_bit k n AND 0xff) :: byte) = take_bit 8 (drop_bit k (unat n))"
    by (simp add: unsigned_ucast_eq unat_drop_bit_eq)
  also have "\<dots> = unat n div 2 ^ k mod 256"
    by (simp add: take_bit_eq_mod drop_bit_eq_div)
  finally show ?thesis .
qed

lemma base_256:
  assumes "(n :: nat) < 4294967296"
  shows "n = 256 ^ 3 * (n div 2 ^ 24 mod 256) + 256 ^ 2 * (n div 2 ^ 16 mod 256)
          + 256 * (n div 2 ^ 8 mod 256) + n div 2 ^ 0 mod 256"
proof -
  define a where "a = n div 256"
  define b where "b = a div 256"
  define c where "c = b div 256"
  have "n div 2 ^ 8 = a" "n div 2 ^ 16 = b" "n div 2 ^ 24 = c"
    by (simp_all add: a_def b_def c_def div_mult2_eq [symmetric])
  moreover have "c < 256" using assms
    by (simp add: a_def b_def c_def div_mult2_eq [symmetric] div_less_iff_less_mult)
  moreover have "n = 256 * a + n mod 256" "a = 256 * b + a mod 256" "b = 256 * c + b mod 256"
    by (simp_all add: a_def b_def c_def)
  ultimately show ?thesis by simp
qed

text \<open>
  The header is the length in network byte order: reading it back gives the length, and its
  four bytes, most significant first, are the digits of the length in base 256.
\<close>

lemma frame_size_roundtrip:
  "decode_frame_size (encode_frame_size n @ rest) = n \<and>
   unat n = 256 ^ 3 * unat (encode_frame_size n ! 0) + 256 ^ 2 * unat (encode_frame_size n ! 1)
          + 256 * unat (encode_frame_size n ! 2) + unat (encode_frame_size n ! 3)"
proof
  show "decode_frame_size (encode_frame_size n @ rest) = n"
    by (simp add: decode_frame_size_append decode_encode_frame_size)
  have byte_at: "unat (ucast (drop_bit k n AND 0xff) :: byte) = unat n div 2 ^ k mod 256" for k
    by (rule unat_header_byte)
  have "unat n = 256 ^ 3 * (unat n div 2 ^ 24 mod 256) + 256 ^ 2 * (unat n div 2 ^ 16 mod 256)
          + 256 * (unat n div 2 ^ 8 mod 256) + unat n div 2 ^ 0 mod 256"
    by (rule base_256) (rule unat_i32_less)
  then show "unat n = 256 ^ 3 * unat (encode_frame_size n ! 0) + 256 ^ 2 * unat (encode_frame_size n ! 1)
          + 256 * unat (encode_frame_size n ! 2) + unat (encode_frame_size n ! 3)"
    using byte_at [of 0] byte_at [of 8] byte_at [of 16] byte_at [of 24]
    by (simp add: encode_frame_size_def)
qed

section \<open>Popping frames\<close>

lemma try_pop_frame_cases:
  obtains (more) "try_pop_frame buffer out = (NeedMore, buffer, out)"
  | (large) "try_pop_frame buffer out = (TooLarge, buffer, out)"
  | (ok) body rest where "try_pop_frame buffer out = (Ok, rest, body)" "length rest + 4 \<le> length buffer"
  by (cases "try_pop_frame buffer out")
     (auto simp: try_pop_frame_def Let_def kFrameHeaderSize_def split: if_splits)

lemma try_pop_frame_shorter:
  "try_pop_frame buffer out = (Ok, rest, body) \<Longrightarrow> length rest < length buffer"
  by (cases rule: try_pop_frame_cases [of buffer out]) auto

lemma try_pop_frame_append:
  assumes "try_pop_frame buffer out = (r, rest, body)" and "r \<noteq> NeedMore"
  shows "try_pop_frame (buffer @ b) out = (r, rest @ b, body)"
  using assms
  by (auto simp: try_pop_frame_def Let_def kFrameHeaderSize_def decode_frame_size_append split: if_splits)

lemma try_pop_make_frame:
  "length p \<le> unat kMaxFrameSize \<Longrightarrow> try_pop_frame (make_frame p @ rest) out = (Ok, rest, p)"
  using decode_make_frame [of p rest]
  by (simp add: try_pop_frame_def Let_def kFrameHeaderSize_def unat_kMaxFrameSize word_less_nat_alt)
     (simp add: make_frame_def)

text \<open>\<^verbatim>\<open>tests/protocol_tests.cpp\<close>: all its assertions hold.\<close>

definition protocol_tests :: bool where
  "protocol_tests =
     (let encoded = encode test_request
      in case decode encoded of
           None \<Rightarrow> False
         | Some decoded \<Rightarrow>
             msg_id decoded = msg_id test_request \<and> kind decoded = kind test_request
             \<and> service decoded = service test_request \<and> method decoded = method test_request
             \<and> payload decoded = payload test_request
             \<and> (case try_pop_frame (make_frame encoded) [] of
                  (result, buffer, body) \<Rightarrow> result = Ok \<and> body = encoded \<and> buffer = []))"

lemma protocol_tests_pass: protocol_tests
  by code_simp

lemma prefix_header:
  "prefix b (make_frame p) \<Longrightarrow> 4 \<le> length b \<Longrightarrow> length p < 2 ^ 32 \<Longrightarrow>
   unat (decode_frame_size b) = length p"
  using decode_frame_size_append [of b] decode_make_frame [of p "[]"]
  by (auto simp: prefix_def)

text \<open>
  Until its last byte has arrived, a frame is left in the buffer untouched (a half packet).
\<close>

lemma try_pop_frame_partial:
  assumes "strict_prefix b (make_frame p)" and "length p \<le> unat kMaxFrameSize"
  shows "try_pop_frame b out = (NeedMore, b, out)"
proof -
  have "length b < 4 + length p"
    using prefix_length_less [OF assms(1)] by simp
  moreover have "prefix b (make_frame p)" using assms(1) by (simp add: strict_prefix_def)
  ultimately show ?thesis
    using prefix_header [of b p] assms(2)
    by (auto simp: try_pop_frame_def Let_def kFrameHeaderSize_def unat_kMaxFrameSize word_less_nat_alt)
qed

text \<open>
  A frame whose body exceeds the limit (and still has a 32-bit length) is reported as soon as
  its header is there, whatever part of the body has arrived.
\<close>

lemma try_pop_frame_too_large:
  assumes "unat kMaxFrameSize < length p" and "length p < 2 ^ 32"
    and "prefix b (make_frame p)" and "4 \<le> length b"
  shows "try_pop_frame b out = (TooLarge, b, out)"
  using prefix_header [OF assms(3,4,2)] assms(1,4)
  by (simp add: try_pop_frame_def Let_def kFrameHeaderSize_def unat_kMaxFrameSize word_less_nat_alt)

section \<open>Streams\<close>

text \<open>
  How a byte stream ends: waiting for more bytes, with a frame above the limit, or with a body the
  codec refuses.
\<close>

datatype stream_end = Pending | Oversized | Malformed

function parse_stream :: "(bytes \<Rightarrow> 'm option) \<Rightarrow> bytes \<Rightarrow> 'm list \<times> stream_end \<times> bytes" where
  "parse_stream dec buffer =
     (case try_pop_frame buffer [] of
        (NeedMore, rest, _) \<Rightarrow> ([], Pending, rest)
      | (TooLarge, rest, _) \<Rightarrow> ([], Oversized, rest)
      | (Ok, rest, body) \<Rightarrow>
          (case dec body of
             None \<Rightarrow> ([], Malformed, rest)
           | Some m \<Rightarrow> (case parse_stream dec rest of (ms, e, rest') \<Rightarrow> (m # ms, e, rest'))))"
  by pat_completeness auto
termination
  by (relation "measure (\<lambda>(dec, buffer). length buffer)") (auto dest: try_pop_frame_shorter [OF sym])

declare parse_stream.simps [simp del]

lemma parse_stream_Ok:
  "try_pop_frame buffer [] = (Ok, rest, body) \<Longrightarrow> dec body = Some m \<Longrightarrow>
   parse_stream dec buffer = (case parse_stream dec rest of (ms, e, rest') \<Rightarrow> (m # ms, e, rest'))"
  by (simp add: parse_stream.simps [of dec buffer])

lemma parse_stream_cases [case_names pending oversized malformed message]:
  obtains (pending) "try_pop_frame buffer [] = (NeedMore, buffer, [])"
      "parse_stream dec buffer = ([], Pending, buffer)"
  | (oversized) "try_pop_frame buffer [] = (TooLarge, buffer, [])"
      "parse_stream dec buffer = ([], Oversized, buffer)"
  | (malformed) body rest where "try_pop_frame buffer [] = (Ok, rest, body)" "dec body = None"
      "parse_stream dec buffer = ([], Malformed, rest)"
  | (message) body rest m where "try_pop_frame buffer [] = (Ok, rest, body)" "dec body = Some m"
      "parse_stream dec buffer = (case parse_stream dec rest of (ms, e, rest') \<Rightarrow> (m # ms, e, rest'))"
proof (cases rule: try_pop_frame_cases [of buffer "[]"])
  case more
  then show thesis using pending by (simp add: parse_stream.simps [of dec buffer])
next
  case large
  then show thesis using oversized by (simp add: parse_stream.simps [of dec buffer])
next
  case (ok body rest)
  then show thesis
    using malformed message by (cases "dec body") (simp_all add: parse_stream.simps [of dec buffer])
qed

text \<open>More bytes behind a stream: the messages before stay, and parsing goes on where it waited.\<close>

lemma parse_stream_append:
  "parse_stream dec (a @ b) =
     (case parse_stream dec a of
        (ms, Pending, rest) \<Rightarrow> (case parse_stream dec (rest @ b) of (ms', e, rest') \<Rightarrow> (ms @ ms', e, rest'))
      | (ms, e, rest) \<Rightarrow> (ms, e, rest @ b))"
proof (induction dec a rule: parse_stream.induct)
  case (1 dec a)
  show ?case
  proof (cases rule: parse_stream_cases [of a dec])
    case pending
    then show ?thesis by (auto split: prod.splits)
  next
    case oversized
    then show ?thesis
      using try_pop_frame_append [OF oversized(1), of b] by (simp add: parse_stream.simps [of dec "a @ b"])
  next
    case (malformed body rest)
    then show ?thesis
      using try_pop_frame_append [OF malformed(1), of b] by (simp add: parse_stream.simps [of dec "a @ b"])
  next
    case (message body rest m)
    have "parse_stream dec (a @ b)
        = (case parse_stream dec (rest @ b) of (ms, e, rest') \<Rightarrow> (m # ms, e, rest'))"
      using try_pop_frame_append [OF message(1), of b] message(2) by (simp add: parse_stream_Ok)
    moreover note "1.IH" [OF message(1) [symmetric] refl refl message(2)] message(3)
    ultimately show ?thesis
      by (auto split: prod.splits stream_end.splits)
  qed
qed

text \<open>Feeding a stream in pieces: each piece is put behind what the pieces before left over.\<close>

fun feed_stream :: "(bytes \<Rightarrow> 'm option) \<Rightarrow> bytes \<Rightarrow> bytes list \<Rightarrow> 'm list \<times> stream_end \<times> bytes" where
  "feed_stream dec buffer [] = ([], Pending, buffer)"
| "feed_stream dec buffer (c # cs) =
     (case parse_stream dec (buffer @ c) of
        (ms, Pending, rest) \<Rightarrow> (case feed_stream dec rest cs of (ms', e, rest') \<Rightarrow> (ms @ ms', e, rest'))
      | (ms, e, rest) \<Rightarrow> (ms, e, rest @ concat cs))"

lemma parse_stream_pending_rest:
  "parse_stream dec a = (ms, Pending, rest) \<Longrightarrow> parse_stream dec rest = ([], Pending, rest)"
proof (induction dec a arbitrary: ms rule: parse_stream.induct)
  case (1 dec a)
  show ?case
  proof (cases rule: parse_stream_cases [of a dec])
    case (message body rest' m)
    with "1.prems" obtain ms' where "parse_stream dec rest' = (ms', Pending, rest)"
      by (auto split: prod.splits)
    with "1.IH" [OF message(1) [symmetric] refl refl message(2)] show ?thesis by blast
  qed (use "1.prems" in auto)
qed

text \<open>
  The messages of a stream, and how it ends, do not depend on how TCP cuts it into pieces
  (sticky and half packets), for any codec.
\<close>

lemma feed_stream_concat:
  assumes "parse_stream dec buffer = ([], Pending, buffer)"
  shows "feed_stream dec buffer cs = parse_stream dec (buffer @ concat cs)"
  using assms
proof (induction cs arbitrary: buffer)
  case (Cons c cs)
  obtain ms e rest where c: "parse_stream dec (buffer @ c) = (ms, e, rest)" by (cases "parse_stream dec (buffer @ c)")
  have "parse_stream dec ((buffer @ c) @ concat cs) =
     (case (ms, e, rest) of
        (ms, Pending, rest) \<Rightarrow> (case parse_stream dec (rest @ concat cs) of (ms', e, rest') \<Rightarrow> (ms @ ms', e, rest'))
      | (ms, e, rest) \<Rightarrow> (ms, e, rest @ concat cs))"
    by (simp only: parse_stream_append [of dec "buffer @ c"] c)
  then show ?case
    using Cons.IH [of rest] parse_stream_pending_rest [of dec "buffer @ c" ms rest] c
    by (auto split: stream_end.splits)
qed simp

section \<open>What the transport needs of a codec\<close>

locale framed_codec =
  fixes enc :: "'m \<Rightarrow> bytes" and dec :: "bytes \<Rightarrow> 'm option" and ok :: "'m \<Rightarrow> bool"
  assumes dec_enc: "ok m \<Longrightarrow> dec (enc m) = Some m"
    and enc_fits: "ok m \<Longrightarrow> length (enc m) \<le> unat kMaxFrameSize"
begin

lemma parse_one: "ok m \<Longrightarrow> parse_stream dec (make_frame (enc m) @ rest)
    = (case parse_stream dec rest of (ms, e, rest') \<Rightarrow> (m # ms, e, rest'))"
  by (rule parse_stream_Ok [where body = "enc m"]) (rule try_pop_make_frame, erule enc_fits, erule dec_enc)

lemma parse_frames: "list_all ok ms \<Longrightarrow>
    parse_stream dec (concat (map (\<lambda>m. make_frame (enc m)) ms) @ rest)
      = (case parse_stream dec rest of (ms', e, rest') \<Rightarrow> (ms @ ms', e, rest'))"
proof (induction ms)
  case (Cons m ms)
  then show ?case by (auto simp: parse_one split: prod.splits)
qed (simp split: prod.splits)

lemma parse_frames_only: "list_all ok ms \<Longrightarrow>
    parse_stream dec (concat (map (\<lambda>m. make_frame (enc m)) ms)) = (ms, Pending, [])"
  using parse_frames [of ms "[]"]
  by (simp add: parse_stream.simps [of dec "[]"] try_pop_frame_def kFrameHeaderSize_def)

lemma frames_inj:
  "list_all ok ms \<Longrightarrow> list_all ok ns \<Longrightarrow>
   concat (map (\<lambda>m. make_frame (enc m)) ms) = concat (map (\<lambda>m. make_frame (enc m)) ns) \<Longrightarrow> ms = ns"
  by (metis parse_frames_only fst_conv)

end

text \<open>The messages the program can send and the peer can read.\<close>

definition sendable :: "rpc_message \<Rightarrow> bool" where
  "sendable m \<longleftrightarrow> 0 \<le> sint (status m) \<and> length (encode m) \<le> unat kMaxFrameSize"

lemma encode_longer:
  "length (service m) \<le> length (encode m)" "length (method m) \<le> length (encode m)"
  "length (payload m) \<le> length (encode m)" "length (error m) \<le> length (encode m)"
  by (simp_all add: encode_fields message_fields_def field_bytes_def)

lemma sendable_fits: "sendable m \<Longrightarrow> fits_memory m"
  using encode_longer [of m] by (simp add: sendable_def fits_memory_def unat_kMaxFrameSize)

interpretation protobuf: framed_codec encode decode sendable
proof unfold_locales
  fix m
  assume "sendable m"
  moreover from this have "decode_spec (encode m) empty_message = Some m"
    using decode_spec_fields [OF wf_message_fields [OF sendable_fits], of m "[]" empty_message]
    by (simp add: encode_fields apply_message_fields sendable_def)
  ultimately show "decode (encode m) = Some m" "length (encode m) \<le> unat kMaxFrameSize"
    by (simp_all add: decode_eq_spec sendable_def)
qed

text \<open>
  C15. Whatever messages are encoded, framed and written one behind the other come out of the
  stream in the same order, none lost, none made up, for messages with a non-negative status and
  an encoding within the frame limit.
\<close>

theorem parse_stream_of_messages:
  assumes "list_all sendable ms"
  shows "parse_stream decode (concat (map (\<lambda>m. make_frame (encode m)) ms)) = (ms, Pending, [])"
  by (rule protobuf.parse_frames_only [OF assms])

theorem parse_stream_of_messages_witness:
  "parse_stream decode (concat (map (\<lambda>m. make_frame (encode m)) [test_request, empty_message]))
     = ([test_request, empty_message], Pending, [])"
proof (rule parse_stream_of_messages)
  have "sendable test_request" "sendable empty_message"
    using length_encode [of test_request] length_encode [of empty_message]
    by (simp_all add: sendable_def test_request_def empty_message_def unat_kMaxFrameSize)
  then show "list_all sendable [test_request, empty_message]" by simp
qed

end
