(* ===== verification/Event_Loop.thy ===== *)
theory Event_Loop
  imports Prelude
begin

text \<open>
  \<^verbatim>\<open>include/minirpc/event_loop.hpp\<close> and \<^verbatim>\<open>src/event_loop.cpp\<close>: the epoll loop with its
  handler table and its queue of posted tasks. What a handler or a task does is a parameter of the
  loop (\<open>run_handler\<close>, \<open>run_task\<close>), and so is the state \<open>'o\<close> of the objects they belong to.

  The kernel is a parameter too. Each system call of the loop takes the next number of \<open>answers\<close>
  as its outcome: 0 for success, else an \<^verbatim>\<open>errno\<close>; once the list is used up, calls succeed. Every
  theorem is about any such list. The calls made are logged in \<open>syscalls\<close>. The eventfd counter is
  the object of eventfd(2): a write adds, fails with \<^verbatim>\<open>EAGAIN\<close> only when the counter is full,
  and a read succeeds and resets it exactly when it is not zero.

  The two mutexes make the accesses they guard atomic; the model takes them as single steps. Calls of
  other threads are made while the loop waits (\<open>run_external\<close>); \<open>Loop_Threads\<close> puts them anywhere.
\<close>

section \<open>State and system calls\<close>

abbreviation EPOLLIN :: u32 where "EPOLLIN \<equiv> 0x1"
abbreviation EPOLLOUT :: u32 where "EPOLLOUT \<equiv> 0x4"
abbreviation EPOLLERR :: u32 where "EPOLLERR \<equiv> 0x8"
abbreviation EPOLLHUP :: u32 where "EPOLLHUP \<equiv> 0x10"
abbreviation EPOLLRDHUP :: u32 where "EPOLLRDHUP \<equiv> 0x2000"

datatype syscall =
    EpollAdd fd u32
  | EpollMod fd u32
  | EpollDel fd
  | EventfdWrite fd
  | EventfdRead fd
  | FcntlGet fd
  | FcntlSet fd
  | CloseFd fd
  | SetSockOpt fd
  | Bind fd
  | Listen fd

record ('h, 't) event_loop =
  epoll_fd :: fd
  event_fd :: fd
  stopped :: bool
  handlers :: "fd \<rightharpoonup> 'h"
  tasks :: "'t list"
  cerrno :: errno
  event_counter :: nat
  answers :: "errno list"
  syscalls :: "syscall list"

text \<open>One system call: its answer, 0 for success; a failure sets \<^verbatim>\<open>errno\<close>.\<close>

definition sys :: "syscall \<Rightarrow> (('h, 't, 'x) event_loop_scheme, errno) eff" where
  "sys c = (\<lambda>e.
     case answers e of
       [] \<Rightarrow> (Inr 0, e\<lparr>syscalls := syscalls e @ [c]\<rparr>)
     | a # as \<Rightarrow> (Inr a, e\<lparr>syscalls := syscalls e @ [c], answers := as,
                        cerrno := if a = 0 then cerrno e else a\<rparr>))"

definition throw_system_error :: "string \<Rightarrow> (('h, 't, 'x) event_loop_scheme, 'a) eff" where
  "throw_system_error what = (\<lambda>e. throw (SystemError (cerrno e) what) e)"

definition set_non_blocking :: "fd \<Rightarrow> (('h, 't, 'x) event_loop_scheme, unit) eff" where
  "set_non_blocking fd =
     bind (sys (FcntlGet fd)) (\<lambda>flags.
       if flags \<noteq> 0 then throw_system_error ''fcntl(F_GETFL)''
       else bind (sys (FcntlSet fd)) (\<lambda>rc.
         if rc \<noteq> 0 then throw_system_error ''fcntl(F_SETFL)''
         else ret ()))"

section \<open>Registering handlers\<close>

definition loop_add :: "fd \<Rightarrow> u32 \<Rightarrow> 'h \<Rightarrow> (('h, 't, 'x) event_loop_scheme, unit) eff" where
  "loop_add fd events handler =
     seq (upd (\<lambda>e. e\<lparr>handlers := (handlers e)(fd \<mapsto> handler)\<rparr>))
         (bind (sys (EpollAdd fd events)) (\<lambda>rc.
            if rc \<noteq> 0
            then seq (upd (\<lambda>e. e\<lparr>handlers := (handlers e)(fd := None)\<rparr>))
                     (throw_system_error ''epoll_ctl(ADD)'')
            else ret ()))"

definition loop_modify :: "fd \<Rightarrow> u32 \<Rightarrow> (('h, 't, 'x) event_loop_scheme, unit) eff" where
  "loop_modify fd events =
     bind (sys (EpollMod fd events)) (\<lambda>rc.
       if rc \<noteq> 0 \<and> rc \<noteq> ENOENT \<and> rc \<noteq> EBADF then throw_system_error ''epoll_ctl(MOD)''
       else ret ())"

definition loop_remove :: "fd \<Rightarrow> (('h, 't, 'x) event_loop_scheme, unit) eff" where
  "loop_remove fd =
     bind (sys (EpollDel fd)) (\<lambda>_.
       upd (\<lambda>e. e\<lparr>handlers := (handlers e)(fd := None)\<rparr>))"

section \<open>Waking up and posting\<close>

text \<open>
  The write of \<^verbatim>\<open>wakeup\<close> adds one to the counter; on \<^verbatim>\<open>EAGAIN\<close> the counter is full.
\<close>

definition count_wakeup :: "errno \<Rightarrow> ('h, 't, 'x) event_loop_scheme \<Rightarrow> ('h, 't, 'x) event_loop_scheme" where
  "count_wakeup rc e =
     (if rc = 0 then e\<lparr>event_counter := Suc (event_counter e)\<rparr>
      else if rc = EAGAIN then e\<lparr>event_counter := max 1 (event_counter e)\<rparr>
      else e)"

definition wakeup :: "(('h, 't, 'x) event_loop_scheme, unit) eff" where
  "wakeup = (\<lambda>e.
     bind (sys (EventfdWrite (event_fd e))) (\<lambda>rc.
       seq (upd (count_wakeup rc))
           (if rc \<noteq> 0 \<and> rc \<noteq> EAGAIN \<and> rc \<noteq> EBADF then throw_system_error ''eventfd write''
            else ret ())) e)"

function drain_wakeup :: "(('h, 't, 'x) event_loop_scheme, unit) eff" where
  "drain_wakeup e =
     (let e' = e\<lparr>syscalls := syscalls e @ [EventfdRead (event_fd e)]\<rparr>
      in if 0 < event_counter e then drain_wakeup (e'\<lparr>event_counter := 0\<rparr>)
         else (Inr (), e'\<lparr>cerrno := EAGAIN\<rparr>))"
  by pat_completeness auto
termination
  by (relation "measure event_counter") auto

declare drain_wakeup.simps [simp del]

definition loop_post :: "'t \<Rightarrow> (('h, 't, 'x) event_loop_scheme, unit) eff" where
  "loop_post task = seq (upd (\<lambda>e. e\<lparr>tasks := tasks e @ [task]\<rparr>)) wakeup"

definition loop_stop :: "(('h, 't, 'x) event_loop_scheme, unit) eff" where
  "loop_stop =
     seq (upd (\<lambda>e. e\<lparr>stopped := True\<rparr>))
         (\<lambda>e. if event_fd e \<noteq> -1 then wakeup e else ret () e)"

section \<open>Construction and destruction\<close>

text \<open>
  \<^verbatim>\<open>EventLoop::EventLoop()\<close>: \<open>ep\<close> and \<open>ev\<close> are what epoll_create1 and eventfd answered;
  \<open>drain\<close> is the closure that calls \<^verbatim>\<open>drain_wakeup\<close>.
\<close>

definition loop_init :: "errno + fd \<Rightarrow> errno + fd \<Rightarrow> 'h \<Rightarrow> (('h, 't, 'x) event_loop_scheme, unit) eff" where
  "loop_init ep ev drain =
     (case ep of
        Inl err \<Rightarrow> seq (upd (\<lambda>e. e\<lparr>cerrno := err\<rparr>)) (throw_system_error ''epoll_create1'')
      | Inr epfd \<Rightarrow>
          seq (upd (\<lambda>e. e\<lparr>epoll_fd := epfd\<rparr>))
            (case ev of
               Inl err \<Rightarrow>
                 seq (upd (\<lambda>e. e\<lparr>cerrno := err\<rparr>))
                   (bind (sys (CloseFd epfd)) (\<lambda>_.
                      seq (upd (\<lambda>e. e\<lparr>cerrno := err\<rparr>)) (throw_system_error ''eventfd'')))
             | Inr evfd \<Rightarrow>
                 seq (upd (\<lambda>e. e\<lparr>event_fd := evfd\<rparr>)) (loop_add evfd EPOLLIN drain)))"

definition loop_destroy :: "(('h, 't, 'x) event_loop_scheme, unit) eff" where
  "loop_destroy =
     seq loop_stop
       (seq (\<lambda>e. if event_fd e \<noteq> -1
                 then seq (loop_remove (event_fd e))
                        (bind (sys (CloseFd (event_fd e))) (\<lambda>_. upd (\<lambda>e. e\<lparr>event_fd := -1\<rparr>))) e
                 else ret () e)
            (\<lambda>e. if epoll_fd e \<noteq> -1
                 then bind (sys (CloseFd (epoll_fd e))) (\<lambda>_. upd (\<lambda>e. e\<lparr>epoll_fd := -1\<rparr>)) e
                 else ret () e))"

section \<open>Running\<close>

text \<open>
  The state of a running loop: the objects and the loop. \<^verbatim>\<open>drain_tasks\<close> swaps the queue with
  an empty one and runs the old one; a task that throws ends it and drops the rest.
\<close>

definition drain_tasks ::
    "('t \<Rightarrow> ('o \<times> ('h, 't, 'x) event_loop_scheme, unit) eff) \<Rightarrow>
     ('o \<times> ('h, 't, 'x) event_loop_scheme, unit) eff" where
  "drain_tasks run_task = (\<lambda>(ob, e). for_each run_task (tasks e) (ob, e\<lparr>tasks := []\<rparr>))"

text \<open>One event of a batch: the handler is looked up when its turn comes.\<close>

definition dispatch_event ::
    "('h \<Rightarrow> u32 \<Rightarrow> ('o \<times> ('h, 't, 'x) event_loop_scheme, unit) eff) \<Rightarrow> fd \<times> u32 \<Rightarrow>
     ('o \<times> ('h, 't, 'x) event_loop_scheme, unit) eff" where
  "dispatch_event run_handler ev = (\<lambda>(ob, e).
     case handlers e (fst ev) of
       None \<Rightarrow> ret () (ob, e)
     | Some handler \<Rightarrow> run_handler handler (snd ev) (ob, e))"

text \<open>
  What happens while the loop sits in epoll_wait: other threads may post tasks and request the
  stop; then the call returns events (none, on the timeout) or fails. An exception of such a
  \<^verbatim>\<open>post\<close> or \<^verbatim>\<open>stop\<close> is thrown in the other thread.
\<close>

datatype 't external = ExtPost 't | ExtStop

datatype 't wait_answer = Wait "'t external list" "errno + (fd \<times> u32) list"

fun run_external :: "'t external \<Rightarrow> ('h, 't, 'x) event_loop_scheme \<Rightarrow> ('h, 't, 'x) event_loop_scheme" where
  "run_external (ExtPost t) e = snd (loop_post t e)"
| "run_external ExtStop e = snd (loop_stop e)"

text \<open>
  The loop of \<^verbatim>\<open>EventLoop::run\<close> over the answers of epoll_wait; \<open>None\<close>: the loop is still
  running, in its next call of epoll_wait, when the answers end.
\<close>

fun run_iterations ::
    "('t \<Rightarrow> ('o \<times> ('h, 't, 'x) event_loop_scheme, unit) eff) \<Rightarrow>
     ('h \<Rightarrow> u32 \<Rightarrow> ('o \<times> ('h, 't, 'x) event_loop_scheme, unit) eff) \<Rightarrow>
     't wait_answer list \<Rightarrow> 'o \<times> ('h, 't, 'x) event_loop_scheme \<Rightarrow>
     ((exn + unit) \<times> 'o \<times> ('h, 't, 'x) event_loop_scheme) option" where
  "run_iterations run_task run_handler [] (ob, e) =
     (if stopped e then Some (drain_tasks run_task (ob, e))
      else case drain_tasks run_task (ob, e) of
             (Inl ex, s) \<Rightarrow> Some (Inl ex, s)
           | (Inr _, s) \<Rightarrow> None)"
| "run_iterations run_task run_handler (Wait ext answer # ws) (ob, e) =
     (if stopped e then Some (drain_tasks run_task (ob, e))
      else case drain_tasks run_task (ob, e) of
             (Inl ex, s) \<Rightarrow> Some (Inl ex, s)
           | (Inr _, (ob, e)) \<Rightarrow>
               (let e = fold run_external ext e
                in case answer of
                     Inl err \<Rightarrow>
                       (let e = e\<lparr>cerrno := err\<rparr>
                        in if err = EINTR then run_iterations run_task run_handler ws (ob, e)
                           else Some (on_snd (throw_system_error ''epoll_wait'') (ob, e)))
                   | Inr events \<Rightarrow>
                       (case for_each (dispatch_event run_handler) events (ob, e) of
                          (Inl ex, s) \<Rightarrow> Some (Inl ex, s)
                        | (Inr _, s) \<Rightarrow> run_iterations run_task run_handler ws s)))"

definition loop_run ::
    "('t \<Rightarrow> ('o \<times> ('h, 't, 'x) event_loop_scheme, unit) eff) \<Rightarrow>
     ('h \<Rightarrow> u32 \<Rightarrow> ('o \<times> ('h, 't, 'x) event_loop_scheme, unit) eff) \<Rightarrow>
     't wait_answer list \<Rightarrow> 'o \<times> ('h, 't, 'x) event_loop_scheme \<Rightarrow>
     ((exn + unit) \<times> 'o \<times> ('h, 't, 'x) event_loop_scheme) option" where
  "loop_run run_task run_handler ws = (\<lambda>(ob, e).
     run_iterations run_task run_handler ws (ob, e\<lparr>stopped := False\<rparr>))"

section \<open>What the calls leave alone\<close>

named_theorems loop_frame "the fields a call of the loop leaves alone, and those it sets"

lemma sys_frame [loop_frame]:
  assumes "sys c e = (r, e')"
  shows "handlers e' = handlers e" "tasks e' = tasks e" "stopped e' = stopped e"
    "event_fd e' = event_fd e" "epoll_fd e' = epoll_fd e" "event_counter e' = event_counter e"
    "syscalls e' = syscalls e @ [c]" "event_loop.more e' = event_loop.more e"
    "set (answers e') \<subseteq> set (answers e)"
  using assms by (auto simp: sys_def split: list.splits)

lemma sys_returns: "\<exists>rc e'. sys c e = (Inr rc, e')"
  by (simp add: sys_def split: list.splits)

lemma sys_cases:
  obtains rc e' where "sys c e = (Inr rc, e')" "rc = 0 \<or> (rc \<in> set (answers e) \<and> cerrno e' = rc)"
  by (cases "answers e") (auto simp: sys_def)

lemma wakeup_frame [loop_frame]:
  assumes "wakeup e = (r, e')"
  shows "handlers e' = handlers e" "tasks e' = tasks e" "stopped e' = stopped e"
    "event_fd e' = event_fd e" "epoll_fd e' = epoll_fd e"
    "syscalls e' = syscalls e @ [EventfdWrite (event_fd e)]" "event_loop.more e' = event_loop.more e"
    "set (answers e') \<subseteq> set (answers e)" "event_counter e \<le> event_counter e'"
  using assms
  by (auto simp: wakeup_def sys_def bind_run seq_run count_wakeup_def throw_system_error_def
      split: list.splits if_splits)

lemma loop_post_frame [loop_frame]:
  assumes "loop_post t e = (r, e')"
  shows "handlers e' = handlers e" "tasks e' = tasks e @ [t]" "stopped e' = stopped e"
    "event_fd e' = event_fd e" "epoll_fd e' = epoll_fd e"
    "syscalls e' = syscalls e @ [EventfdWrite (event_fd e)]" "event_loop.more e' = event_loop.more e"
    "set (answers e') \<subseteq> set (answers e)" "event_counter e \<le> event_counter e'"
proof -
  have w: "wakeup (e\<lparr>tasks := tasks e @ [t]\<rparr>) = (r, e')"
    using assms by (simp add: loop_post_def seq_run)
  from wakeup_frame [OF w] show "handlers e' = handlers e" "tasks e' = tasks e @ [t]"
    "stopped e' = stopped e" "event_fd e' = event_fd e" "epoll_fd e' = epoll_fd e"
    "syscalls e' = syscalls e @ [EventfdWrite (event_fd e)]" "event_loop.more e' = event_loop.more e"
    "set (answers e') \<subseteq> set (answers e)" "event_counter e \<le> event_counter e'"
    by simp_all
qed

lemma loop_modify_frame [loop_frame]:
  assumes "loop_modify fd ev e = (r, e')"
  shows "handlers e' = handlers e" "tasks e' = tasks e" "stopped e' = stopped e"
    "event_fd e' = event_fd e" "epoll_fd e' = epoll_fd e" "event_counter e' = event_counter e"
    "syscalls e' = syscalls e @ [EpollMod fd ev]" "event_loop.more e' = event_loop.more e"
    "set (answers e') \<subseteq> set (answers e)"
  using assms
  by (auto simp: loop_modify_def sys_def bind_run throw_system_error_def split: list.splits if_splits)

lemma loop_remove_frame [loop_frame]:
  assumes "loop_remove fd e = (r, e')"
  shows "handlers e' = (handlers e)(fd := None)" "tasks e' = tasks e" "stopped e' = stopped e"
    "event_fd e' = event_fd e" "epoll_fd e' = epoll_fd e" "event_counter e' = event_counter e"
    "syscalls e' = syscalls e @ [EpollDel fd]" "event_loop.more e' = event_loop.more e"
    "set (answers e') \<subseteq> set (answers e)" "r = Inr ()"
  using assms by (auto simp: loop_remove_def sys_def bind_run split: list.splits)

lemma loop_stop_frame [loop_frame]:
  assumes "loop_stop e = (r, e')"
  shows "handlers e' = handlers e" "tasks e' = tasks e" "stopped e'"
    "event_fd e' = event_fd e" "epoll_fd e' = epoll_fd e" "event_loop.more e' = event_loop.more e"
    "set (answers e') \<subseteq> set (answers e)" "event_counter e \<le> event_counter e'"
proof -
  have "e' = e\<lparr>stopped := True\<rparr> \<or> wakeup (e\<lparr>stopped := True\<rparr>) = (r, e')"
    using assms by (auto simp: loop_stop_def seq_run split: if_splits)
  then have "handlers e' = handlers e \<and> tasks e' = tasks e \<and> stopped e' \<and>
    event_fd e' = event_fd e \<and> epoll_fd e' = epoll_fd e \<and> event_loop.more e' = event_loop.more e \<and>
    set (answers e') \<subseteq> set (answers e) \<and> event_counter e \<le> event_counter e'"
  proof
    assume w: "wakeup (e\<lparr>stopped := True\<rparr>) = (r, e')"
    from wakeup_frame [OF w] show ?thesis by simp
  qed simp
  then show "handlers e' = handlers e" "tasks e' = tasks e" "stopped e'"
    "event_fd e' = event_fd e" "epoll_fd e' = epoll_fd e" "event_loop.more e' = event_loop.more e"
    "set (answers e') \<subseteq> set (answers e)" "event_counter e \<le> event_counter e'"
    by simp_all
qed

lemma set_non_blocking_frame [loop_frame]:
  assumes "set_non_blocking fd e = (r, e')"
  shows "handlers e' = handlers e" "tasks e' = tasks e" "stopped e' = stopped e"
    "event_fd e' = event_fd e" "epoll_fd e' = epoll_fd e" "event_counter e' = event_counter e"
    "event_loop.more e' = event_loop.more e" "set (answers e') \<subseteq> set (answers e)"
  using assms
  by (auto simp: set_non_blocking_def sys_def bind_run throw_system_error_def
      split: list.splits if_splits)

lemma loop_add_frame [loop_frame]:
  assumes "loop_add fd ev h e = (r, e')"
  shows "handlers e' = (handlers e)(fd := (case r of Inl _ \<Rightarrow> None | Inr _ \<Rightarrow> Some h))"
    "tasks e' = tasks e" "stopped e' = stopped e"
    "event_fd e' = event_fd e" "epoll_fd e' = epoll_fd e" "event_counter e' = event_counter e"
    "syscalls e' = syscalls e @ [EpollAdd fd ev]" "event_loop.more e' = event_loop.more e"
    "set (answers e') \<subseteq> set (answers e)"
  using assms
  by (auto simp: loop_add_def sys_def bind_run seq_run throw_system_error_def
      split: list.splits if_splits)

lemma drain_wakeup_idle:
  "event_counter e = 0 \<Longrightarrow>
   drain_wakeup e = (Inr (), e\<lparr>syscalls := syscalls e @ [EventfdRead (event_fd e)], cerrno := EAGAIN\<rparr>)"
  by (subst drain_wakeup.simps) (simp add: Let_def)

lemma drain_wakeup_ready:
  "0 < event_counter e \<Longrightarrow>
   drain_wakeup e = (Inr (), e\<lparr>event_counter := 0,
     syscalls := syscalls e @ [EventfdRead (event_fd e), EventfdRead (event_fd e)], cerrno := EAGAIN\<rparr>)"
  by (subst drain_wakeup.simps) (simp add: Let_def drain_wakeup_idle)

lemma drain_wakeup_frame [loop_frame]:
  assumes "drain_wakeup e = (r, e')"
  shows "r = Inr ()" "handlers e' = handlers e" "tasks e' = tasks e" "stopped e' = stopped e"
    "event_loop.more e' = event_loop.more e" "answers e' = answers e" "event_counter e' = 0"
  using assms by (cases "event_counter e = 0"; auto simp: drain_wakeup_idle drain_wakeup_ready)+

section \<open>No wakeup is lost\<close>

text \<open>
  What must hold when the loop enters epoll_wait: if a task is queued then the eventfd is
  readable. The code ignores \<^verbatim>\<open>EBADF\<close> from the write of \<^verbatim>\<open>wakeup\<close>, so the eventfd has to
  be open: no answer is \<^verbatim>\<open>EBADF\<close>; any other failure throws.
\<close>

definition wake_inv :: "('h, 't, 'x) event_loop_scheme \<Rightarrow> bool" where
  "wake_inv e \<longleftrightarrow> EBADF \<notin> set (answers e) \<and> (tasks e \<noteq> [] \<longrightarrow> 0 < event_counter e)"

text \<open>An effect on the loop is harmless if a normal return from a good state is one to a good state.\<close>

definition wakes :: "('o \<times> ('h, 't, 'x) event_loop_scheme, 'a) eff \<Rightarrow> bool" where
  "wakes m \<longleftrightarrow> (\<forall>ob e x ob' e'. wake_inv e \<longrightarrow> m (ob, e) = (Inr x, (ob', e')) \<longrightarrow> wake_inv e')"

definition wakes_loop :: "(('h, 't, 'x) event_loop_scheme, 'a) eff \<Rightarrow> bool" where
  "wakes_loop m \<longleftrightarrow> (\<forall>e x e'. wake_inv e \<longrightarrow> m e = (Inr x, e') \<longrightarrow> wake_inv e')"

lemma wakesD: "wakes m \<Longrightarrow> wake_inv e \<Longrightarrow> m (ob, e) = (Inr x, (ob', e')) \<Longrightarrow> wake_inv e'"
  by (auto simp: wakes_def)

lemma wakesI:
  "(\<And>ob e x ob' e'. wake_inv e \<Longrightarrow> m (ob, e) = (Inr x, (ob', e')) \<Longrightarrow> wake_inv e') \<Longrightarrow> wakes m"
  by (auto simp: wakes_def)

lemma wakes_ret: "wakes (ret x)"
  by (rule wakesI) simp

lemma wakes_bind:
  assumes "wakes m" and "\<And>x. wakes (f x)"
  shows "wakes (bind m f)"
proof (rule wakesI)
  fix ob e x ob' e'
  assume inv: "wake_inv e" and run: "bind m f (ob, e) = (Inr x, (ob', e'))"
  obtain y ob1 e1 where m: "m (ob, e) = (Inr y, (ob1, e1))" and f: "f y (ob1, e1) = (Inr x, (ob', e'))"
    using run by (auto simp: bind_run split: prod.splits sum.splits)
  from wakesD [OF assms(1) inv m] f show "wake_inv e'" by (rule wakesD [OF assms(2)])
qed

lemma wakes_seq: "wakes m \<Longrightarrow> wakes k \<Longrightarrow> wakes (seq m k)"
  unfolding seq_def by (rule wakes_bind)

lemma wakes_for_each: "(\<And>x. wakes (f x)) \<Longrightarrow> wakes (for_each f xs)"
  by (induction xs) (simp_all add: wakes_ret wakes_seq)

lemma wakes_loop_post: "wakes_loop (loop_post t)"
proof -
  have "wake_inv e'" if inv: "wake_inv e" and run: "loop_post t e = (Inr x, e')" for e x e'
  proof -
    have w: "wakeup (e\<lparr>tasks := tasks e @ [t]\<rparr>) = (Inr x, e')"
      using run by (simp add: loop_post_def seq_run)
    have "EBADF \<notin> set (answers e')" using inv loop_post_frame(8) [OF run] by (auto simp: wake_inv_def)
    moreover have "0 < event_counter e'"
      using w inv
      by (auto simp: wakeup_def sys_def bind_run seq_run count_wakeup_def throw_system_error_def
          wake_inv_def split: list.splits if_splits)
    ultimately show ?thesis by (simp add: wake_inv_def)
  qed
  then show ?thesis by (auto simp: wakes_loop_def)
qed

locale loop_tasks =
  fixes run_task :: "'t \<Rightarrow> ('o \<times> ('h, 't, 'x) event_loop_scheme, unit) eff"
  assumes wakes_task: "wakes (run_task t)"
begin

lemma drain_tasks_wakes:
  assumes "EBADF \<notin> set (answers e)" and "drain_tasks run_task (ob, e) = (Inr (), (ob', e'))"
  shows "wake_inv e'"
proof -
  have "wake_inv (e\<lparr>tasks := []\<rparr>)" using assms(1) by (simp add: wake_inv_def)
  moreover have "wakes (for_each run_task (tasks e))" by (rule wakes_for_each) (rule wakes_task)
  ultimately show ?thesis using assms(2) by (auto simp: drain_tasks_def dest: wakesD)
qed

end

section \<open>Invariants of a run\<close>

text \<open>
  What holds of the objects and the loop after every task, event and call from another thread holds
  when \<^verbatim>\<open>run\<close> returns. \<open>ok\<close> is what the program guarantees of the tasks it posts.
\<close>

fun external_ok :: "('t \<Rightarrow> bool) \<Rightarrow> 't external \<Rightarrow> bool" where
  "external_ok ok (ExtPost t) = ok t"
| "external_ok ok ExtStop = True"

fun wait_ok :: "('t \<Rightarrow> bool) \<Rightarrow> 't wait_answer \<Rightarrow> bool" where
  "wait_ok ok (Wait ext answer) = list_all (external_ok ok) ext"

locale loop_invariant =
  fixes run_task :: "'t \<Rightarrow> ('o \<times> ('h, 't, 'x) event_loop_scheme, unit) eff"
    and run_handler :: "'h \<Rightarrow> u32 \<Rightarrow> ('o \<times> ('h, 't, 'x) event_loop_scheme, unit) eff"
    and I :: "'o \<Rightarrow> ('h, 't, 'x) event_loop_scheme \<Rightarrow> bool"
    and ok :: "'t \<Rightarrow> bool"
  assumes inv_task: "I ob e \<Longrightarrow> ok t \<Longrightarrow> run_task t (ob, e) = (Inr (), (ob', e')) \<Longrightarrow> I ob' e'"
    and inv_handler: "I ob e \<Longrightarrow> run_handler h ev (ob, e) = (Inr (), (ob', e')) \<Longrightarrow> I ob' e'"
    and inv_queue: "I ob e \<Longrightarrow> list_all ok (tasks e)"
    and inv_loop: "I ob e \<Longrightarrow> handlers e' = handlers e \<Longrightarrow> list_all ok (tasks e') \<Longrightarrow>
      event_loop.more e' = event_loop.more e \<Longrightarrow> I ob e'"
begin

lemma drain_tasks_inv:
  assumes "I ob e" and "drain_tasks run_task (ob, e) = (Inr (), (ob', e'))"
  shows "I ob' e'"
proof -
  have "I ob' e'" if "list_all ok ts" "I ob1 e1" "for_each run_task ts (ob1, e1) = (Inr (), (ob', e'))" for ts ob1 e1
    using that
  proof (induction ts arbitrary: ob1 e1)
    case (Cons t ts)
    obtain ob2 e2 where "run_task t (ob1, e1) = (Inr (), (ob2, e2))" "for_each run_task ts (ob2, e2) = (Inr (), (ob', e'))"
      using Cons.prems(3) by (auto simp: seq_run split: prod.splits sum.splits)
    with Cons show ?case by (auto dest: inv_task)
  qed simp
  moreover have "I ob (e\<lparr>tasks := []\<rparr>)" by (rule inv_loop [OF assms(1)]) simp_all
  ultimately show ?thesis using assms(2) inv_queue [OF assms(1)] by (simp add: drain_tasks_def)
qed

lemma dispatch_inv:
  "I ob e \<Longrightarrow> for_each (dispatch_event run_handler) evs (ob, e) = (Inr (), (ob', e')) \<Longrightarrow> I ob' e'"
proof (induction evs arbitrary: ob e)
  case (Cons ev evs)
  obtain ob1 e1 where d: "dispatch_event run_handler ev (ob, e) = (Inr (), (ob1, e1))"
    and rest: "for_each (dispatch_event run_handler) evs (ob1, e1) = (Inr (), (ob', e'))"
    using Cons.prems(2) by (auto simp: seq_run split: prod.splits sum.splits)
  have "I ob1 e1" using d Cons.prems(1) by (auto simp: dispatch_event_def dest: inv_handler split: option.splits)
  then show ?case using rest by (rule Cons.IH)
qed simp

lemma external_inv: "I ob e \<Longrightarrow> list_all (external_ok ok) ext \<Longrightarrow> I ob (fold run_external ext e)"
proof (induction ext arbitrary: e)
  case (Cons x ext)
  have "I ob (run_external x e)"
  proof (cases x)
    case (ExtPost t)
    obtain r e' where p: "loop_post t e = (r, e')" by (cases "loop_post t e")
    have "I ob e'"
      by (rule inv_loop [OF Cons.prems(1)])
         (use loop_post_frame [OF p] Cons.prems inv_queue ExtPost in simp_all)
    then show ?thesis using ExtPost p by simp
  next
    case ExtStop
    obtain r e' where p: "loop_stop e = (r, e')" by (cases "loop_stop e")
    have "I ob e'"
      by (rule inv_loop [OF Cons.prems(1)])
         (use loop_stop_frame [OF p] Cons.prems inv_queue in simp_all)
    then show ?thesis using ExtStop p by simp
  qed
  with Cons show ?case by simp
qed simp

lemma run_iterations_inv:
  assumes "run_iterations run_task run_handler ws (ob, e) = Some (Inr (), (ob', e'))"
    and "I ob e" and "list_all (wait_ok ok) ws"
  shows "I ob' e'"
  using assms
proof (induction ws arbitrary: ob e)
  case Nil
  then show ?case by (auto dest: drain_tasks_inv split: if_splits prod.splits sum.splits)
next
  case (Cons w ws)
  obtain ext answer where w: "w = Wait ext answer" by (cases w)
  show ?case
  proof (cases "stopped e")
    case True
    then show ?thesis using Cons.prems w by (auto dest: drain_tasks_inv)
  next
    case False
    obtain ob1 e1 where d: "drain_tasks run_task (ob, e) = (Inr (), (ob1, e1))"
      using Cons.prems(1) False w by (auto split: prod.splits sum.splits)
    let ?e = "fold run_external ext e1"
    have I1: "I ob1 ?e" using drain_tasks_inv [OF Cons.prems(2) d] Cons.prems(3) w by (simp add: external_inv)
    show ?thesis
    proof (cases answer)
      case (Inl err)
      have "I ob1 (?e\<lparr>cerrno := err\<rparr>)" by (rule inv_loop [OF I1]) (use inv_queue [OF I1] in simp_all)
      then show ?thesis
        using Cons.IH [of ob1 "?e\<lparr>cerrno := err\<rparr>"] Cons.prems(1,3) False d w Inl
        by (auto simp: Let_def on_snd_run throw_system_error_def split: if_splits)
    next
      case (Inr evs)
      obtain ob2 e2 where f: "for_each (dispatch_event run_handler) evs (ob1, ?e) = (Inr (), (ob2, e2))"
        and run: "run_iterations run_task run_handler ws (ob2, e2) = Some (Inr (), (ob', e'))"
        using Cons.prems(1) False d w Inr by (auto simp: Let_def split: prod.splits sum.splits)
      show ?thesis using Cons.IH [OF run dispatch_inv [OF I1 f]] Cons.prems(3) by simp
    qed
  qed
qed

end

section \<open>Stopping\<close>

lemma run_external_stopped: "stopped e \<Longrightarrow> stopped (run_external x e)"
  by (cases x) (auto simp: loop_frame [OF prod.collapse [symmetric]])

lemma fold_external_stopped: "stopped e \<or> ExtStop \<in> set ext \<Longrightarrow> stopped (fold run_external ext e)"
proof (induction ext arbitrary: e)
  case (Cons x ext)
  have "stopped (run_external x e)" if "stopped e \<or> x = ExtStop"
    using that run_external_stopped [of e x]
    by (auto simp: loop_frame [OF prod.collapse [symmetric]])
  with Cons show ?case by auto
qed simp

lemma dispatch_keeps_stopped:
  fixes run_handler :: "'h \<Rightarrow> u32 \<Rightarrow> ('o \<times> ('h, 't, 'x) event_loop_scheme, unit) eff"
  assumes "\<And>h ev. keeps (\<lambda>(ob, e). stopped e) (run_handler h ev)"
  shows "keeps (\<lambda>(ob, e). stopped e) (for_each (dispatch_event run_handler) events)"
proof (rule keeps_for_each, rule keepsI)
  fix x and s :: "'o \<times> ('h, 't, 'x) event_loop_scheme"
  assume "case s of (ob, e) \<Rightarrow> stopped e"
  then show "case snd (dispatch_event run_handler x s) of (ob, e) \<Rightarrow> stopped e"
    using keepsD [OF assms [of "the (handlers (snd s) (fst x))" "snd x"], of s]
    by (cases s; cases "handlers (snd s) (fst x)") (simp_all add: dispatch_event_def)
qed

text \<open>
  A stop requested while the loop waits ends it: after the events of that batch, the tasks
  that are queued by then are run (among them the closes posted before the stop) and \<^verbatim>\<open>run\<close>
  returns, whatever epoll_wait would answer later. Handlers only have to leave the flag alone.
\<close>

lemma stop_ends_run:
  assumes "\<forall>h ev. keeps (\<lambda>(ob, e). stopped e) (run_handler h ev)"
    and "\<not> stopped e" and "ExtStop \<in> set ext"
    and "drain_tasks run_task (ob, e) = (Inr (), (ob1, e1))"
    and "for_each (dispatch_event run_handler) events (ob1, fold run_external ext e1) = (Inr (), (ob2, e2))"
  shows "run_iterations run_task run_handler (Wait ext (Inr events) # ws) (ob, e)
      = Some (drain_tasks run_task (ob2, e2))"
proof -
  have "stopped (fold run_external ext e1)" using assms(3) by (simp add: fold_external_stopped)
  then have "stopped e2"
    using keeps_run [OF dispatch_keeps_stopped [of run_handler] assms(5)] assms(1) by simp
  then have "run_iterations run_task run_handler ws (ob2, e2) = Some (drain_tasks run_task (ob2, e2))"
    by (cases ws rule: list.exhaust; cases "hd ws") auto
  then show ?thesis using assms(2,4,5) by (simp add: Let_def)
qed

definition idle_loop :: "(unit, nat) event_loop" where
  "idle_loop = \<lparr>epoll_fd = 3, event_fd = 4, stopped = False, handlers = [4 \<mapsto> ()], tasks = [],
     cerrno = 0, event_counter = 0, answers = [], syscalls = []\<rparr>"

text \<open>
  C39. A stop requested before \<^verbatim>\<open>run\<close> is called is lost, because \<^verbatim>\<open>run\<close> clears the flag first:
  with nothing queued and handlers that neither stop nor post, the loop never returns, whatever
  events epoll_wait reports.
\<close>

theorem stop_before_run_is_lost:
  assumes "\<forall>h ev ob e. \<not> stopped e \<longrightarrow> tasks e = [] \<longrightarrow>
      (\<exists>ob' e'. run_handler h ev (ob, e) = (Inr (), (ob', e')) \<and> \<not> stopped e' \<and> tasks e' = [])"
    and "tasks e = []" and "\<forall>w \<in> set ws. \<exists>events. w = Wait [] (Inr events)"
  shows "loop_run run_task run_handler ws (ob, snd (loop_stop e)) = None"
proof -
  have batch: "\<exists>ob' e'. for_each (dispatch_event run_handler) events (ob, e) = (Inr (), (ob', e'))
      \<and> \<not> stopped e' \<and> tasks e' = []" if "\<not> stopped e" "tasks e = []" for events ob e
    using that
  proof (induction events arbitrary: ob e)
    case (Cons x xs)
    obtain ob' e' where "dispatch_event run_handler x (ob, e) = (Inr (), (ob', e'))"
      "\<not> stopped e'" "tasks e' = []"
      using assms(1) Cons.prems by (fastforce simp: dispatch_event_def split: option.splits)
    with Cons.IH show ?case by simp
  qed simp
  have "run_iterations run_task run_handler ws (ob, e) = None" if "\<not> stopped e" "tasks e = []" for ob e
    using assms(3) that
  proof (induction ws arbitrary: ob e)
    case Nil
    then show ?case by (simp add: drain_tasks_def)
  next
    case (Cons w ws)
    then obtain events where w: "w = Wait [] (Inr events)" by auto
    have e: "e\<lparr>tasks := []\<rparr> = e" using Cons.prems(3) by simp
    have drained: "drain_tasks run_task (ob, e) = (Inr (), (ob, e))"
      by (simp only: drain_tasks_def Cons.prems(3) prod.case for_each.simps e ret_run)
    obtain ob' e' where "for_each (dispatch_event run_handler) events (ob, e) = (Inr (), (ob', e'))"
      "\<not> stopped e'" "tasks e' = []"
      using batch [OF Cons.prems(2,3)] by blast
    with Cons w drained show ?case by (simp add: Let_def)
  qed
  moreover have "tasks (snd (loop_stop e)) = []"
    using assms(2) by (simp add: loop_stop_frame(2) [OF prod.collapse [symmetric]])
  ultimately show ?thesis by (simp add: loop_run_def)
qed

theorem stop_before_run_is_lost_witness:
  "loop_run (\<lambda>t. upd (\<lambda>(ts, e). (ts @ [t], e))) (\<lambda>_ _. on_snd drain_wakeup)
     [Wait [] (Inr [(4, EPOLLIN)]), Wait [] (Inr [])] ([] :: nat list, snd (loop_stop idle_loop)) = None"
proof (rule stop_before_run_is_lost)
  have "\<exists>e'. drain_wakeup e = (Inr (), e') \<and> \<not> stopped e' \<and> tasks e' = []"
    if "\<not> stopped e" "tasks e = []" for e :: "(unit, nat) event_loop"
    using that by (induction e rule: drain_wakeup.induct) (subst drain_wakeup.simps, simp add: Let_def)
  then show "\<forall>h ev ob e. \<not> stopped e \<longrightarrow> tasks e = [] \<longrightarrow>
      (\<exists>ob' e'. on_snd drain_wakeup (ob :: nat list, e :: (unit, nat) event_loop) = (Inr (), (ob', e'))
         \<and> \<not> stopped e' \<and> tasks e' = [])"
    by (fastforce simp: on_snd_run)
qed (simp_all add: idle_loop_def)

section \<open>Registration\<close>

text \<open>
  A registration that epoll refuses throws the kernel's error and leaves no handler for the
  descriptor; every other handler, the queue and the flag stay as they were.
\<close>

lemma loop_add_failure:
  assumes "answers e = err # as" and "err \<noteq> 0"
  shows "\<exists>e'. loop_add fd ev h e = (Inl (SystemError err ''epoll_ctl(ADD)''), e') \<and>
      handlers e' = (handlers e)(fd := None) \<and> tasks e' = tasks e \<and> stopped e' = stopped e"
  using assms by (simp add: loop_add_def sys_def bind_run seq_run throw_system_error_def)

end
