(* ===== verification/Session.thy ===== *)
theory Session
  imports Framing Event_Loop
begin

text \<open>
  \<^verbatim>\<open>include/minirpc/session.hpp\<close> and \<^verbatim>\<open>src/session.cpp\<close>: one connection. The operations
  transform a pair of the session object and the environment \<open>'x env\<close>, the event loop with what
  the program keeps beside it. Callbacks are the closures the program installs, as data
  (\<open>message_handler\<close>, \<open>close_handler\<close>, \<open>write_handler\<close>), and \<open>hooks\<close> says what calling one does
  to the environment: a handler reaches the session only through its shared pointer, whose methods
  post to the loop. \<open>trace\<close> logs each call of a handler.

  The kernel's side of the socket is part of the session record: \<open>rx\<close> and \<open>tx\<close> are the outcomes
  of the coming calls of recv and send (none left: the call would block) and \<open>wire\<close> is what send
  has accepted so far. A send of \<open>k\<close> takes at most the bytes it was given.
\<close>

section \<open>Closures, tasks and the session\<close>

type_synonym ptr = nat

datatype message_handler = DispatchMessage | UserMessage nat
datatype close_handler = EraseSession | ResetClient
datatype write_handler = ErasePending u64 | UserWrite nat

datatype ev_handler = DrainWakeup | SessionEvents ptr | AcceptEvents

datatype task = SendTask ptr bytes "write_handler option" | CloseTask ptr

datatype callback =
    MessageCalled ptr rpc_message
  | CloseCalled ptr
  | WriteCalled write_handler errno

record env = "(ev_handler, task) event_loop" +
  trace :: "callback list"

datatype recv_answer = RecvBytes bytes | RecvError errno
datatype send_answer = SendBytes nat | SendError errno

record outgoing_frame =
  frame_bytes :: bytes
  written :: nat
  write_cb :: "write_handler option"

record session =
  socket_fd :: fd
  session_id :: u64
  is_open :: bool
  registered :: bool
  read_buffer :: bytes
  write_queue :: "outgoing_frame list"
  msg_handler :: "message_handler option"
  close_cb :: "close_handler option"
  rx :: "recv_answer list"
  tx :: "send_answer list"
  wire :: bytes

record 'x hooks =
  on_message :: "message_handler \<Rightarrow> ptr \<Rightarrow> session \<Rightarrow> rpc_message \<Rightarrow> ('x env_scheme, unit) eff"
  on_close :: "close_handler \<Rightarrow> ptr \<Rightarrow> session \<Rightarrow> ('x env_scheme, unit) eff"
  on_write :: "write_handler \<Rightarrow> errno \<Rightarrow> ('x env_scheme, unit) eff"

type_synonym 'x sess_eff = "(session \<times> 'x env_scheme, unit) eff"

section \<open>Calling handlers\<close>

definition log_call :: "callback \<Rightarrow> ('x env_scheme, unit) eff" where
  "log_call c = upd (\<lambda>e. e\<lparr>trace := trace e @ [c]\<rparr>)"

text \<open>\<^verbatim>\<open>if (handler) handler(error);\<close> for a write handler.\<close>

definition call_write ::
    "(write_handler \<Rightarrow> errno \<Rightarrow> ('x env_scheme, unit) eff) \<Rightarrow> write_handler option \<Rightarrow> errno \<Rightarrow>
     ('x env_scheme, unit) eff" where
  "call_write ow handler err =
     (case handler of
        None \<Rightarrow> ret ()
      | Some h \<Rightarrow> seq (log_call (WriteCalled h err)) (ow h err))"

definition call_message :: "'x hooks \<Rightarrow> ptr \<Rightarrow> session \<Rightarrow> rpc_message \<Rightarrow> ('x env_scheme, unit) eff" where
  "call_message H p s m =
     (case msg_handler s of
        None \<Rightarrow> ret ()
      | Some h \<Rightarrow> seq (log_call (MessageCalled p m)) (on_message H h p s m))"

definition call_close :: "'x hooks \<Rightarrow> ptr \<Rightarrow> session \<Rightarrow> ('x env_scheme, unit) eff" where
  "call_close H p s =
     (case close_cb s of
        None \<Rightarrow> ret ()
      | Some h \<Rightarrow> seq (log_call (CloseCalled p)) (on_close H h p s))"

section \<open>The public interface\<close>

definition new_session :: "fd \<Rightarrow> u64 \<Rightarrow> session" where
  "new_session fd sid =
     \<lparr>socket_fd = fd, session_id = sid, is_open = True, registered = False, read_buffer = [],
      write_queue = [], msg_handler = None, close_cb = None, rx = [], tx = [], wire = []\<rparr>"

definition session_destroy :: "'x sess_eff" where
  "session_destroy = (\<lambda>(s, e).
     if socket_fd s \<noteq> -1
     then bind (on_snd (sys (CloseFd (socket_fd s)))) (\<lambda>_. ret ()) (s\<lparr>socket_fd := -1\<rparr>, e)
     else ret () (s, e))"

definition session_start :: "ptr \<Rightarrow> 'x sess_eff" where
  "session_start p = (\<lambda>(s, e).
     seq (on_snd (set_non_blocking (socket_fd s)))
       (seq (on_snd (loop_add (socket_fd s) (EPOLLIN OR EPOLLRDHUP) (SessionEvents p)))
            (upd (\<lambda>(s, e). (s\<lparr>registered := True\<rparr>, e)))) (s, e))"

definition session_send ::
    "(write_handler \<Rightarrow> errno \<Rightarrow> ('x env_scheme, unit) eff) \<Rightarrow> ptr \<Rightarrow> rpc_message \<Rightarrow>
     write_handler option \<Rightarrow> ('x env_scheme, unit) eff" where
  "session_send ow p m handler =
     (let body = encode m
      in if length body > unat kMaxFrameSize then call_write ow handler EMSGSIZE
         else loop_post (SendTask p (make_frame body) handler))"

definition session_close :: "ptr \<Rightarrow> ('x env_scheme, unit) eff" where
  "session_close p = loop_post (CloseTask p)"

definition set_message_handler :: "message_handler option \<Rightarrow> session \<Rightarrow> session" where
  "set_message_handler h s = s\<lparr>msg_handler := h\<rparr>"

definition set_close_handler :: "close_handler option \<Rightarrow> session \<Rightarrow> session" where
  "set_close_handler h s = s\<lparr>close_cb := h\<rparr>"

section \<open>Closing\<close>

text \<open>
  The loops that empty the write queue, each frame's handler called with the error.
\<close>

function flush_queue :: "'x hooks \<Rightarrow> errno \<Rightarrow> 'x sess_eff" where
  "flush_queue H err (s, e) =
     (case write_queue s of
        [] \<Rightarrow> (Inr (), (s, e))
      | f # q \<Rightarrow>
          (let s = s\<lparr>write_queue := q\<rparr>
           in case call_write (on_write H) (write_cb f) err e of
                (Inl ex, e) \<Rightarrow> (Inl ex, (s, e))
              | (Inr _, e) \<Rightarrow> flush_queue H err (s, e)))"
  by pat_completeness auto
termination
  by (relation "measure (\<lambda>(H, err, s, e). length (write_queue s))") auto

declare flush_queue.simps [simp del]

definition unregister :: "fd \<Rightarrow> 'x sess_eff" where
  "unregister saved_fd = (\<lambda>(s, e).
     if registered s
     then seq (on_snd (loop_remove saved_fd)) (upd (\<lambda>(s, e). (s\<lparr>registered := False\<rparr>, e))) (s, e)
     else ret () (s, e))"

definition close_socket :: "fd \<Rightarrow> 'x sess_eff" where
  "close_socket saved_fd = (\<lambda>(s, e).
     if saved_fd \<noteq> -1 then bind (on_snd (sys (CloseFd saved_fd))) (\<lambda>_. ret ()) (s, e)
     else ret () (s, e))"

definition close_from_loop :: "'x hooks \<Rightarrow> ptr \<Rightarrow> 'x sess_eff" where
  "close_from_loop H p = (\<lambda>(s, e).
     if \<not> is_open s then ret () (s, e)
     else
       let saved_fd = socket_fd s
       in seq (unregister saved_fd)
            (seq (close_socket saved_fd)
              (seq (flush_queue H ENOTCONN)
                (\<lambda>(s, e). on_snd (call_close H p s) (s, e))))
            (s\<lparr>is_open := False, socket_fd := -1\<rparr>, e))"

definition fail_and_close :: "'x hooks \<Rightarrow> ptr \<Rightarrow> errno \<Rightarrow> 'x sess_eff" where
  "fail_and_close H p err = seq (flush_queue H err) (close_from_loop H p)"

section \<open>Reading\<close>

text \<open>The first loop of \<^verbatim>\<open>async_read\<close>: recv until it would block, ends or fails.\<close>

datatype recv_stop = Drained | Eof | Failed errno

fun recv_all :: "recv_answer list \<Rightarrow> bytes \<Rightarrow> bytes \<times> recv_stop \<times> recv_answer list" where
  "recv_all [] buffer = (buffer, Drained, [])"
| "recv_all (RecvBytes chunk # as) buffer =
     (if chunk \<noteq> [] then recv_all as (buffer @ chunk) else (buffer, Eof, as))"
| "recv_all (RecvError err # as) buffer =
     (if err = EAGAIN then (buffer, Drained, as)
      else if err = EINTR then recv_all as buffer
      else (buffer, Failed err, as))"

text \<open>The second loop: pop frames, decode them, hand them to the message handler.\<close>

function read_frames :: "'x hooks \<Rightarrow> ptr \<Rightarrow> 'x sess_eff" where
  "read_frames H p (s, e) =
     (if \<not> is_open s then (Inr (), (s, e))
      else case try_pop_frame (read_buffer s) [] of
             (NeedMore, buffer, _) \<Rightarrow> (Inr (), (s\<lparr>read_buffer := buffer\<rparr>, e))
           | (TooLarge, buffer, _) \<Rightarrow> fail_and_close H p EMSGSIZE (s\<lparr>read_buffer := buffer\<rparr>, e)
           | (Ok, buffer, body) \<Rightarrow>
               (let s' = s\<lparr>read_buffer := buffer\<rparr>
                in case decode body of
                     None \<Rightarrow> fail_and_close H p EPROTO (s', e)
                   | Some m \<Rightarrow>
                       (case call_message H p s' m e of
                          (Inl ex, e') \<Rightarrow> (Inl ex, (s', e'))
                        | (Inr _, e') \<Rightarrow> read_frames H p (s', e'))))"
  by pat_completeness auto
termination
  by (relation "measure (\<lambda>(H, p, s, e). length (read_buffer s))")
     (auto dest: try_pop_frame_shorter [OF sym])

declare read_frames.simps [simp del]

definition async_read :: "'x hooks \<Rightarrow> ptr \<Rightarrow> 'x sess_eff" where
  "async_read H p = (\<lambda>(s, e).
     if \<not> is_open s then ret () (s, e)
     else case recv_all (rx s) (read_buffer s) of (buffer, stop, rest) \<Rightarrow>
       (let s = s\<lparr>read_buffer := buffer, rx := rest\<rparr>
        in case stop of
             Eof \<Rightarrow> close_from_loop H p (s, e)
           | Failed err \<Rightarrow> fail_and_close H p err (s, e\<lparr>cerrno := err\<rparr>)
           | Drained \<Rightarrow> read_frames H p (s, e\<lparr>cerrno := EAGAIN\<rparr>)))"

section \<open>Writing\<close>

text \<open>The mask the session asks epoll for: writability only while something is queued.\<close>

definition wanted_events :: "session \<Rightarrow> u32" where
  "wanted_events s =
     (if write_queue s \<noteq> [] then EPOLLIN OR EPOLLRDHUP OR EPOLLOUT else EPOLLIN OR EPOLLRDHUP)"

definition update_events :: "'x sess_eff" where
  "update_events = (\<lambda>(s, e).
     if \<not> registered s \<or> \<not> is_open s then ret () (s, e)
     else on_snd (loop_modify (socket_fd s) (wanted_events s)) (s, e))"

text \<open>
  The loop of \<^verbatim>\<open>async_write\<close>. It returns \<open>True\<close> where the code leaves the loop and goes on to
  \<^verbatim>\<open>update_events\<close>, \<open>False\<close> where it returns after closing.
\<close>

function write_loop :: "'x hooks \<Rightarrow> ptr \<Rightarrow> (session \<times> 'x env_scheme, bool) eff" where
  "write_loop H p (s, e) =
     (if \<not> is_open s then (Inr True, (s, e))
      else case write_queue s of
        [] \<Rightarrow> (Inr True, (s, e))
      | f # q \<Rightarrow>
         (let remaining = length (frame_bytes f) - written f
          in case tx s of
               [] \<Rightarrow> (Inr True, (s, e\<lparr>cerrno := EAGAIN\<rparr>))
             | SendBytes k # as \<Rightarrow>
                 (let n = min k remaining
                  in if n > 0 then
                       (let s' = s\<lparr>tx := as, wire := wire s @ take n (drop (written f) (frame_bytes f))\<rparr>
                        in if written f + n = length (frame_bytes f) then
                             (let s'' = s'\<lparr>write_queue := q\<rparr>
                              in case call_write (on_write H) (write_cb f) 0 e of
                                   (Inl ex, e') \<Rightarrow> (Inl ex, (s'', e'))
                                 | (Inr _, e') \<Rightarrow> write_loop H p (s'', e'))
                           else write_loop H p (s'\<lparr>write_queue := f\<lparr>written := written f + n\<rparr> # q\<rparr>, e))
                     else seq (fail_and_close H p (cerrno e)) (ret False) (s\<lparr>tx := as\<rparr>, e))
             | SendError err # as \<Rightarrow>
                 (let s' = s\<lparr>tx := as\<rparr>; e' = e\<lparr>cerrno := err\<rparr>
                  in if err = EAGAIN then (Inr True, (s', e'))
                     else if err = EINTR then write_loop H p (s', e')
                     else seq (fail_and_close H p err) (ret False) (s', e'))))"
  by pat_completeness auto
termination
  by (relation "measure (\<lambda>(H, p, s, e). length (tx s))") auto

declare write_loop.simps [simp del]

definition async_write :: "'x hooks \<Rightarrow> ptr \<Rightarrow> 'x sess_eff" where
  "async_write H p =
     bind (write_loop H p) (\<lambda>left_loop.
       (\<lambda>(s, e). if left_loop \<and> is_open s then update_events (s, e) else ret () (s, e)))"

section \<open>Events and tasks\<close>

definition handle_events :: "'x hooks \<Rightarrow> ptr \<Rightarrow> u32 \<Rightarrow> 'x sess_eff" where
  "handle_events H p events = (\<lambda>(s, e).
     if \<not> is_open s then ret () (s, e)
     else if events AND (EPOLLERR OR EPOLLHUP) \<noteq> 0 then close_from_loop H p (s, e)
     else
       seq (if events AND EPOLLIN \<noteq> 0 then async_read H p else ret ())
         (seq (\<lambda>(s, e). if is_open s \<and> events AND EPOLLOUT \<noteq> 0 then async_write H p (s, e)
                        else ret () (s, e))
              (\<lambda>(s, e). if is_open s \<and> events AND EPOLLRDHUP \<noteq> 0 then close_from_loop H p (s, e)
                        else ret () (s, e))) (s, e))"

text \<open>The task that \<^verbatim>\<open>send\<close> posts.\<close>

definition run_send :: "'x hooks \<Rightarrow> ptr \<Rightarrow> bytes \<Rightarrow> write_handler option \<Rightarrow> 'x sess_eff" where
  "run_send H p frame handler = (\<lambda>(s, e).
     if \<not> is_open s then on_snd (call_write (on_write H) handler ENOTCONN) (s, e)
     else
       seq update_events (async_write H p)
         (s\<lparr>write_queue := write_queue s @ [\<lparr>frame_bytes = frame, written = 0, write_cb = handler\<rparr>]\<rparr>, e))"

text \<open>The objects of a process: the sessions in memory and the counter their ids come from.\<close>

record objects =
  heap :: "ptr \<rightharpoonup> session"
  next_ptr :: ptr
  next_id :: u64

definition with_session :: "ptr \<Rightarrow> 'x sess_eff \<Rightarrow> (objects \<times> 'x env_scheme, unit) eff" where
  "with_session p m = (\<lambda>(ob, e).
     case heap ob p of
       None \<Rightarrow> ret () (ob, e)
     | Some s \<Rightarrow> (case m (s, e) of (r, (s', e')) \<Rightarrow> (r, (ob\<lparr>heap := (heap ob)(p \<mapsto> s')\<rparr>, e'))))"

fun run_task :: "'x hooks \<Rightarrow> task \<Rightarrow> (objects \<times> 'x env_scheme, unit) eff" where
  "run_task H (SendTask p frame handler) = with_session p (run_send H p frame handler)"
| "run_task H (CloseTask p) = with_session p (close_from_loop H p)"

text \<open>\<^verbatim>\<open>std::make_shared<Session>(loop, fd)\<close>: a new object with the next id.\<close>

definition make_session :: "fd \<Rightarrow> objects \<Rightarrow> ptr \<times> objects" where
  "make_session fd ob =
     (next_ptr ob,
      ob\<lparr>heap := (heap ob)(next_ptr ob \<mapsto> new_session fd (next_id ob)),
         next_ptr := Suc (next_ptr ob), next_id := next_id ob + 1\<rparr>)"

end
