(* ===== verification/Session_Laws.thy ===== *)
theory Session_Laws
  imports Session
begin

text \<open>
  What a session guarantees, whoever its handlers belong to. The locale \<open>session_hooks\<close> is the
  interface: what \<^verbatim>\<open>Session\<close> relies on from a \<^verbatim>\<open>std::function\<close> it calls. A write or close
  handler returns (it does not throw) and leaves the loop's registrations, its log of system calls
  and the trace alone; a message handler may throw, sees the session only through its public
  methods, leaves the registrations alone, delivers no message itself and makes no system call
  but the write that wakes the loop. The server and the client interpret the locale with their own
  closures.
\<close>

section \<open>Views of a session and of the trace\<close>

text \<open>What \<^verbatim>\<open>fd()\<close>, \<^verbatim>\<open>id()\<close> and \<^verbatim>\<open>is_open()\<close> show, with the installed handler.\<close>

definition same_view :: "session \<Rightarrow> session \<Rightarrow> bool" where
  "same_view s s' \<longleftrightarrow> socket_fd s = socket_fd s' \<and> session_id s = session_id s' \<and>
     is_open s = is_open s' \<and> msg_handler s = msg_handler s'"

text \<open>The handlers queued with the frames, and the calls that a list of them gets.\<close>

abbreviation queued_cbs :: "session \<Rightarrow> write_handler option list" where
  "queued_cbs s \<equiv> map write_cb (write_queue s)"

fun write_calls :: "write_handler option list \<Rightarrow> errno \<Rightarrow> callback list" where
  "write_calls [] err = []"
| "write_calls (None # hs) err = write_calls hs err"
| "write_calls (Some h # hs) err = WriteCalled h err # write_calls hs err"

abbreviation close_calls :: "ptr \<Rightarrow> session \<Rightarrow> callback list" where
  "close_calls p s \<equiv> (if close_cb s = None then [] else [CloseCalled p])"

lemma write_calls_append: "write_calls (hs @ ks) err = write_calls hs err @ write_calls ks err"
  by (induction hs err rule: write_calls.induct) simp_all

text \<open>The messages a trace shows as delivered for one session, in order.\<close>

fun delivered :: "ptr \<Rightarrow> callback list \<Rightarrow> rpc_message list" where
  "delivered p [] = []"
| "delivered p (c # cs) =
     (case c of MessageCalled q m \<Rightarrow> if q = p then m # delivered p cs else delivered p cs
      | _ \<Rightarrow> delivered p cs)"

text \<open>Messages reach a handler only if one is installed.\<close>

definition handed :: "session \<Rightarrow> rpc_message list \<Rightarrow> rpc_message list" where
  "handed s ms = (if msg_handler s = None then [] else ms)"

lemma handed_append: "handed s (ms @ ns) = handed s ms @ handed s ns"
  by (simp add: handed_def)

lemma delivered_append [simp]: "delivered p (cs @ ds) = delivered p cs @ delivered p ds"
  by (induction cs) (auto split: callback.splits)

text \<open>How often a trace calls a session's close handler.\<close>

definition closings :: "ptr \<Rightarrow> callback list \<Rightarrow> nat" where
  "closings p cs = count_list cs (CloseCalled p)"

lemma closings_simps [simp]:
  "closings p [] = 0" "closings p (c # cs) = (if c = CloseCalled p then Suc (closings p cs) else closings p cs)"
  "closings p (cs @ ds) = closings p cs + closings p ds"
  by (simp_all add: closings_def)

lemma closings_write_calls [simp]: "closings p (write_calls hs err) = 0"
  by (induction hs err rule: write_calls.induct) simp_all

lemma delivered_write_calls [simp]: "delivered p (write_calls hs err) = []"
  by (induction hs err rule: write_calls.induct) simp_all

lemma delivered_close_calls [simp]: "delivered p (close_calls q s) = []"
  by simp

text \<open>What the loop's operations leave alone, they leave alone in what stands beside it.\<close>

lemma event_loop_more_trace: "event_loop.more e = event_loop.more e' \<Longrightarrow> trace e = trace e'"
  by (cases e; cases e') simp

section \<open>A closed session\<close>

definition closed :: "session \<Rightarrow> session" where
  "closed s = s\<lparr>is_open := False, socket_fd := -1, registered := False, write_queue := []\<rparr>"

definition close_syscalls :: "session \<Rightarrow> syscall list" where
  "close_syscalls s = (if registered s then [EpollDel (socket_fd s)] else [])
     @ (if socket_fd s \<noteq> -1 then [CloseFd (socket_fd s)] else [])"

definition detached :: "session \<Rightarrow> (fd \<rightharpoonup> ev_handler) \<Rightarrow> (fd \<rightharpoonup> ev_handler)" where
  "detached s hs = (if registered s then hs(socket_fd s := None) else hs)"

lemma closed_simps [simp]:
  "is_open (closed s) = False" "socket_fd (closed s) = -1" "registered (closed s) = False"
  "write_queue (closed s) = []" "session_id (closed s) = session_id s" "wire (closed s) = wire s"
  "read_buffer (closed s) = read_buffer s" "rx (closed s) = rx s" "tx (closed s) = tx s"
  "msg_handler (closed s) = msg_handler s" "close_cb (closed s) = close_cb s"
  by (simp_all add: closed_def)

section \<open>The outgoing byte stream\<close>

definition unsent :: "session \<Rightarrow> bytes" where
  "unsent s = concat (map (\<lambda>f. drop (written f) (frame_bytes f)) (write_queue s))"

definition out_stream :: "session \<Rightarrow> bytes" where
  "out_stream s = wire s @ unsent s"

text \<open>No frame in the queue has been written to its end.\<close>

definition queue_ok :: "session \<Rightarrow> bool" where
  "queue_ok s \<longleftrightarrow> (\<forall>f \<in> set (write_queue s). written f < length (frame_bytes f))"

lemma unsent_closed [simp]: "unsent (closed s) = []"
  by (simp add: unsent_def)

lemma queue_ok_closed [simp]: "queue_ok (closed s)"
  by (simp add: queue_ok_def)

text \<open>Bytes moved from the queue to the wire, and nothing else of the session changed.\<close>

definition advanced :: "session \<Rightarrow> session \<Rightarrow> bool" where
  "advanced s s' \<longleftrightarrow> s' = s\<lparr>write_queue := write_queue s', tx := tx s', wire := wire s'\<rparr> \<and>
     out_stream s' = out_stream s \<and> prefix (wire s) (wire s')"

text \<open>
  What a call leaves alone: the registrations, the log of system calls, what the owner of the
  session keeps (seen through \<open>view\<close>), and the promise that no wakeup is lost. Closing detaches
  the session, makes its two system calls and lets the owner forget it.
\<close>

definition undisturbed :: "('x env_scheme \<Rightarrow> 'v) \<Rightarrow> 'x env_scheme \<Rightarrow> 'x env_scheme \<Rightarrow> bool" where
  "undisturbed view e e' \<longleftrightarrow> handlers e' = handlers e \<and> syscalls e' = syscalls e \<and>
     tasks e' = tasks e \<and> view e' = view e \<and>
     (wake_inv e \<longrightarrow> wake_inv e')"

definition forgotten :: "(close_handler \<Rightarrow> u64 \<Rightarrow> 'v \<Rightarrow> 'v) \<Rightarrow> session \<Rightarrow> 'v \<Rightarrow> 'v" where
  "forgotten closing s v = (if close_cb s = None then v else closing (the (close_cb s)) (session_id s) v)"

definition shut ::
    "('x env_scheme \<Rightarrow> 'v) \<Rightarrow> (close_handler \<Rightarrow> u64 \<Rightarrow> 'v \<Rightarrow> 'v) \<Rightarrow> session \<Rightarrow> 'x env_scheme \<Rightarrow> 'x env_scheme \<Rightarrow> bool" where
  "shut view closing s e e' \<longleftrightarrow> handlers e' = detached s (handlers e) \<and>
     syscalls e' = syscalls e @ close_syscalls s \<and> tasks e' = tasks e \<and>
     view e' = forgotten closing s (view e) \<and> (wake_inv e \<longrightarrow> wake_inv e')"

lemma undisturbed_trans: "undisturbed view e e1 \<Longrightarrow> undisturbed view e1 e2 \<Longrightarrow> undisturbed view e e2"
  by (simp add: undisturbed_def)

lemma undisturbed_shut: "undisturbed view e e1 \<Longrightarrow> shut view closing s e1 e2 \<Longrightarrow> shut view closing s e e2"
  by (simp add: undisturbed_def shut_def)

lemma shut_same:
  "registered s' = registered s \<Longrightarrow> socket_fd s' = socket_fd s \<Longrightarrow> close_cb s' = close_cb s \<Longrightarrow>
   session_id s' = session_id s \<Longrightarrow> shut view closing s' = shut view closing s"
  by (intro ext) (simp only: shut_def detached_def close_syscalls_def forgotten_def)

text \<open>
  The answers of send that close the session, with the error they are reported as: an error that is
  neither \<^verbatim>\<open>EAGAIN\<close> nor \<^verbatim>\<open>EINTR\<close>, or 0, when \<^verbatim>\<open>errno\<close> is whatever it was.
\<close>

fun send_fails :: "send_answer \<Rightarrow> errno \<Rightarrow> bool" where
  "send_fails (SendError e) err = (err = e \<and> e \<noteq> EAGAIN \<and> e \<noteq> EINTR)"
| "send_fails (SendBytes k) err = (k = 0)"

text \<open>Answers taken from the front, none of which closes\<close>

definition passed :: "send_answer list \<Rightarrow> send_answer list \<Rightarrow> bool" where
  "passed as as' \<longleftrightarrow> (\<exists>pre. as = pre @ as' \<and> (\<forall>a \<in> set pre. \<forall>err. \<not> send_fails a err))"

lemma passed_refl: "passed as as"
  by (simp add: passed_def)

lemma passed_trans: "passed as bs \<Longrightarrow> passed bs cs \<Longrightarrow> passed as cs"
  unfolding passed_def by (metis Un_iff append_assoc set_append)

lemma passed_step: "(\<And>err. \<not> send_fails a err) \<Longrightarrow> passed (a # as) as"
  by (auto simp: passed_def intro: exI [of _ "[a]"])

text \<open>The two ways a pass of the write loop ends; \<open>sent\<close> are the handlers of the frames sent.\<close>

definition wrote ::
    "('x env_scheme \<Rightarrow> 'v) \<Rightarrow> write_handler option list \<Rightarrow> session \<Rightarrow> 'x env_scheme \<Rightarrow> session \<Rightarrow> 'x env_scheme \<Rightarrow> bool" where
  "wrote view sent s e s' e' \<longleftrightarrow> advanced s s' \<and> queue_ok s' \<and> queued_cbs s = sent @ queued_cbs s' \<and>
     trace e' = trace e @ write_calls sent 0 \<and> undisturbed view e e' \<and> passed (tx s) (tx s')"

definition gave_up ::
    "('x env_scheme \<Rightarrow> 'v) \<Rightarrow> (close_handler \<Rightarrow> u64 \<Rightarrow> 'v \<Rightarrow> 'v) \<Rightarrow> ptr \<Rightarrow> write_handler option list \<Rightarrow> errno \<Rightarrow>
     session \<Rightarrow> 'x env_scheme \<Rightarrow> session \<Rightarrow> 'x env_scheme \<Rightarrow> bool" where
  "gave_up view closing p sent err s e s' e' \<longleftrightarrow> advanced s s' \<and>
     (\<exists>failed. queued_cbs s = sent @ failed \<and>
        trace e' = trace e @ write_calls sent 0 @ write_calls failed err @ close_calls p s) \<and>
     shut view closing s e e' \<and> (\<exists>a. passed (tx s) (a # tx s') \<and> send_fails a err)"

lemma take_drop_step: "take n (drop k xs) @ drop (k + n) xs @ ys = drop k xs @ ys"
  by (metis append_assoc append_take_drop_id drop_drop add.commute)

lemma advanced_trans: "advanced s s1 \<Longrightarrow> advanced s1 s2 \<Longrightarrow> advanced s s2"
  by (cases s; cases s1; cases s2) (auto simp: advanced_def)

lemma advanced_refl: "advanced s (s\<lparr>tx := as\<rparr>)"
  by (cases s) (simp add: advanced_def out_stream_def unsent_def)

lemma advanced_same:
  assumes "advanced s s'"
  shows "socket_fd s' = socket_fd s" "session_id s' = session_id s" "is_open s' = is_open s"
    "registered s' = registered s" "read_buffer s' = read_buffer s" "msg_handler s' = msg_handler s"
    "close_cb s' = close_cb s" "rx s' = rx s"
proof -
  have s': "s' = s\<lparr>write_queue := write_queue s', tx := tx s', wire := wire s'\<rparr>"
    using assms by (simp add: advanced_def)
  show "socket_fd s' = socket_fd s" "session_id s' = session_id s" "is_open s' = is_open s"
    "registered s' = registered s" "read_buffer s' = read_buffer s" "msg_handler s' = msg_handler s"
    "close_cb s' = close_cb s" "rx s' = rx s"
    by (subst s', simp)+
qed

lemma wrote_wrote:
  "wrote view d s e s1 e1 \<Longrightarrow> wrote view d' s1 e1 s2 e2 \<Longrightarrow> wrote view (d @ d') s e s2 e2"
  by (auto simp: wrote_def write_calls_append intro: advanced_trans undisturbed_trans passed_trans)

lemma wrote_gave_up:
  assumes "wrote view d s e s1 e1" and "gave_up view closing p d' err s1 e1 s2 e2"
  shows "gave_up view closing p (d @ d') err s e s2 e2"
proof -
  have adv: "advanced s s1" using assms(1) by (simp add: wrote_def)
  note same = advanced_same [OF adv]
  have "shut view closing s1 = shut view closing s" by (rule shut_same) (simp_all add: same)
  then show ?thesis
    using assms same
    by (auto simp: wrote_def gave_up_def write_calls_append intro: advanced_trans undisturbed_shut passed_trans)
qed

section \<open>The interface\<close>

lemma make_frame_not_Nil [simp]: "make_frame p \<noteq> []"
  by (simp add: make_frame_def encode_frame_size_def)

text \<open>The system calls of a message handler: those of \<^verbatim>\<open>post\<close> and \<^verbatim>\<open>stop\<close>.\<close>

abbreviation wakeups_only :: "syscall list \<Rightarrow> bool" where
  "wakeups_only \<equiv> list_all (\<lambda>c. \<exists>fd. c = EventfdWrite fd)"

text \<open>What posting to the loop, and nothing more, may change. A frame that is posted is not empty.\<close>

fun task_ok :: "task \<Rightarrow> bool" where
  "task_ok (SendTask p frame h) = (frame \<noteq> [])"
| "task_ok (CloseTask p) = True"

definition posted :: "'x env_scheme \<Rightarrow> 'x env_scheme \<Rightarrow> bool" where
  "posted e e' \<longleftrightarrow> (\<exists>ts. tasks e' = tasks e @ ts \<and> list_all task_ok ts)"

lemma posted_refl: "tasks e' = tasks e \<Longrightarrow> posted e e'"
  by (auto simp: posted_def intro: exI [of _ "[]"])

lemma posted_trans: "posted e e1 \<Longrightarrow> posted e1 e2 \<Longrightarrow> posted e e2"
  by (fastforce simp: posted_def)

definition posts_only :: "('x env_scheme \<Rightarrow> 'v) \<Rightarrow> 'x env_scheme \<Rightarrow> 'x env_scheme \<Rightarrow> bool" where
  "posts_only view e e' \<longleftrightarrow> handlers e' = handlers e \<and> view e' = view e \<and>
     (\<exists>cs. syscalls e' = syscalls e @ cs \<and> wakeups_only cs) \<and> posted e e' \<and>
     (\<forall>q. delivered q (trace e') = delivered q (trace e) \<and> closings q (trace e') = closings q (trace e))"

lemma posts_only_refl: "posts_only view e e"
  by (auto simp: posts_only_def posted_refl intro: exI [of _ "[]"])

lemma posts_only_trans:
  assumes "posts_only view e e1" and "posts_only view e1 e2"
  shows "posts_only view e e2"
proof -
  obtain cs ds where "syscalls e1 = syscalls e @ cs" "wakeups_only cs" "syscalls e2 = syscalls e1 @ ds" "wakeups_only ds"
    using assms by (auto simp: posts_only_def)
  then show ?thesis
    using assms posted_trans [of e e1 e2] by (auto simp: posts_only_def intro!: exI [of _ "cs @ ds"])
qed

locale write_hooks =
  fixes ow :: "write_handler \<Rightarrow> errno \<Rightarrow> ('x env_scheme, unit) eff" and view :: "'x env_scheme \<Rightarrow> 'v"
  assumes view_more: "event_loop.more e = event_loop.more e' \<Longrightarrow> view e = view e'"
    and view_trace: "view (e\<lparr>trace := t\<rparr>) = view e"
    and on_write_frame: "ow h err e = (r, e') \<Longrightarrow> r = Inr () \<and> trace e' = trace e \<and> undisturbed view e e'"
begin

lemma wake_inv_trace: "wake_inv (e\<lparr>trace := t\<rparr>) = wake_inv e"
  by (simp add: wake_inv_def)

lemma call_write_run:
  obtains e' where "call_write ow h err e = (Inr (), e')" "undisturbed view e e'"
    "trace e' = trace e @ write_calls [h] err"
proof (cases h)
  case None
  then show thesis by (intro that [of e]) (simp_all add: call_write_def undisturbed_def)
next
  case (Some w)
  let ?e = "e\<lparr>trace := trace e @ [WriteCalled w err]\<rparr>"
  obtain r e' where run: "ow w err ?e = (r, e')" by (cases "ow w err ?e")
  show thesis
    by (rule that [of e']) (use Some run on_write_frame [OF run] in
      \<open>simp_all add: call_write_def log_call_def undisturbed_def view_trace wake_inv_trace\<close>)
qed

lemma loop_post_posts:
  assumes "loop_post t e = (r, e')" and "task_ok t"
  shows "posts_only view e e'"
  using loop_post_frame [OF assms(1)] view_more [of e' e] event_loop_more_trace [of e' e] assms(2)
  by (auto simp: posts_only_def posted_def)

lemma loop_stop_posts:
  assumes "loop_stop e = (r, e')"
  shows "posts_only view e e'"
proof -
  have "syscalls e' = syscalls e @ (if event_fd e \<noteq> -1 then [EventfdWrite (event_fd e)] else [])"
    using assms wakeup_frame(6) [of "e\<lparr>stopped := True\<rparr>" r e'] by (auto simp: loop_stop_def split: if_splits)
  then show ?thesis
    using loop_stop_frame [OF assms] view_more [of e' e] event_loop_more_trace [of e' e]
    by (auto simp: posts_only_def posted_refl)
qed

lemma session_send_posts:
  assumes "session_send ow p m h e = (r, e')"
  shows "posts_only view e e'"
proof (cases "length (encode m) > unat kMaxFrameSize")
  case True
  obtain e1 where "call_write ow h EMSGSIZE e = (Inr (), e1)" "undisturbed view e e1"
    "trace e1 = trace e @ write_calls [h] EMSGSIZE"
    by (rule call_write_run)
  then show ?thesis
    using assms True by (auto simp: session_send_def posts_only_def undisturbed_def simp del: write_calls.simps
        intro: posted_refl exI [of _ "[]"])
next
  case False
  then show ?thesis
    using assms loop_post_posts [of "SendTask p (make_frame (encode m)) h" e r e']
    by (simp add: session_send_def make_frame_not_Nil)
qed

lemma session_send_wakes: "wakes_loop (session_send ow p m h)"
proof -
  have "wake_inv e'" if inv: "wake_inv e" and run: "session_send ow p m h e = (Inr x, e')" for e x e'
  proof (cases "length (encode m) > unat kMaxFrameSize")
    case True
    then show ?thesis
      using run inv call_write_run [of h EMSGSIZE e]
      by (simp add: session_send_def) (metis Pair_inject undisturbed_def)
  next
    case False
    then show ?thesis using run inv wakes_loop_post [of "SendTask p (make_frame (encode m)) h"]
      by (auto simp: session_send_def wakes_loop_def)
  qed
  then show ?thesis by (auto simp: wakes_loop_def)
qed

end

locale session_hooks = write_hooks "on_write H" view
  for H :: "'x hooks" and view :: "'x env_scheme \<Rightarrow> 'v" +
  fixes closing :: "close_handler \<Rightarrow> u64 \<Rightarrow> 'v \<Rightarrow> 'v"
  assumes on_close_frame: "on_close H c p s e = (r, e') \<Longrightarrow> r = Inr () \<and> trace e' = trace e \<and>
      tasks e' = tasks e \<and> handlers e' = handlers e \<and> syscalls e' = syscalls e \<and> view e' = closing c (session_id s) (view e) \<and>
      (wake_inv e \<longrightarrow> wake_inv e')"
    and on_message_frame: "on_message H mh p s m e = (r, e') \<Longrightarrow>
      posts_only view e e' \<and> (r = Inr () \<longrightarrow> wake_inv e \<longrightarrow> wake_inv e')"
    and on_message_view: "same_view s s' \<Longrightarrow> on_message H mh p s = on_message H mh p s'"
begin

abbreviation shuts :: "session \<Rightarrow> 'x env_scheme \<Rightarrow> 'x env_scheme \<Rightarrow> bool" where
  "shuts \<equiv> shut view closing"

lemma call_close_run:
  obtains e' where "call_close H p s e = (Inr (), e')" "trace e' = trace e @ close_calls p s"
    "handlers e' = handlers e" "syscalls e' = syscalls e" "tasks e' = tasks e"
    "view e' = forgotten closing s (view e)"
    "wake_inv e \<longrightarrow> wake_inv e'"
proof (cases "close_cb s")
  case None
  then show thesis by (intro that [of e]) (simp_all add: call_close_def forgotten_def)
next
  case (Some c)
  let ?e = "e\<lparr>trace := trace e @ [CloseCalled p]\<rparr>"
  obtain r e' where run: "on_close H c p s ?e = (r, e')" by (cases "on_close H c p s ?e")
  show thesis
    by (rule that [of e']) (use Some run on_close_frame [OF run] in
      \<open>simp_all add: call_close_def log_call_def forgotten_def view_trace wake_inv_trace\<close>)
qed

lemma call_message_view:
  assumes "same_view s s'"
  shows "call_message H p s = call_message H p s'"
proof -
  have "msg_handler s = msg_handler s'" using assms by (simp add: same_view_def)
  moreover have "on_message H h p s = on_message H h p s'" for h by (rule on_message_view [OF assms])
  ultimately show ?thesis by (intro ext) (cases "msg_handler s'"; simp add: call_message_def)
qed

lemma call_message_frame:
  assumes "call_message H p s m e = (r, e')"
  shows "handlers e' = handlers e" and "view e' = view e" and "posted e e'" and "r = Inr () \<Longrightarrow> wake_inv e \<Longrightarrow> wake_inv e'"
    and "\<exists>cs. syscalls e' = syscalls e @ cs \<and> wakeups_only cs"
    and "delivered q (trace e') = delivered q (trace e) @ (if q = p then handed s [m] else [])"
    and "closings q (trace e') = closings q (trace e)"
proof -
  have "handlers e' = handlers e \<and> view e' = view e \<and> posted e e' \<and> (r = Inr () \<longrightarrow> wake_inv e \<longrightarrow> wake_inv e') \<and>
    (\<exists>cs. syscalls e' = syscalls e @ cs \<and> wakeups_only cs) \<and>
    delivered q (trace e') = delivered q (trace e) @ (if q = p then handed s [m] else []) \<and>
    closings q (trace e') = closings q (trace e)"
  proof (cases "msg_handler s")
    case None
    then show ?thesis using assms by (auto simp: call_message_def handed_def intro: posted_refl exI [of _ "[]"])
  next
    case (Some mh)
    then have "on_message H mh p s m (e\<lparr>trace := trace e @ [MessageCalled p m]\<rparr>) = (r, e')"
      using assms by (simp add: call_message_def log_call_def)
    from on_message_frame [OF this] Some show ?thesis
      by (simp add: posts_only_def posted_def view_trace wake_inv_trace handed_def)
  qed
  then show "handlers e' = handlers e" and "view e' = view e" and "posted e e'" and "r = Inr () \<Longrightarrow> wake_inv e \<Longrightarrow> wake_inv e'"
    and "\<exists>cs. syscalls e' = syscalls e @ cs \<and> wakeups_only cs"
    and "delivered q (trace e') = delivered q (trace e) @ (if q = p then handed s [m] else [])"
    and "closings q (trace e') = closings q (trace e)"
    by simp_all
qed

lemma flush_queue_run:
  obtains e' where "flush_queue H err (s, e) = (Inr (), (s\<lparr>write_queue := []\<rparr>, e'))"
    "undisturbed view e e'" "trace e' = trace e @ write_calls (queued_cbs s) err"
proof -
  have "\<exists>e'. flush_queue H err (s, e) = (Inr (), (s\<lparr>write_queue := []\<rparr>, e')) \<and> undisturbed view e e' \<and>
      trace e' = trace e @ write_calls (queued_cbs s) err"
  proof (induction "write_queue s" arbitrary: s e)
    case Nil
    then have wq: "write_queue s = []" by simp
    then have "s\<lparr>write_queue := []\<rparr> = s" by (cases s) simp
    with wq show ?case by (simp add: flush_queue.simps [of H err s e] undisturbed_def)
  next
    case (Cons f fs)
    let ?s = "s\<lparr>write_queue := fs\<rparr>"
    have wq: "write_queue s = f # fs" using Cons.hyps(2) by simp
    obtain e1 where w: "call_write (on_write H) (write_cb f) err e = (Inr (), e1)" "undisturbed view e e1"
      "trace e1 = trace e @ write_calls [write_cb f] err"
      by (rule call_write_run)
    have "flush_queue H err (s, e) = flush_queue H err (?s, e1)"
      using w(1) wq by (simp add: flush_queue.simps [of H err s e] Let_def)
    moreover have "\<exists>e'. flush_queue H err (?s, e1) = (Inr (), (?s\<lparr>write_queue := []\<rparr>, e')) \<and>
      undisturbed view e1 e' \<and> trace e' = trace e1 @ write_calls (map write_cb fs) err"
      using Cons.hyps(1) [of ?s e1] by simp
    ultimately show ?case
      using w(2-) wq by (auto simp: write_calls_append [of "[write_cb f]" "map write_cb fs", simplified]
          intro: undisturbed_trans)
  qed
  then show thesis using that by blast
qed

lemma wake_inv_frame:
  "tasks e' = tasks e \<Longrightarrow> event_counter e' = event_counter e \<Longrightarrow> set (answers e') \<subseteq> set (answers e) \<Longrightarrow>
   wake_inv e \<longrightarrow> wake_inv e'"
  by (auto simp: wake_inv_def)

lemma unregister_run:
  obtains e' where "unregister fd (s, e) = (Inr (), (s\<lparr>registered := False\<rparr>, e'))" "trace e' = trace e"
    "handlers e' = (if registered s then (handlers e)(fd := None) else handlers e)"
    "syscalls e' = syscalls e @ (if registered s then [EpollDel fd] else [])" "tasks e' = tasks e"
    "view e' = view e" "wake_inv e \<longrightarrow> wake_inv e'"
proof (cases "registered s")
  case True
  obtain r e1 where rm: "loop_remove fd e = (r, e1)" by (cases "loop_remove fd e")
  note f = loop_remove_frame [OF rm]
  have "unregister fd (s, e) = (Inr (), (s\<lparr>registered := False\<rparr>, e1))"
    using True rm f(10) by (simp add: unregister_def on_snd_run seq_run)
  then show thesis
    by (rule that [of e1]) (use True f(1,2,7) event_loop_more_trace [OF f(8)] view_more [OF f(8)]
        wake_inv_frame [OF f(2,6,9)] in simp_all)
next
  case False
  then have "s\<lparr>registered := False\<rparr> = s" by (cases s) simp
  with False have "unregister fd (s, e) = (Inr (), (s\<lparr>registered := False\<rparr>, e))" by (simp add: unregister_def)
  then show thesis by (rule that [of e]) (use False in simp_all)
qed

lemma close_socket_run:
  obtains e' where "close_socket fd (s, e) = (Inr (), (s, e'))" "trace e' = trace e"
    "handlers e' = handlers e" "syscalls e' = syscalls e @ (if fd \<noteq> -1 then [CloseFd fd] else [])"
    "tasks e' = tasks e" "view e' = view e" "wake_inv e \<longrightarrow> wake_inv e'"
proof (cases "fd = -1")
  case True
  then show thesis by (intro that [of e]) (simp_all add: close_socket_def)
next
  case False
  obtain rc e1 where cl: "sys (CloseFd fd) e = (Inr rc, e1)" using sys_returns by blast
  note f = sys_frame [OF cl]
  have "close_socket fd (s, e) = (Inr (), (s, e1))"
    using False cl by (simp add: close_socket_def on_snd_run bind_run)
  then show thesis
    by (rule that [of e1]) (use False f(1,2,7) event_loop_more_trace [OF f(8)] view_more [OF f(8)]
        wake_inv_frame [OF f(2,6,9)] in simp_all)
qed

text \<open>
  Closing: the session is detached and closed, every queued handler has been called with the error,
  and the close handler last.
\<close>

lemma close_from_loop_run:
  assumes "is_open s"
  obtains e' where "close_from_loop H p (s, e) = (Inr (), (closed s, e'))" "shuts s e e'"
    "trace e' = trace e @ write_calls (queued_cbs s) ENOTCONN @ close_calls p s"
proof -
  let ?s1 = "s\<lparr>is_open := False, socket_fd := -1\<rparr>"
  let ?s2 = "?s1\<lparr>registered := False\<rparr>"
  obtain e1 where e1: "unregister (socket_fd s) (?s1, e) = (Inr (), (?s2, e1))" "trace e1 = trace e"
    "handlers e1 = (if registered ?s1 then (handlers e)(socket_fd s := None) else handlers e)"
    "syscalls e1 = syscalls e @ (if registered ?s1 then [EpollDel (socket_fd s)] else [])"
    "tasks e1 = tasks e" "view e1 = view e" "wake_inv e \<longrightarrow> wake_inv e1"
    by (rule unregister_run)
  obtain e2 where e2: "close_socket (socket_fd s) (?s2, e1) = (Inr (), (?s2, e2))" "trace e2 = trace e1"
    "handlers e2 = handlers e1" "syscalls e2 = syscalls e1 @ (if socket_fd s \<noteq> -1 then [CloseFd (socket_fd s)] else [])"
    "tasks e2 = tasks e1" "view e2 = view e1" "wake_inv e1 \<longrightarrow> wake_inv e2"
    by (rule close_socket_run)
  obtain e3 where e3: "flush_queue H ENOTCONN (?s2, e2) = (Inr (), (?s2\<lparr>write_queue := []\<rparr>, e3))"
    "undisturbed view e2 e3" "trace e3 = trace e2 @ write_calls (queued_cbs ?s2) ENOTCONN"
    by (rule flush_queue_run)
  let ?s3 = "?s2\<lparr>write_queue := []\<rparr>"
  obtain e4 where e4: "call_close H p ?s3 e3 = (Inr (), e4)" "trace e4 = trace e3 @ close_calls p ?s3"
    "handlers e4 = handlers e3" "syscalls e4 = syscalls e3" "tasks e4 = tasks e3" "view e4 = forgotten closing ?s3 (view e3)"
    "wake_inv e3 \<longrightarrow> wake_inv e4"
    by (rule call_close_run)
  have "close_from_loop H p (s, e) = (Inr (), (?s3, e4))"
    using assms by (simp only: close_from_loop_def prod.case Let_def seq_run e1(1) e2(1) e3(1) on_snd_run
        e4(1) sum.case not_True_eq_False if_False)
  then show thesis
    using e1 e2 e3 e4
    by (intro that [of e4])
       (simp_all add: closed_def shut_def detached_def close_syscalls_def forgotten_def undisturbed_def)
qed

lemma fail_and_close_run:
  assumes "is_open s"
  obtains e' where "fail_and_close H p err (s, e) = (Inr (), (closed s, e'))" "shuts s e e'"
    "trace e' = trace e @ write_calls (queued_cbs s) err @ close_calls p s"
proof -
  let ?s = "s\<lparr>write_queue := []\<rparr>"
  obtain e1 where e1: "flush_queue H err (s, e) = (Inr (), (?s, e1))"
    "undisturbed view e e1" "trace e1 = trace e @ write_calls (queued_cbs s) err"
    by (rule flush_queue_run)
  have "is_open ?s" using assms by simp
  then obtain e2 where e2: "close_from_loop H p (?s, e1) = (Inr (), (closed ?s, e2))" "shuts ?s e1 e2"
    "trace e2 = trace e1 @ write_calls (queued_cbs ?s) ENOTCONN @ close_calls p ?s"
    by (rule close_from_loop_run)
  have "fail_and_close H p err (s, e) = (Inr (), (closed s, e2))"
    by (simp add: fail_and_close_def seq_run e1(1) e2(1) closed_def)
  moreover have "shuts ?s = shuts s" by (rule shut_same) simp_all
  ultimately show thesis
    using e1 e2 by (intro that [of e2]) (simp_all add: undisturbed_shut [of view e e1])
qed

section \<open>Writing\<close>

lemma undisturbed_cerrno: "undisturbed view e (e\<lparr>cerrno := c\<rparr>)"
  by (simp add: undisturbed_def wake_inv_def view_more [of "e\<lparr>cerrno := c\<rparr>" e])

lemma wrote_refl: "queue_ok s \<Longrightarrow> passed (tx s) as \<Longrightarrow> wrote view [] s e (s\<lparr>tx := as\<rparr>) (e\<lparr>cerrno := c\<rparr>)"
  using advanced_refl [of s as] undisturbed_cerrno [of e c] by (simp add: wrote_def queue_ok_def)

text \<open>One call of send: the loop is left, goes on with the next call, or fails.\<close>

lemma write_loop_step [consumes 4, case_names leave fail go_on]:
  assumes "is_open s" "queue_ok s" "write_queue s = f # q" "tx s = a # as"
  obtains (leave) c where "write_loop H p (s, e) = (Inr True, (s\<lparr>tx := as\<rparr>, e\<lparr>cerrno := c\<rparr>))" "passed (tx s) as"
  | (fail) err c where
      "write_loop H p (s, e) = seq (fail_and_close H p err) (ret False) (s\<lparr>tx := as\<rparr>, e\<lparr>cerrno := c\<rparr>)" "send_fails a err"
  | (go_on) s1 e1 d where "write_loop H p (s, e) = write_loop H p (s1, e1)" "wrote view d s e s1 e1" "tx s1 = as"
proof -
  note unfold = write_loop.simps [of H p s e]
  have f: "written f < length (frame_bytes f)" using assms(2,3) by (simp add: queue_ok_def)
  have pass: "(\<And>err. \<not> send_fails a err) \<Longrightarrow> passed (tx s) as" using passed_step assms(4) by simp
  show thesis
  proof (cases a)
    case (SendError err)
    consider "err = EAGAIN" | "err = EINTR" | "err \<noteq> EAGAIN" "err \<noteq> EINTR" by blast
    then show ?thesis
    proof cases
      case 1
      then show ?thesis using assms SendError leave [of EAGAIN] pass by (simp add: unfold)
    next
      case 2
      then have "write_loop H p (s, e) = write_loop H p (s\<lparr>tx := as\<rparr>, e\<lparr>cerrno := EINTR\<rparr>)"
        using assms SendError by (simp add: unfold)
      then show ?thesis by (rule go_on) (use wrote_refl [OF assms(2)] pass 2 SendError in auto)
    next
      case 3
      then show ?thesis using assms SendError fail [of err err] by (simp add: unfold)
    qed
  next
    case (SendBytes k)
    define n where "n = min k (length (frame_bytes f) - written f)"
    let ?s1 = "s\<lparr>tx := as, wire := wire s @ take n (drop (written f) (frame_bytes f))\<rparr>"
    consider "k = 0" | "0 < k" "0 < n" "written f + n = length (frame_bytes f)"
      | "0 < k" "0 < n" "written f + n < length (frame_bytes f)"
      using f by (fastforce simp: n_def)
    then show ?thesis
    proof cases
      case 1
      then show ?thesis using assms SendBytes fail [of "cerrno e" "cerrno e"] by (simp add: unfold)
    next
      case 2
      obtain e1 where w: "call_write (on_write H) (write_cb f) 0 e = (Inr (), e1)" "undisturbed view e e1"
        "trace e1 = trace e @ write_calls [write_cb f] 0"
        by (rule call_write_run)
      have "write_loop H p (s, e) = write_loop H p (?s1\<lparr>write_queue := q\<rparr>, e1)"
        using 2 assms SendBytes w(1) by (simp add: unfold n_def [symmetric] Let_def)
      moreover have "wrote view [write_cb f] s e (?s1\<lparr>write_queue := q\<rparr>) e1"
        using w 2 assms(2,3) pass SendBytes
        by (simp add: wrote_def advanced_def out_stream_def unsent_def queue_ok_def)
      ultimately show ?thesis by (rule go_on) simp
    next
      case 3
      let ?q = "f\<lparr>written := written f + n\<rparr> # q"
      have "write_loop H p (s, e) = write_loop H p (?s1\<lparr>write_queue := ?q\<rparr>, e)"
        using 3 assms SendBytes by (simp add: unfold n_def [symmetric] Let_def)
      moreover have "wrote view [] s e (?s1\<lparr>write_queue := ?q\<rparr>) e"
        using 3 assms(2,3) pass SendBytes
        by (simp add: wrote_def advanced_def out_stream_def unsent_def queue_ok_def take_drop_step undisturbed_def)
      ultimately show ?thesis by (rule go_on) simp
    qed
  qed
qed

lemma fail_gives_up:
  assumes "is_open s" and "tx s = a # as" and "send_fails a err"
  obtains e' where "seq (fail_and_close H p err) (ret False) (s\<lparr>tx := as\<rparr>, e\<lparr>cerrno := c\<rparr>)
      = (Inr False, (closed (s\<lparr>tx := as\<rparr>), e'))" "gave_up view closing p [] err s e (s\<lparr>tx := as\<rparr>) e'"
proof -
  let ?s = "s\<lparr>tx := as\<rparr>" and ?e = "e\<lparr>cerrno := c\<rparr>"
  have "is_open ?s" using assms(1) by simp
  then obtain e' where f: "fail_and_close H p err (?s, ?e) = (Inr (), (closed ?s, e'))" "shuts ?s ?e e'"
    "trace e' = trace ?e @ write_calls (queued_cbs ?s) err @ close_calls p ?s"
    by (rule fail_and_close_run)
  have "shuts ?s = shuts s" by (rule shut_same) simp_all
  then have "shuts s e e'" using undisturbed_shut [OF undisturbed_cerrno] f(2) by simp
  then have "gave_up view closing p [] err s e ?s e'"
    using f(3) advanced_refl assms(2,3) passed_refl by (auto simp: gave_up_def)
  with f(1) show thesis by (intro that [of e']) simp_all
qed

text \<open>
  One pass of \<^verbatim>\<open>async_write\<close>'s loop. Either it leaves the loop with the session open: the
  handlers of the frames it finished were called with success, and what is on the wire and what
  is queued make up the same byte stream as before. Or it fails and closes.
\<close>

lemma write_loop_run:
  assumes "is_open s" and "queue_ok s"
  obtains (stays) s' e' sent where "write_loop H p (s, e) = (Inr True, (s', e'))" "wrote view sent s e s' e'"
  | (fails) s' e' sent err where "write_loop H p (s, e) = (Inr False, (closed s', e'))"
      "gave_up view closing p sent err s e s' e'"
proof -
  have "(\<exists>s' e' sent. write_loop H p (s, e) = (Inr True, (s', e')) \<and> wrote view sent s e s' e') \<or>
    (\<exists>s' e' sent err. write_loop H p (s, e) = (Inr False, (closed s', e')) \<and> gave_up view closing p sent err s e s' e')"
    using assms
  proof (induction "tx s" arbitrary: s e)
    case Nil
    have tx: "tx s = []" using Nil.hyps by simp
    then have same: "s\<lparr>tx := []\<rparr> = s" by (cases s) simp
    have "write_loop H p (s, e) = (Inr True, (s\<lparr>tx := []\<rparr>, e\<lparr>cerrno := if write_queue s = [] then cerrno e else EAGAIN\<rparr>))"
      unfolding same using tx Nil.prems
      by (cases "write_queue s") (simp_all add: write_loop.simps [of H p s e])
    then show ?case using wrote_refl [OF Nil.prems(2), of "[]"] passed_refl [of "[]"] tx by metis
  next
    case (Cons a as)
    show ?case
    proof (cases "write_queue s")
      case Nil
      then have "write_loop H p (s, e) = (Inr True, (s\<lparr>tx := tx s\<rparr>, e\<lparr>cerrno := cerrno e\<rparr>))"
        by (simp add: write_loop.simps [of H p s e])
      then show ?thesis using wrote_refl [OF Cons.prems(2) passed_refl] by blast
    next
      case wq: (Cons f q)
      from Cons.prems wq Cons.hyps(2) [symmetric] show ?thesis
      proof (cases rule: write_loop_step [where e = e and p = p])
        case leave
        then show ?thesis using wrote_refl [OF Cons.prems(2)] by blast
      next
        case (fail err c)
        then show ?thesis by (metis fail_gives_up [OF Cons.prems(1) Cons.hyps(2) [symmetric]])
      next
        case (go_on s1 e1 d)
        have "is_open s1" "queue_ok s1" using go_on(2) Cons.prems by (auto simp: wrote_def advanced_same)
        with Cons.hyps(1) [of s1 e1] go_on show ?thesis using wrote_wrote wrote_gave_up by metis
      qed
    qed
  qed
  then show thesis using stays fails by blast
qed

text \<open>
  \<^verbatim>\<open>async_write\<close>: on a normal return the session is open and epoll was asked for exactly the
  events the queue calls for, or the session is closed.
\<close>

lemma async_write_run:
  assumes "async_write H p (s, e) = (Inr (), (s', e'))" and "is_open s" and "queue_ok s"
  obtains (stays) e1 sent where "wrote view sent s e s' e1" "trace e' = trace e1" "handlers e' = handlers e1"
      "view e' = view e" "tasks e' = tasks e" "wake_inv e \<longrightarrow> wake_inv e'"
      "syscalls e' = syscalls e @ (if registered s then [EpollMod (socket_fd s) (wanted_events s')] else [])"
  | (fails) s1 sent err where "s' = closed s1" "gave_up view closing p sent err s e s1 e'"
  using assms(2,3)
proof (cases rule: write_loop_run [where p = p and e = e])
  case (stays s1 e1 sent)
  have same: "is_open s1" "registered s1 = registered s" "socket_fd s1 = socket_fd s"
    using stays(2) assms(2) by (auto simp: wrote_def advanced_same)
  have quiet: "view e1 = view e" "tasks e1 = tasks e" "wake_inv e \<longrightarrow> wake_inv e1" "syscalls e1 = syscalls e"
    using stays(2) by (simp_all add: wrote_def undisturbed_def)
  show thesis
  proof (cases "registered s")
    case True
    obtain r2 e2 where m: "loop_modify (socket_fd s) (wanted_events s1) e1 = (r2, e2)"
      by (cases "loop_modify (socket_fd s) (wanted_events s1) e1")
    note f = loop_modify_frame [OF m]
    have "async_write H p (s, e) = (r2, (s1, e2))"
      using stays(1) same True m by (simp add: async_write_def bind_run update_events_def on_snd_run)
    then have "s' = s1" "e' = e2" using assms(1) by simp_all
    then show thesis
      using that(1) [of sent e1] stays(2) True f(1,2,7) event_loop_more_trace [OF f(8)] view_more [OF f(8)]
        wake_inv_frame [OF f(2,6,9)] quiet by simp
  next
    case False
    then have "async_write H p (s, e) = (Inr (), (s1, e1))"
      using stays(1) same by (simp add: async_write_def bind_run update_events_def)
    then show thesis using that(1) [of sent e1] stays(2) False assms(1) quiet by simp
  qed
next
  case (fails s1 e1 sent err)
  then have "async_write H p (s, e) = (Inr (), (closed s1, e1))"
    by (simp add: async_write_def bind_run)
  then show thesis using that(2) fails(2) assms(1) by simp
qed

section \<open>Reading\<close>

text \<open>
  \<^verbatim>\<open>read_frames\<close> hands the messages of the buffered stream to the handler, in order; a frame
  above the limit or a malformed body closes the session. Only the trace's deliveries are tracked:
  a message handler may post, and a refused send calls its write handler at once.
\<close>

definition delivers :: "ptr \<Rightarrow> rpc_message list \<Rightarrow> session \<Rightarrow> 'x env_scheme \<Rightarrow> session \<Rightarrow> 'x env_scheme \<Rightarrow> bool" where
  "delivers p ms s e s' e' \<longleftrightarrow>
     (\<forall>q. delivered q (trace e') = delivered q (trace e) @ (if q = p then ms else [])) \<and>
     (\<forall>q. closings q (trace e') = closings q (trace e) +
        (if q = p \<and> \<not> is_open s' \<and> close_cb s \<noteq> None then 1 else 0)) \<and>
     handlers e' = (if is_open s' then handlers e else detached s (handlers e)) \<and>
     view e' = (if is_open s' then view e else forgotten closing s (view e)) \<and> posted e e' \<and> (wake_inv e \<longrightarrow> wake_inv e') \<and>
     (\<exists>cs. wakeups_only cs \<and> syscalls e' = syscalls e @ cs @ (if is_open s' then [] else close_syscalls s))"

lemma delivers_trans:
  assumes "\<And>q. delivered q (trace e1) = delivered q (trace e) @ (if q = p then ms1 else [])"
    and "\<And>q. closings q (trace e1) = closings q (trace e)"
    and "handlers e1 = handlers e" and "view e1 = view e" and "posted e e1" and "wake_inv e \<longrightarrow> wake_inv e1"
    and "\<exists>cs. syscalls e1 = syscalls e @ cs \<and> wakeups_only cs"
    and "delivers p ms2 (s\<lparr>read_buffer := b\<rparr>) e1 s' e'"
  shows "delivers p (ms1 @ ms2) s e s' e'"
proof -
  have "detached (s\<lparr>read_buffer := b\<rparr>) = detached s" "close_syscalls (s\<lparr>read_buffer := b\<rparr>) = close_syscalls s"
    by (simp_all add: detached_def close_syscalls_def fun_eq_iff)
  moreover have "forgotten closing (s\<lparr>read_buffer := b\<rparr>) = forgotten closing s"
    by (rule ext) (simp add: forgotten_def)
  moreover obtain cs1 where "syscalls e1 = syscalls e @ cs1" "wakeups_only cs1" using assms(7) by blast
  moreover obtain cs2 where "wakeups_only cs2" "syscalls e' = syscalls e1 @ cs2 @
      (if is_open s' then [] else close_syscalls (s\<lparr>read_buffer := b\<rparr>))"
    using assms(8) by (auto simp: delivers_def)
  ultimately show ?thesis
    using assms(1-6,8) posted_trans [OF assms(5), of e'] by (auto simp: delivers_def intro!: exI [of _ "cs1 @ cs2"])
qed

lemma shuts_delivers:
  assumes "shuts s e e'" and "trace e' = trace e @ write_calls hs err @ close_calls p s" and "\<not> is_open s'"
  shows "delivers p [] s e s' e'"
  using assms by (auto simp: delivers_def shut_def intro: posted_refl exI [of _ "[]"])

lemma read_frames_run:
  assumes "read_frames H p (s, e) = (Inr (), (s', e'))" and "is_open s"
    and "parse_stream decode (read_buffer s) = (ms, how, rest)"
  shows "s' = (if how = Pending then s\<lparr>read_buffer := rest\<rparr> else closed (s\<lparr>read_buffer := rest\<rparr>)) \<and>
      delivers p (handed s ms) s e s' e'"
  using assms
proof (induction "length (read_buffer s)" arbitrary: s e ms rule: less_induct)
  case less
  note unfold = read_frames.simps [of H p s e]
  have stops: ?case
    if fail: "fail_and_close H p err (s\<lparr>read_buffer := rest\<rparr>, e) = (Inr (), (s', e'))"
      and ms: "ms = []" and how: "how \<noteq> Pending" for err
  proof -
    let ?s = "s\<lparr>read_buffer := rest\<rparr>"
    have "is_open ?s" using less.prems(2) by simp
    then obtain e2 where "fail_and_close H p err (?s, e) = (Inr (), (closed ?s, e2))" "shuts ?s e e2"
      "trace e2 = trace e @ write_calls (queued_cbs ?s) err @ close_calls p ?s"
      by (rule fail_and_close_run)
    moreover have "shuts ?s = shuts s" by (rule shut_same) simp_all
    ultimately have s': "s' = closed ?s" "shuts s e e'" "trace e' = trace e @ write_calls (queued_cbs s) err @ close_calls p s"
      using fail by simp_all
    then show ?thesis using ms how shuts_delivers [of s e e' "queued_cbs s" err p s'] by (simp add: handed_def)
  qed
  show ?case
  proof (cases rule: parse_stream_cases [of "read_buffer s" decode])
    case pending
    then have "s' = s\<lparr>read_buffer := rest\<rparr>" "e' = e" "ms = []" "how = Pending"
      using less.prems by (simp_all add: unfold)
    then show ?thesis using less.prems(2) by (auto simp: delivers_def handed_def intro: posted_refl exI [of _ "[]"])
  next
    case oversized
    then show ?thesis using less.prems by (intro stops [of EMSGSIZE]) (simp_all add: unfold)
  next
    case (malformed body rest')
    then show ?thesis using less.prems by (intro stops [of EPROTO]) (simp_all add: unfold Let_def)
  next
    case (message body rest' m)
    let ?s = "s\<lparr>read_buffer := rest'\<rparr>"
    obtain r1 e1 where call: "call_message H p ?s m e = (r1, e1)" by (cases "call_message H p ?s m e")
    obtain ms' where ms': "parse_stream decode rest' = (ms', how, rest)" "ms = m # ms'"
      using message(3) less.prems(3) by (auto split: prod.splits)
    have run: "r1 = Inr ()" "read_frames H p (?s, e1) = (Inr (), (s', e'))"
      using less.prems(1,2) message(1,2) call by (auto simp: unfold Let_def split: sum.splits)
    have IH: "s' = (if how = Pending then ?s\<lparr>read_buffer := rest\<rparr> else closed (?s\<lparr>read_buffer := rest\<rparr>)) \<and>
        delivers p (handed ?s ms') ?s e1 s' e'"
      by (rule less.hyps)
         (use try_pop_frame_shorter [OF message(1)] run(2) less.prems(2) ms'(1) in simp_all)
    have "delivers p (handed ?s [m] @ handed ?s ms') s e s' e'"
      using call_message_frame [OF call] run(1)
      by (intro delivers_trans [OF _ _ _ _ _ _ _ IH [THEN conjunct2]]) auto
    then show ?thesis
      using IH [THEN conjunct1] ms'(2) handed_append [of s "[m]" ms'] by (simp add: handed_def)
  qed
qed

end

end
