(* ===== verification/Session_Frame.thy ===== *)
theory Session_Frame
  imports Session_Laws
begin

text \<open>
  What any operation of a session may touch: its own record, its own registration, and the owner's
  view of it when it closes. The tasks and events of one session leave the deliveries and closings
  of every other session alone, and none of them loses a wakeup.
\<close>

definition op_frame ::
    "('x env_scheme \<Rightarrow> 'v) \<Rightarrow> (close_handler \<Rightarrow> u64 \<Rightarrow> 'v \<Rightarrow> 'v) \<Rightarrow> ptr \<Rightarrow>
     session \<Rightarrow> 'x env_scheme \<Rightarrow> session \<Rightarrow> 'x env_scheme \<Rightarrow> bool" where
  "op_frame view closing p s e s' e' \<longleftrightarrow>
     session_id s' = session_id s \<and> close_cb s' = close_cb s \<and> msg_handler s' = msg_handler s \<and>
     (if is_open s' then is_open s \<and> socket_fd s' = socket_fd s \<and> registered s' = registered s
      else (is_open s \<longrightarrow> socket_fd s' = -1 \<and> \<not> registered s') \<and>
        (\<not> is_open s \<longrightarrow> socket_fd s' = socket_fd s \<and> registered s' = registered s)) \<and>
     handlers e' = (if is_open s \<and> \<not> is_open s' then detached s (handlers e) else handlers e) \<and>
     view e' = (if is_open s \<and> \<not> is_open s' then forgotten closing s (view e) else view e) \<and>
     posted e e' \<and> (wake_inv e \<longrightarrow> wake_inv e') \<and> (queue_ok s \<longrightarrow> queue_ok s') \<and>
     (\<forall>q. q \<noteq> p \<longrightarrow> delivered q (trace e') = delivered q (trace e) \<and> closings q (trace e') = closings q (trace e))"

lemma detached_same: "registered s' = registered s \<Longrightarrow> socket_fd s' = socket_fd s \<Longrightarrow> detached s' = detached s"
  by (intro ext) (simp only: detached_def)

lemma forgotten_same: "close_cb s' = close_cb s \<Longrightarrow> session_id s' = session_id s \<Longrightarrow> forgotten closing s' = forgotten closing s"
  by (intro ext) (simp only: forgotten_def)

lemma op_frame_trans:
  assumes "op_frame view closing p s e s1 e1" and "op_frame view closing p s1 e1 s2 e2"
  shows "op_frame view closing p s e s2 e2"
proof (cases "is_open s1")
  case True
  then have "detached s1 = detached s" "forgotten closing s1 = forgotten closing s"
    using assms(1) by (auto simp: op_frame_def intro: detached_same forgotten_same)
  with True show ?thesis using assms posted_trans [of e e1 e2] by (auto simp: op_frame_def)
next
  case False
  then show ?thesis using assms posted_trans [of e e1 e2] by (auto simp: op_frame_def split: if_splits)
qed

lemma op_frame_refl: "op_frame view closing p s e s e"
  by (simp add: op_frame_def posted_refl)

lemma write_calls_silent:
  "delivered q (write_calls hs err @ write_calls ks err') = [] \<and>
   closings q (write_calls hs err @ write_calls ks err') = 0"
  by simp

text \<open>A change of the session's own buffers, before or after.\<close>

lemma op_frame_kernel:
  "op_frame view closing p s e s' e' \<Longrightarrow> op_frame view closing p (s\<lparr>rx := as, tx := bs\<rparr>) e s' e'"
  "op_frame view closing p (s\<lparr>rx := as, tx := bs\<rparr>) e s' e' \<Longrightarrow> op_frame view closing p s e s' e'"
  using detached_same [of "s\<lparr>rx := as, tx := bs\<rparr>" s] forgotten_same [of "s\<lparr>rx := as, tx := bs\<rparr>" s closing]
  by (auto simp: op_frame_def queue_ok_def split: if_splits)

context session_hooks
begin

abbreviation frames :: "ptr \<Rightarrow> session \<Rightarrow> 'x env_scheme \<Rightarrow> session \<Rightarrow> 'x env_scheme \<Rightarrow> bool" where
  "frames \<equiv> op_frame view closing"

lemma shuts_frames:
  assumes "shuts s e e'" and "trace e' = trace e @ cs @ close_calls p s"
    and "\<And>q. delivered q cs = [] \<and> closings q cs = 0" and "is_open s"
    and "session_id s1 = session_id s" "close_cb s1 = close_cb s" "msg_handler s1 = msg_handler s"
  shows "frames p s e (closed s1) e'"
  using assms by (auto simp: op_frame_def shut_def posted_refl)

lemma close_from_loop_frames:
  assumes "close_from_loop H p (s, e) = (Inr (), (s', e'))"
  shows "frames p s e s' e'"
proof (cases "is_open s")
  case True
  obtain e1 where "close_from_loop H p (s, e) = (Inr (), (closed s, e1))" "shuts s e e1"
    "trace e1 = trace e @ write_calls (queued_cbs s) ENOTCONN @ close_calls p s"
    using close_from_loop_run [OF True] by blast
  then show ?thesis using assms True by (auto intro: shuts_frames)
next
  case False
  then show ?thesis using assms by (simp add: close_from_loop_def op_frame_refl)
qed

lemma fail_and_close_frames:
  assumes "fail_and_close H p err (s, e) = (Inr (), (s', e'))" and "is_open s"
  shows "frames p s e s' e'"
proof -
  obtain e1 where "fail_and_close H p err (s, e) = (Inr (), (closed s, e1))" "shuts s e e1"
    "trace e1 = trace e @ write_calls (queued_cbs s) err @ close_calls p s"
    using fail_and_close_run [OF assms(2)] by blast
  then show ?thesis using assms by (auto intro: shuts_frames)
qed

lemma async_write_frames:
  assumes "async_write H p (s, e) = (Inr (), (s', e'))" and "is_open s" and "queue_ok s"
  shows "frames p s e s' e'"
  using assms
proof (cases rule: async_write_run)
  case (stays e1 sent)
  then have adv: "advanced s s'" by (simp add: wrote_def)
  show ?thesis
    using stays advanced_same [OF adv] assms(2) by (simp add: op_frame_def wrote_def undisturbed_def posted_refl)
next
  case (fails s1 sent err)
  then have adv: "advanced s s1" by (simp add: gave_up_def)
  note same = advanced_same [OF adv]
  obtain failed where t: "trace e' = trace e @ (write_calls sent 0 @ write_calls failed err) @ close_calls p s"
    and sh: "shuts s e e'" using fails(2) by (auto simp: gave_up_def)
  have "frames p s e (closed s1) e'"
    by (rule shuts_frames [OF sh t write_calls_silent assms(2)]) (simp_all add: same)
  then show ?thesis using fails(1) by simp
qed

lemma op_frame_cerrno:
  "frames p s (e\<lparr>cerrno := c\<rparr>) s' e' \<Longrightarrow> frames p s e s' e'"
  using undisturbed_cerrno [of e c]
  by (auto simp: op_frame_def undisturbed_def posted_def split: if_splits)

lemma async_read_frames:
  assumes "async_read H p (s, e) = (Inr (), (s', e'))" and "is_open s" and "queue_ok s"
  shows "frames p s e s' e'"
proof -
  obtain b stop rest where r: "recv_all (rx s) (read_buffer s) = (b, stop, rest)"
    by (cases "recv_all (rx s) (read_buffer s)")
  let ?s = "s\<lparr>read_buffer := b, rx := rest\<rparr>"
  have pre: "frames p s e ?s e"
    using assms(2) by (simp add: op_frame_def queue_ok_def posted_refl)
  have open': "is_open ?s" using assms(2) by simp
  have "frames p ?s e s' e'"
  proof (cases stop)
    case Eof
    then show ?thesis using assms(1,2) r by (intro close_from_loop_frames) (simp add: async_read_def)
  next
    case (Failed err)
    then have "fail_and_close H p err (?s, e\<lparr>cerrno := err\<rparr>) = (Inr (), (s', e'))"
      using assms(1,2) r by (simp add: async_read_def)
    then show ?thesis using fail_and_close_frames open' op_frame_cerrno by blast
  next
    case Drained
    obtain ms how left where ms: "parse_stream decode (read_buffer ?s) = (ms, how, left)"
      by (cases "parse_stream decode (read_buffer ?s)")
    have "read_frames H p (?s, e\<lparr>cerrno := EAGAIN\<rparr>) = (Inr (), (s', e'))"
      using assms(1,2) r Drained by (simp add: async_read_def)
    from read_frames_run [OF this open' ms]
    have s': "s' = (if how = Pending then ?s\<lparr>read_buffer := left\<rparr> else closed (?s\<lparr>read_buffer := left\<rparr>))"
      and d: "delivers p (handed ?s ms) ?s (e\<lparr>cerrno := EAGAIN\<rparr>) s' e'"
      by blast+
    from d have "frames p ?s (e\<lparr>cerrno := EAGAIN\<rparr>) s' e'"
      using s' assms(2) by (auto simp: op_frame_def delivers_def queue_ok_def)
    then show ?thesis by (rule op_frame_cerrno)
  qed
  with pre show ?thesis by (rule op_frame_trans)
qed

lemma update_events_frames:
  assumes "update_events (s, e) = (Inr (), (s', e'))"
  shows "frames p s e s' e' \<and> s' = s"
proof (cases "registered s \<and> is_open s")
  case True
  obtain r1 e1 where m: "loop_modify (socket_fd s) (wanted_events s) e = (r1, e1)"
    by (cases "loop_modify (socket_fd s) (wanted_events s) e")
  note f = loop_modify_frame [OF m]
  have "s' = s" "e' = e1" using assms True m by (simp_all add: update_events_def on_snd_run)
  then show ?thesis
    using True f(1,2) event_loop_more_trace [OF f(8)] view_more [OF f(8)] wake_inv_frame [OF f(2,6,9)]
    by (simp add: op_frame_def posted_refl)
next
  case False
  then have "s' = s" "e' = e" using assms by (simp_all add: update_events_def)
  then show ?thesis by (simp add: op_frame_refl)
qed

lemma run_send_frames:
  assumes "run_send H p frame cb (s, e) = (Inr (), (s', e'))" and "queue_ok s" and "frame \<noteq> []"
  shows "frames p s e s' e'"
proof (cases "is_open s")
  case True
  let ?s = "s\<lparr>write_queue := write_queue s @ [\<lparr>frame_bytes = frame, written = 0, write_cb = cb\<rparr>]\<rparr>"
  have pre: "frames p s e ?s e" and ok: "queue_ok ?s"
    using True assms(2,3) by (simp_all add: op_frame_def queue_ok_def posted_refl)
  obtain s1 e1 where u: "update_events (?s, e) = (Inr (), (s1, e1))"
      and w: "async_write H p (s1, e1) = (Inr (), (s', e'))"
    using assms(1) True
    by (auto simp: run_send_def seq_run [of update_events] split: prod.splits sum.splits)
  have "frames p ?s e ?s e1" "s1 = ?s" using update_events_frames [OF u, of p] by blast+
  moreover have "frames p ?s e1 s' e'"
    using async_write_frames [OF w] ok True \<open>s1 = ?s\<close> by simp
  ultimately show ?thesis using op_frame_trans [OF pre op_frame_trans] by blast
next
  case False
  obtain e1 where "call_write (on_write H) cb ENOTCONN e = (Inr (), e1)" "undisturbed view e e1"
    "trace e1 = trace e @ write_calls [cb] ENOTCONN"
    by (rule call_write_run)
  then show ?thesis
    using assms(1) False by (simp add: run_send_def on_snd_run op_frame_def undisturbed_def posted_refl del: write_calls.simps)
qed

lemma handle_events_frames:
  assumes "handle_events H p ev (s, e) = (Inr (), (s', e'))" and "queue_ok s"
  shows "frames p s e s' e'"
proof -
  consider "\<not> is_open s" | "is_open s" "ev AND (EPOLLERR OR EPOLLHUP) \<noteq> 0"
    | "is_open s" "ev AND (EPOLLERR OR EPOLLHUP) = 0" by blast
  then show ?thesis
  proof cases
    case 1
    then show ?thesis using assms(1) by (simp add: handle_events_def op_frame_refl)
  next
    case 2
    then show ?thesis using assms(1) by (intro close_from_loop_frames) (simp add: handle_events_def)
  next
    case 3
    let ?rd = "if ev AND EPOLLIN \<noteq> 0 then async_read H p else ret ()"
    let ?wr = "\<lambda>(s, e). if is_open s \<and> ev AND EPOLLOUT \<noteq> 0 then async_write H p (s, e) else ret () (s, e)"
    let ?cl = "\<lambda>(s, e). if is_open s \<and> ev AND EPOLLRDHUP \<noteq> 0 then close_from_loop H p (s, e) else ret () (s, e)"
    have run: "seq ?rd (seq ?wr ?cl) (s, e) = (Inr (), (s', e'))"
      using 3 assms(1) by (simp add: handle_events_def)
    obtain s1 e1 where rd: "?rd (s, e) = (Inr (), (s1, e1))" and run1: "seq ?wr ?cl (s1, e1) = (Inr (), (s', e'))"
      using run by (auto simp: seq_run [of ?rd] split: prod.splits sum.splits)
    obtain s2 e2 where wr: "?wr (s1, e1) = (Inr (), (s2, e2))" and cl: "?cl (s2, e2) = (Inr (), (s', e'))"
      using run1 by (auto simp: seq_run [of ?wr] split: prod.splits sum.splits)
    have f1: "frames p s e s1 e1"
      using rd 3 assms(2) async_read_frames by (auto simp: op_frame_refl split: if_splits)
    then have "queue_ok s1" using assms(2) by (simp add: op_frame_def)
    then have f2: "frames p s1 e1 s2 e2"
      using wr async_write_frames by (auto simp: op_frame_refl split: if_splits)
    have f3: "frames p s2 e2 s' e'"
      using cl close_from_loop_frames by (auto simp: op_frame_refl split: if_splits)
    show ?thesis by (rule op_frame_trans [OF f1 op_frame_trans [OF f2 f3]])
  qed
qed

section \<open>Tasks and wakeups\<close>

text \<open>Whatever the queues hold, a task of a session keeps the loop's promise.\<close>

lemma call_write_wakes: "wakes_loop (call_write (on_write H) h err)"
proof -
  have "wake_inv e'" if "wake_inv e" "call_write (on_write H) h err e = (Inr x, e')" for e x e'
    using that call_write_run [of h err e] by (metis Pair_inject undisturbed_def)
  then show ?thesis by (auto simp: wakes_loop_def)
qed

lemma close_from_loop_wakes: "wakes (close_from_loop H p)"
proof (rule wakesI)
  fix s and e :: "'x env_scheme" and x s' e'
  assume "wake_inv e" "close_from_loop H p (s, e) = (Inr x, (s', e'))"
  then show "wake_inv e'" using close_from_loop_frames [of p s e s' e'] by (simp add: op_frame_def)
qed

lemma fail_and_close_wakes: "wakes (fail_and_close H p err)"
proof -
  have "wakes (flush_queue H err)"
  proof (rule wakesI)
    fix s and e :: "'x env_scheme" and x s' e'
    assume "wake_inv e" "flush_queue H err (s, e) = (Inr x, (s', e'))"
    then show "wake_inv e'" using flush_queue_run [of err s e] by (metis Pair_inject undisturbed_def)
  qed
  then show ?thesis unfolding fail_and_close_def by (rule wakes_seq) (rule close_from_loop_wakes)
qed

lemma wake_inv_cerrno: "wake_inv (e\<lparr>cerrno := c\<rparr>) = wake_inv e"
  by (simp add: wake_inv_def)

lemma write_loop_wakes: "wakes (write_loop H p)"
proof (rule wakesI)
  fix s and e :: "'x env_scheme" and x s' e'
  assume "wake_inv e" "write_loop H p (s, e) = (Inr x, (s', e'))"
  then show "wake_inv e'"
  proof (induction "length (tx s)" arbitrary: s e rule: less_induct)
    case less
    have fail: "wake_inv e'"
      if "seq (fail_and_close H p err) (ret False) (s1, e1) = (Inr x, (s', e'))" "wake_inv e1" for err s1 e1
      by (rule wakesD [OF wakes_seq [OF fail_and_close_wakes wakes_ret] that(2,1)])
    show ?case
    proof (cases "is_open s \<and> write_queue s \<noteq> [] \<and> tx s \<noteq> []")
      case False
      then consider "\<not> is_open s" | "is_open s" "write_queue s = []"
        | f q where "is_open s" "write_queue s = f # q" "tx s = []"
        by (meson neq_Nil_conv)
      then show ?thesis
        using less.prems by cases (auto simp: write_loop.simps [of H p s e] wake_inv_cerrno)
    next
      case True
      then obtain f q a as where wq: "write_queue s = f # q" "tx s = a # as"
        by (meson neq_Nil_conv)
      have IH: "wake_inv e'" if "write_loop H p (s1, e1) = (Inr x, (s', e'))" "wake_inv e1" "tx s1 = as" for s1 e1
        using less.hyps [of s1 e1] that wq(2) by simp
      note unfold = write_loop.simps [of H p s e]
      show ?thesis
      proof (cases a)
        case (SendError err)
        consider "err = EAGAIN" | "err = EINTR" | "err \<noteq> EAGAIN" "err \<noteq> EINTR" by blast
        then show ?thesis
          using less.prems wq True SendError
          by cases (auto simp: unfold wake_inv_cerrno intro: IH fail)
      next
        case (SendBytes k)
        define n where "n = min k (length (frame_bytes f) - written f)"
        let ?s1 = "s\<lparr>tx := as, wire := wire s @ take n (drop (written f) (frame_bytes f))\<rparr>"
        consider "n = 0" | "n > 0" "written f + n = length (frame_bytes f)"
          | "n > 0" "written f + n \<noteq> length (frame_bytes f)" by blast
        then show ?thesis
        proof cases
          case 1
          have "write_loop H p (s, e) = seq (fail_and_close H p (cerrno e)) (ret False) (s\<lparr>tx := as\<rparr>, e)"
            using True wq SendBytes 1 by (auto simp: unfold Let_def n_def min_def split: if_splits)
          then show ?thesis using less.prems fail by simp
        next
          case 2
          obtain e1 where w: "call_write (on_write H) (write_cb f) 0 e = (Inr (), e1)" "undisturbed view e e1"
            by (rule call_write_run)
          have "write_loop H p (s, e) = write_loop H p (?s1\<lparr>write_queue := q\<rparr>, e1)"
            using True wq SendBytes w(1) 2 by (simp add: unfold Let_def n_def [symmetric] del: min_less_iff_conj)
          then show ?thesis
            using less.prems w(2) IH [of "?s1\<lparr>write_queue := q\<rparr>" e1] by (simp add: undisturbed_def)
        next
          case 3
          have "write_loop H p (s, e) = write_loop H p (?s1\<lparr>write_queue := f\<lparr>written := written f + n\<rparr> # q\<rparr>, e)"
            using True wq SendBytes 3 by (simp add: unfold Let_def n_def [symmetric] del: min_less_iff_conj)
          then show ?thesis
            using less.prems IH [of "?s1\<lparr>write_queue := f\<lparr>written := written f + n\<rparr> # q\<rparr>" e] by simp
        qed
      qed
    qed
  qed
qed

lemma update_events_wakes: "wakes (update_events :: 'x sess_eff)"
proof (rule wakesI)
  fix s and e :: "'x env_scheme" and x s' e'
  assume "wake_inv e" "update_events (s, e) = (Inr x, (s', e'))"
  then show "wake_inv e'" using update_events_frames [of s e s' e' p] by (simp add: op_frame_def)
qed

lemma run_task_wakes: "wakes (run_task H t)"
proof -
  have in_heap: "wakes (with_session p m)" if "wakes m" for p and m :: "'x sess_eff"
  proof (rule wakesI)
    fix ob and e :: "'x env_scheme" and x ob' e'
    assume "wake_inv e" "with_session p m (ob, e) = (Inr x, (ob', e'))"
    then show "wake_inv e'"
      using that by (auto simp: with_session_def dest: wakesD split: option.splits prod.splits)
  qed
  have arm: "wakes (\<lambda>(s, e :: 'x env_scheme). if b \<and> is_open s then update_events (s, e) else ret () (s, e))" for b
    by (rule wakesI) (auto dest: wakesD [OF update_events_wakes] split: if_splits)
  have async: "wakes (async_write H p)" for p
    unfolding async_write_def by (rule wakes_bind [OF write_loop_wakes arm])
  have "wakes (run_send H p frame h)" for p frame h
  proof (rule wakesI)
    fix s and e :: "'x env_scheme" and x s' e'
    assume inv: "wake_inv e" and run: "run_send H p frame h (s, e) = (Inr x, (s', e'))"
    show "wake_inv e'"
    proof (cases "is_open s")
      case True
      then show ?thesis
        using inv run wakesD [OF wakes_seq [OF update_events_wakes async]] by (auto simp: run_send_def)
    next
      case False
      then show ?thesis
        using inv run call_write_wakes [of h ENOTCONN]
        by (auto simp: run_send_def on_snd_run wakes_loop_def split: prod.splits)
    qed
  qed
  then show ?thesis by (cases t) (simp_all add: in_heap close_from_loop_wakes)
qed

end

section \<open>One session among many\<close>

lemma with_session_cases:
  assumes "with_session p m (ob, e) = (Inr (), (ob', e'))"
  obtains (absent) "heap ob p = None" "ob' = ob" "e' = e"
  | (present) s s' where "heap ob p = Some s" "m (s, e) = (Inr (), (s', e'))"
      "ob' = ob\<lparr>heap := (heap ob)(p \<mapsto> s')\<rparr>"
  using assms by (cases "heap ob p") (auto simp: with_session_def split: prod.splits)

text \<open>All sessions of the process have well-formed queues.\<close>

definition queues_ok :: "objects \<Rightarrow> bool" where
  "queues_ok ob \<longleftrightarrow> (\<forall>p s. heap ob p = Some s \<longrightarrow> queue_ok s)"

context session_hooks
begin

lemma run_task_frames:
  assumes "run_task H t (ob, e) = (Inr (), (ob', e'))" and "task_ok t" and "queues_ok ob"
  obtains (absent) "ob' = ob" "e' = e"
  | (present) p s s' where "heap ob p = Some s" "ob' = ob\<lparr>heap := (heap ob)(p \<mapsto> s')\<rparr>" "frames p s e s' e'"
proof (cases t)
  case (SendTask p frame h)
  then have run: "with_session p (run_send H p frame h) (ob, e) = (Inr (), (ob', e'))" and "frame \<noteq> []"
    using assms(1,2) by simp_all
  from run show thesis
  proof (cases rule: with_session_cases)
    case (present s s')
    then show thesis
      using that(2) run_send_frames [OF present(2)] assms(3) \<open>frame \<noteq> []\<close> by (simp add: queues_ok_def)
  qed (use that in simp)
next
  case (CloseTask p)
  then have "with_session p (close_from_loop H p) (ob, e) = (Inr (), (ob', e'))" using assms(1) by simp
  then show thesis
    by (cases rule: with_session_cases) (use that close_from_loop_frames in auto)
qed

lemma session_events_frames:
  assumes "with_session p (handle_events H p ev) (ob, e) = (Inr (), (ob', e'))" and "queues_ok ob"
  obtains (absent) "ob' = ob" "e' = e"
  | (present) s s' where "heap ob p = Some s" "ob' = ob\<lparr>heap := (heap ob)(p \<mapsto> s')\<rparr>" "frames p s e s' e'"
  using assms(1)
proof (cases rule: with_session_cases)
  case (present s s')
  then show thesis using that(2) handle_events_frames [OF present(2)] assms(2) by (simp add: queues_ok_def)
qed (use that in simp)

end

section \<open>The handler table\<close>

text \<open>A handler of the loop that belongs to a session belongs to an open one, on its descriptor.\<close>

definition no_objects :: objects where
  "no_objects = \<lparr>heap = Map.empty, next_ptr = 0, next_id = 1\<rparr>"

definition table_inv :: "objects \<Rightarrow> (fd \<rightharpoonup> ev_handler) \<Rightarrow> bool" where
  "table_inv ob hs \<longleftrightarrow> (\<forall>fd p. hs fd = Some (SessionEvents p) \<longrightarrow>
     (\<exists>s. heap ob p = Some s \<and> is_open s \<and> registered s \<and> socket_fd s = fd))"

lemma table_inv_update:
  assumes "table_inv ob (handlers e)" "heap ob p = Some s" "op_frame view closing p s e s' e'"
  shows "table_inv (ob\<lparr>heap := (heap ob)(p \<mapsto> s')\<rparr>) (handlers e')"
  using assms by (fastforce simp: table_inv_def op_frame_def detached_def split: if_splits)

lemma session_start_run:
  assumes "session_start p (s, e) = (Inr (), (s', e'))"
  shows "s' = s\<lparr>registered := True\<rparr>" "handlers e' = (handlers e)(socket_fd s \<mapsto> SessionEvents p)"
    "tasks e' = tasks e" "event_loop.more e' = event_loop.more e"
proof -
  obtain e1 where n: "set_non_blocking (socket_fd s) e = (Inr (), e1)"
    and a: "loop_add (socket_fd s) (EPOLLIN OR EPOLLRDHUP) (SessionEvents p) e1 = (Inr (), e')"
    and s': "s' = s\<lparr>registered := True\<rparr>"
    using assms by (auto simp: session_start_def seq_run on_snd_run split: prod.splits sum.splits)
  show "s' = s\<lparr>registered := True\<rparr>" "handlers e' = (handlers e)(socket_fd s \<mapsto> SessionEvents p)"
    "tasks e' = tasks e" "event_loop.more e' = event_loop.more e"
    using s' set_non_blocking_frame(1,2,7) [OF n] loop_add_frame(1,2,8) [OF a] by simp_all
qed

end
