(* ===== verification/Session_History.thy ===== *)
theory Session_History
  imports Session_Frame
begin

text \<open>
  The life of one session as a step relation: the tasks and events that reach it, in any order,
  with whatever the kernel answers, and between them any steps of the rest of the program. Two
  ghost components record what went in: the frames its queue accepted and every answer of recv. The
  invariant says that the wire carries the accepted frames in order, never interleaved, and that
  the messages delivered are those of the bytes received, however they were cut into reads; all of them,
  unless the last read ended in end of file or an error, which drops the bytes of that read.
\<close>

section \<open>What recv answered\<close>

text \<open>The answers that one call of \<^verbatim>\<open>async_read\<close> takes, of those in store; it would block when there is no more.\<close>

fun heard :: "recv_answer list \<Rightarrow> recv_answer list" where
  "heard [] = [RecvError EAGAIN]"
| "heard (RecvBytes chunk # as) = RecvBytes chunk # (if chunk \<noteq> [] then heard as else [])"
| "heard (RecvError err # as) = RecvError err # (if err = EINTR then heard as else [])"

text \<open>All the bytes received\<close>

fun recv_bytes :: "recv_answer list \<Rightarrow> bytes" where
  "recv_bytes [] = []"
| "recv_bytes (RecvBytes chunk # as) = chunk @ recv_bytes as"
| "recv_bytes (RecvError err # as) = recv_bytes as"

text \<open>
  Those that are looked at for messages: the bytes of a read (\<open>b\<close> is what it has so far) are dropped when end
  of file or an error comes before recv would block.
\<close>

fun whole_reads :: "recv_answer list \<Rightarrow> bytes \<Rightarrow> bytes" where
  "whole_reads [] b = b"
| "whole_reads (RecvBytes chunk # as) b = (if chunk \<noteq> [] then whole_reads as (b @ chunk) else [])"
| "whole_reads (RecvError err # as) b =
     (if err = EAGAIN then b @ whole_reads as [] else if err = EINTR then whole_reads as b else [])"

abbreviation read_out :: "recv_answer list \<Rightarrow> bytes" where
  "read_out as \<equiv> whole_reads as []"

fun closing_answer :: "recv_answer \<Rightarrow> bool" where
  "closing_answer (RecvBytes chunk) = (chunk = [])"
| "closing_answer (RecvError err) = (err \<noteq> EAGAIN \<and> err \<noteq> EINTR)"

text \<open>Answers in which no read is under way at the end, and none was dropped\<close>

definition settled :: "recv_answer list \<Rightarrow> bool" where
  "settled as \<longleftrightarrow> (\<forall>bs. read_out (as @ bs) = recv_bytes as @ read_out bs)"

lemma settled_Nil [simp]: "settled []"
  by (simp add: settled_def)

lemma recv_bytes_append: "recv_bytes (as @ bs) = recv_bytes as @ recv_bytes bs"
  by (induction as rule: recv_bytes.induct) simp_all

lemma settled_append: "settled as \<Longrightarrow> settled bs \<Longrightarrow> settled (as @ bs)"
  by (simp add: settled_def recv_bytes_append)

lemma settled_read_out: "settled as \<Longrightarrow> read_out as = recv_bytes as"
  unfolding settled_def by (metis append_Nil2 whole_reads.simps(1))

lemma whole_reads_would_block: "whole_reads (as @ [RecvError EAGAIN]) b = whole_reads as b"
  by (induction as b rule: whole_reads.induct) simp_all

lemma recv_all_append:
  "recv_all as (b @ c) = (case recv_all as c of (d, stop, rest) \<Rightarrow> (b @ d, stop, rest))"
  by (induction as c rule: recv_all.induct) (auto split: prod.splits)

lemma recv_all_nil: "recv_all as b = (case recv_all as [] of (d, stop, rest) \<Rightarrow> (b @ d, stop, rest))"
  using recv_all_append [of as b "[]"] by simp

text \<open>One call of \<^verbatim>\<open>async_read\<close>, by what it hears\<close>

lemma recv_all_heard:
  assumes "recv_all as c = (c @ bs, stop, rest)"
  shows "recv_bytes (heard as) = bs"
    and "stop = Drained \<Longrightarrow> whole_reads (heard as @ ys) b = b @ bs @ read_out ys"
    and "stop \<noteq> Drained \<Longrightarrow> whole_reads (heard as) b = [] \<and> heard as \<noteq> [] \<and> closing_answer (last (heard as))"
    and "\<exists>k. rest = drop k as \<and> (heard as = take k as \<or> rest = [] \<and> stop = Drained \<and> heard as = take k as @ [RecvError EAGAIN])"
proof -
  have "recv_bytes (heard as) = bs \<and>
    (stop = Drained \<longrightarrow> whole_reads (heard as @ ys) b = b @ bs @ read_out ys) \<and>
    (stop \<noteq> Drained \<longrightarrow> whole_reads (heard as) b = [] \<and> heard as \<noteq> [] \<and> closing_answer (last (heard as))) \<and>
    (\<exists>k. rest = drop k as \<and> (heard as = take k as \<or> rest = [] \<and> stop = Drained \<and> heard as = take k as @ [RecvError EAGAIN]))"
    using assms
  proof (induction as arbitrary: b c bs)
    case (Cons a as)
    have nonempty: "heard as \<noteq> []" by (cases as rule: heard.cases) simp_all
    have more: ?case
      if "recv_all as c' = (c' @ bs', stop, rest)" "heard (a # as) = a # heard as" "bs = chunk @ bs'"
        "\<And>as. recv_bytes (a # as) = chunk @ recv_bytes as" "\<And>as. whole_reads (a # as) b = whole_reads as (b @ chunk)"
      for c' bs' chunk
    proof -
      note IH = Cons.IH [OF that(1), of "b @ chunk"]
      obtain k where "rest = drop k as" "heard as = take k as \<or> rest = [] \<and> stop = Drained \<and> heard as = take k as @ [RecvError EAGAIN]"
        using IH by blast
      then have "\<exists>k. rest = drop k (a # as) \<and> (heard (a # as) = take k (a # as) \<or>
          rest = [] \<and> stop = Drained \<and> heard (a # as) = take k (a # as) @ [RecvError EAGAIN])"
        by (intro exI [of _ "Suc k"]) (auto simp: that(2))
      moreover have "recv_bytes (heard (a # as)) = bs" using IH that(2-4) by simp
      moreover have "stop = Drained \<longrightarrow> whole_reads (heard (a # as) @ ys) b = b @ bs @ read_out ys"
        using IH that(2,3,5) by simp
      moreover have "stop \<noteq> Drained \<longrightarrow> whole_reads (heard (a # as)) b = [] \<and> heard (a # as) \<noteq> [] \<and> closing_answer (last (heard (a # as)))"
        using IH that(2,5) nonempty by simp
      ultimately show ?thesis by (intro conjI)
    qed
    have stops: ?case if "stop = Drained \<longleftrightarrow> a = RecvError EAGAIN" "heard (a # as) = [a]" "bs = []" "rest = as"
        "closing_answer a \<or> a = RecvError EAGAIN"
      using that by (cases a) (auto intro: exI [of _ 1])
    show ?case
    proof (cases a)
      case (RecvBytes chunk)
      show ?thesis
      proof (cases "chunk = []")
        case True
        then show ?thesis using Cons.prems RecvBytes by (intro stops) simp_all
      next
        case False
        obtain bs' where "recv_all as [] = (bs', stop, rest)"
          using Cons.prems RecvBytes False recv_all_nil [of as "c @ chunk"] by (auto split: prod.splits)
        then show ?thesis
          using Cons.prems RecvBytes False recv_all_nil [of as "c @ chunk"]
          by (intro more [of "[]" bs' chunk]) auto
      qed
    next
      case (RecvError err)
      consider "err = EAGAIN" | "err = EINTR" "err \<noteq> EAGAIN" | "err \<noteq> EAGAIN" "err \<noteq> EINTR" by blast
      then show ?thesis
      proof cases
        case 1
        then show ?thesis using Cons.prems RecvError by (intro stops) simp_all
      next
        case 2
        then show ?thesis using Cons.prems RecvError by (intro more [of c bs "[]"]) auto
      next
        case 3
        then show ?thesis using Cons.prems RecvError by (intro stops) auto
      qed
    qed
  qed (auto intro: exI [of _ 0])
  then show "recv_bytes (heard as) = bs"
    and "stop = Drained \<Longrightarrow> whole_reads (heard as @ ys) b = b @ bs @ read_out ys"
    and "stop \<noteq> Drained \<Longrightarrow> whole_reads (heard as) b = [] \<and> heard as \<noteq> [] \<and> closing_answer (last (heard as))"
    and "\<exists>k. rest = drop k as \<and> (heard as = take k as \<or> rest = [] \<and> stop = Drained \<and> heard as = take k as @ [RecvError EAGAIN])"
    by blast+
qed

lemmas recv_all_heard_Nil = recv_all_heard [where c = "[]", unfolded append_Nil]

lemma settled_heard: "recv_all as [] = (bs, Drained, rest) \<Longrightarrow> settled (heard as)"
  using recv_all_heard_Nil(1,2) [of as bs Drained rest] by (simp add: settled_def)

section \<open>Steps\<close>

text \<open>What the events \<open>ev\<close> make a session hear\<close>

definition input_of :: "session \<Rightarrow> u32 \<Rightarrow> recv_answer list \<Rightarrow> recv_answer list" where
  "input_of s ev as =
     (if is_open s \<and> ev AND (EPOLLERR OR EPOLLHUP) = 0 \<and> ev AND EPOLLIN \<noteq> 0 then heard as else [])"

type_synonym 'x history = "session \<times> 'x env_scheme \<times> bytes list \<times> recv_answer list"

inductive session_step :: "'x hooks \<Rightarrow> ptr \<Rightarrow> 'x history \<Rightarrow> 'x history \<Rightarrow> bool"
  for H :: "'x hooks" and p :: ptr where
  sends: "run_send H p frame cb (s, e) = (Inr (), (s', e')) \<Longrightarrow> frame \<noteq> [] \<Longrightarrow>
    session_step H p (s, e, acc, inp) (s', e', acc @ (if is_open s then [frame] else []), inp)"
| closes: "close_from_loop H p (s, e) = (Inr (), (s', e')) \<Longrightarrow>
    session_step H p (s, e, acc, inp) (s', e', acc, inp)"
| events: "handle_events H p ev (s\<lparr>rx := as, tx := bs\<rparr>, e) = (Inr (), (s', e')) \<Longrightarrow>
    session_step H p (s, e, acc, inp) (s', e', acc, inp @ input_of s ev as)"
| others: "delivered p (trace e') = delivered p (trace e) \<Longrightarrow> closings p (trace e') = closings p (trace e) \<Longrightarrow>
    session_step H p (s, e, acc, inp) (s, e', acc, inp)"

inductive_cases session_stepE: "session_step H p (s, e, acc, inp) h'"

abbreviation session_run :: "'x hooks \<Rightarrow> ptr \<Rightarrow> 'x history \<Rightarrow> 'x history \<Rightarrow> bool" where
  "session_run H p \<equiv> (session_step H p)\<^sup>*\<^sup>*"

section \<open>The invariant\<close>

definition history_inv :: "ptr \<Rightarrow> 'x history \<Rightarrow> bool" where
  "history_inv p = (\<lambda>(s, e, acc, inp).
     msg_handler s \<noteq> None \<and> close_cb s \<noteq> None \<and> queue_ok s \<and>
     closings p (trace e) = (if is_open s then 0 else 1) \<and>
     (if is_open s
      then out_stream s = concat acc \<and> settled inp \<and>
        parse_stream decode (read_out inp) = (delivered p (trace e), Pending, read_buffer s)
      else write_queue s = [] \<and> socket_fd s = -1 \<and> \<not> registered s \<and>
        prefix (wire s) (concat acc) \<and> delivered p (trace e) = fst (parse_stream decode (read_out inp)) \<and>
        (settled inp \<or> inp \<noteq> [] \<and> closing_answer (last inp))))"

lemma history_inv_start:
  "delivered p (trace e) = [] \<Longrightarrow> closings p (trace e) = 0 \<Longrightarrow>
   history_inv p ((new_session fd sid)\<lparr>msg_handler := Some h, close_cb := Some c\<rparr>, e, [], [])"
  by (simp add: history_inv_def new_session_def queue_ok_def out_stream_def unsent_def
      parse_stream.simps try_pop_frame_def kFrameHeaderSize_def)

lemma out_stream_closed: "out_stream (closed s) = wire s"
  by (simp add: out_stream_def)

lemma prefix_wire: "prefix (wire s) (out_stream s)"
  by (simp add: out_stream_def)

lemma history_inv_closed:
  assumes "history_inv p (s, e, acc, inp)" and "is_open s"
    and "prefix (wire s') (concat acc)" and "msg_handler s' = msg_handler s" "close_cb s' = close_cb s"
    and "closings p (trace e') = Suc (closings p (trace e))"
    and "delivered p (trace e') = fst (parse_stream decode (read_out inp'))"
    and "settled inp' \<or> inp' \<noteq> [] \<and> closing_answer (last inp')"
  shows "history_inv p (closed s', e', acc, inp')"
  using assms by (simp add: history_inv_def)

lemma history_inv_read_out:
  "history_inv p (s, e, acc, inp) \<Longrightarrow> read_out inp = recv_bytes inp \<or> \<not> is_open s \<and> closing_answer (last inp)"
  by (auto simp: history_inv_def settled_read_out split: if_splits)

lemma history_inv_kernel:
  "history_inv p (s, e, acc, inp) \<Longrightarrow> history_inv p (s\<lparr>rx := as, tx := bs\<rparr>, e, acc, inp)"
  by (cases "is_open s") (simp_all add: history_inv_def queue_ok_def out_stream_def unsent_def)

context session_hooks
begin

lemma close_from_loop_inv:
  assumes "history_inv p (s, e, acc, inp)" and "close_from_loop H p (s, e) = (Inr (), (s', e'))"
  shows "history_inv p (s', e', acc, inp)"
proof (cases "is_open s")
  case True
  obtain e1 where "close_from_loop H p (s, e) = (Inr (), (closed s, e1))"
    "trace e1 = trace e @ write_calls (queued_cbs s) ENOTCONN @ close_calls p s"
    using close_from_loop_run [OF True] by blast
  moreover have "close_cb s \<noteq> None" using assms(1) by (simp add: history_inv_def)
  ultimately have "s' = closed s" "delivered p (trace e') = delivered p (trace e)"
    "closings p (trace e') = Suc (closings p (trace e))" using assms(2) by simp_all
  then show ?thesis
    using history_inv_closed [OF assms(1) True, of s e' inp] assms(1) True prefix_wire [of s]
    by (simp add: history_inv_def)
next
  case False
  then have "s' = s" "e' = e" using assms(2) by (simp_all add: close_from_loop_def)
  then show ?thesis using assms(1) by simp
qed

lemma async_write_inv:
  assumes "history_inv p (s, e, acc, inp)" and "is_open s" and "async_write H p (s, e) = (Inr (), (s', e'))"
  shows "history_inv p (s', e', acc, inp)"
proof -
  have "queue_ok s" and cb: "close_cb s \<noteq> None" using assms(1) by (simp_all add: history_inv_def)
  from assms(3,2) this(1) show ?thesis
  proof (cases rule: async_write_run)
    case (stays e1 sent)
    then have adv: "advanced s s'" and "queue_ok s'" and "delivered p (trace e') = delivered p (trace e)"
      "closings p (trace e') = closings p (trace e)" by (simp_all add: wrote_def)
    then show ?thesis
      using assms(1,2) advanced_same [OF adv] by (simp add: history_inv_def advanced_def)
  next
    case (fails s1 sent err)
    then have adv: "advanced s s1" and "delivered p (trace e') = delivered p (trace e)"
      "closings p (trace e') = Suc (closings p (trace e))" using cb by (auto simp: gave_up_def)
    moreover have "prefix (wire s1) (concat acc)"
      using assms(1,2) prefix_wire [of s1] adv by (simp add: history_inv_def advanced_def)
    ultimately show ?thesis
      using history_inv_closed [OF assms(1,2)] advanced_same [OF adv] assms(1,2) fails(1)
      by (simp add: history_inv_def)
  qed
qed

lemma run_send_inv:
  assumes "history_inv p (s, e, acc, inp)" and "run_send H p frame cb (s, e) = (Inr (), (s', e'))" and "frame \<noteq> []"
  shows "history_inv p (s', e', acc @ (if is_open s then [frame] else []), inp)"
proof (cases "is_open s")
  case True
  let ?s = "s\<lparr>write_queue := write_queue s @ [\<lparr>frame_bytes = frame, written = 0, write_cb = cb\<rparr>]\<rparr>"
  obtain e1 where u: "update_events (?s, e) = (Inr (), (?s, e1))" "delivered p (trace e1) = delivered p (trace e)"
      "closings p (trace e1) = closings p (trace e)"
    and w: "async_write H p (?s, e1) = (Inr (), (s', e'))"
  proof (cases "registered s")
    case reg: True
    obtain r1 e1 where m: "loop_modify (socket_fd s) (wanted_events ?s) e = (r1, e1)"
      by (cases "loop_modify (socket_fd s) (wanted_events ?s) e")
    have u: "update_events (?s, e) = (r1, (?s, e1))" using m reg True by (simp add: update_events_def on_snd_run)
    then have "r1 = Inr ()" "async_write H p (?s, e1) = (Inr (), (s', e'))"
      using assms(2) True by (cases r1; simp add: run_send_def seq_run)+
    then show thesis using that [of e1] u event_loop_more_trace [OF loop_modify_frame(8) [OF m]] by simp
  next
    case False
    then have "update_events (?s, e) = (Inr (), (?s, e))" by (simp add: update_events_def)
    then show thesis using that [of e] assms(2) True by (simp add: run_send_def seq_run)
  qed
  have "history_inv p (?s, e1, acc @ [frame], inp)"
    using assms(1,3) True u(2,3) by (simp add: history_inv_def queue_ok_def out_stream_def unsent_def)
  then show ?thesis using async_write_inv [OF _ _ w] True by simp
next
  case False
  obtain e1 where "call_write (on_write H) cb ENOTCONN e = (Inr (), e1)" "trace e1 = trace e @ write_calls [cb] ENOTCONN"
    by (rule call_write_run)
  with assms(2) False have "s' = s" "delivered p (trace e') = delivered p (trace e)"
    "closings p (trace e') = closings p (trace e)"
    by (simp_all add: run_send_def on_snd_run del: write_calls.simps)
  then show ?thesis using assms(1) False by (simp add: history_inv_def)
qed

lemma async_read_inv:
  assumes "history_inv p (s, e, acc, inp)" and "is_open s" and "async_read H p (s, e) = (Inr (), (s', e'))"
  shows "history_inv p (s', e', acc, inp @ heard (rx s))"
proof -
  obtain bs stop rest where r: "recv_all (rx s) [] = (bs, stop, rest)" by (cases "recv_all (rx s) []")
  have r': "recv_all (rx s) (read_buffer s) = (read_buffer s @ bs, stop, rest)"
    using recv_all_nil [of "rx s" "read_buffer s"] r by simp
  let ?s = "s\<lparr>read_buffer := read_buffer s @ bs, rx := rest\<rparr>"
  have parsed: "parse_stream decode (read_out inp) = (delivered p (trace e), Pending, read_buffer s)" and old: "settled inp"
    and wire: "prefix (wire ?s) (concat acc)" and mh: "msg_handler ?s \<noteq> None" "close_cb ?s \<noteq> None"
    using assms(1,2) prefix_wire [of s] by (simp_all add: history_inv_def)
  have closes: ?thesis
    if "s' = closed ?s" "delivered p (trace e') = delivered p (trace e)"
      "closings p (trace e') = Suc (closings p (trace e))" "stop \<noteq> Drained"
    using history_inv_closed [OF assms(1,2) wire, of e' "inp @ heard (rx s)"] parsed that settled_read_out [OF old]
      old [unfolded settled_def, rule_format, of "heard (rx s)"] recv_all_heard_Nil(3) [OF r]
    by simp
  have open': "is_open ?s" using assms(2) by simp
  show ?thesis
  proof (cases stop)
    case Eof
    then have run: "close_from_loop H p (?s, e) = (Inr (), (s', e'))"
      using assms(2,3) r' by (simp add: async_read_def)
    obtain e1 where "close_from_loop H p (?s, e) = (Inr (), (closed ?s, e1))"
      "trace e1 = trace e @ write_calls (queued_cbs ?s) ENOTCONN @ close_calls p ?s"
      using close_from_loop_run [OF open'] by blast
    with run Eof mh show ?thesis by (intro closes) simp_all
  next
    case (Failed err)
    then have run: "fail_and_close H p err (?s, e\<lparr>cerrno := err\<rparr>) = (Inr (), (s', e'))"
      using assms(2,3) r' by (simp add: async_read_def)
    obtain e1 where "fail_and_close H p err (?s, e\<lparr>cerrno := err\<rparr>) = (Inr (), (closed ?s, e1))"
      "trace e1 = trace (e\<lparr>cerrno := err\<rparr>) @ write_calls (queued_cbs ?s) err @ close_calls p ?s"
      using fail_and_close_run [OF open'] by blast
    with run Failed mh show ?thesis by (intro closes) simp_all
  next
    case Drained
    obtain ms how left where ms: "parse_stream decode (read_buffer ?s) = (ms, how, left)"
      by (cases "parse_stream decode (read_buffer ?s)")
    have "read_frames H p (?s, e\<lparr>cerrno := EAGAIN\<rparr>) = (Inr (), (s', e'))"
      using assms(2,3) r' Drained by (simp add: async_read_def)
    from read_frames_run [OF this open' ms]
    have s': "s' = (if how = Pending then ?s\<lparr>read_buffer := left\<rparr> else closed (?s\<lparr>read_buffer := left\<rparr>))"
      and d: "delivered p (trace e') = delivered p (trace e) @ ms"
        "closings p (trace e') = closings p (trace e) + (if how = Pending then 0 else 1)"
      using mh open' by (auto simp: delivers_def handed_def)
    have heard: "settled (inp @ heard (rx s))" "read_out (inp @ heard (rx s)) = read_out inp @ bs"
      using settled_append [OF old settled_heard [of "rx s" bs rest]] settled_read_out [OF old] recv_all_heard_Nil(1) [OF r] r Drained
      by (simp_all add: settled_read_out recv_bytes_append)
    obtain left' where all: "parse_stream decode (read_out inp @ bs) = (delivered p (trace e) @ ms, how, left')"
        and left': "how = Pending \<longrightarrow> left' = left"
      using ms parsed by (simp add: parse_stream_append [of decode "read_out inp"])
    show ?thesis
      using assms(1,2) s' d all left' wire heard
      by (cases "how = Pending")
         (simp_all add: history_inv_def queue_ok_def out_stream_def unsent_def)
  qed
qed

lemma handle_events_inv:
  assumes "history_inv p (s, e, acc, inp)" and "handle_events H p ev (s, e) = (Inr (), (s', e'))"
  shows "history_inv p (s', e', acc, inp @ input_of s ev (rx s))"
proof -
  consider "\<not> is_open s" | "is_open s" "ev AND (EPOLLERR OR EPOLLHUP) \<noteq> 0"
    | "is_open s" "ev AND (EPOLLERR OR EPOLLHUP) = 0" by blast
  then show ?thesis
  proof cases
    case 1
    then have "s' = s" "e' = e" using assms(2) by (simp_all add: handle_events_def)
    then show ?thesis using assms(1) 1 by (simp add: input_of_def)
  next
    case 2
    then have "close_from_loop H p (s, e) = (Inr (), (s', e'))" using assms(2) by (simp add: handle_events_def)
    from close_from_loop_inv [OF assms(1) this] show ?thesis using 2 by (simp add: input_of_def)
  next
    case 3
    let ?rd = "if ev AND EPOLLIN \<noteq> 0 then async_read H p else ret ()"
    let ?wr = "\<lambda>(s, e). if is_open s \<and> ev AND EPOLLOUT \<noteq> 0 then async_write H p (s, e) else ret () (s, e)"
    let ?cl = "\<lambda>(s, e). if is_open s \<and> ev AND EPOLLRDHUP \<noteq> 0 then close_from_loop H p (s, e) else ret () (s, e)"
    have run: "seq ?rd (seq ?wr ?cl) (s, e) = (Inr (), (s', e'))"
      using 3 assms(2) by (simp add: handle_events_def)
    obtain s1 e1 where rd: "?rd (s, e) = (Inr (), (s1, e1))" and run1: "seq ?wr ?cl (s1, e1) = (Inr (), (s', e'))"
      using run by (auto simp: seq_run [of ?rd] split: prod.splits sum.splits)
    obtain s2 e2 where wr: "?wr (s1, e1) = (Inr (), (s2, e2))" and cl: "?cl (s2, e2) = (Inr (), (s', e'))"
      using run1 by (auto simp: seq_run [of ?wr] split: prod.splits sum.splits)
    have "history_inv p (s1, e1, acc, inp @ input_of s ev (rx s))"
      using rd 3 assms(1) async_read_inv [OF assms(1) 3(1)] by (auto simp: input_of_def split: if_splits)
    then have "history_inv p (s2, e2, acc, inp @ input_of s ev (rx s))"
      using wr async_write_inv by (auto split: if_splits)
    then show ?thesis using cl close_from_loop_inv by (auto split: if_splits)
  qed
qed

lemma session_step_inv: "session_step H p h h' \<Longrightarrow> history_inv p h \<Longrightarrow> history_inv p h'"
proof (induction rule: session_step.induct)
  case (sends frame cb s e s' e' acc inp)
  then show ?case by (blast intro: run_send_inv)
next
  case (closes s e s' e' acc inp)
  then show ?case by (blast intro: close_from_loop_inv)
next
  case (events ev s as bs e s' e' acc inp)
  from handle_events_inv [OF history_inv_kernel [OF events.prems] events.hyps]
  show ?case by (simp add: input_of_def)
next
  case (others e' e s acc inp)
  then show ?case by (simp add: history_inv_def)
qed

lemma session_run_inv: "session_run H p h h' \<Longrightarrow> history_inv p h \<Longrightarrow> history_inv p h'"
  by (induction rule: rtranclp_induct) (blast intro: session_step_inv)+

end

section \<open>What the peer sent\<close>

text \<open>
  The input of a session tied to what recv has in store for its socket: the session has taken a first
  part of it, nothing else.
\<close>

definition fed :: "recv_answer list \<Rightarrow> session \<Rightarrow> recv_answer list \<Rightarrow> bool" where
  "fed as s inp \<longleftrightarrow> (\<exists>n. rx s = drop n as \<and> recv_bytes (take n as) = recv_bytes inp \<and> read_out (take n as) = read_out inp \<and>
     (is_open s \<longrightarrow> rx s = [] \<or> settled (take n as)) \<and>
     (settled inp \<or> take n as \<noteq> [] \<and> closing_answer (last (take n as))))"

lemma fed_later: "fed as s inp \<Longrightarrow> rx s' = rx s \<Longrightarrow> (is_open s' \<Longrightarrow> is_open s) \<Longrightarrow> fed as s' inp"
  by (auto simp: fed_def)

lemma fed_reads:
  assumes "fed as s inp" and "is_open s" and "settled inp" and "recv_all (rx s) [] = (bs, stop, rest)"
    and "rx s' = rest" and "is_open s' \<Longrightarrow> stop = Drained"
  shows "fed as s' (inp @ heard (rx s))"
proof -
  obtain n where n: "rx s = drop n as" "recv_bytes (take n as) = recv_bytes inp" "read_out (take n as) = read_out inp"
    and set: "rx s = [] \<or> settled (take n as)" using assms(1,2) by (auto simp: fed_def)
  note hear = recv_all_heard_Nil [OF assms(4)]
  obtain k where k: "rest = drop k (rx s)"
    "heard (rx s) = take k (rx s) \<or> rest = [] \<and> stop = Drained \<and> heard (rx s) = take k (rx s) @ [RecvError EAGAIN]"
    using hear(4) by blast
  have took: "take (n + k) as = take n as @ take k (rx s)" by (simp add: take_add n(1))
  have bytes: "recv_bytes (take k (rx s)) = recv_bytes (heard (rx s))"
    and out: "read_out (take k (rx s)) = read_out (heard (rx s))"
    using k(2) by (auto simp: recv_bytes_append whole_reads_would_block)
  have new: "read_out (inp @ heard (rx s)) = recv_bytes inp @ read_out (heard (rx s))"
    using assms(3) by (simp add: settled_def)
  have "read_out (take n as @ take k (rx s)) = recv_bytes inp @ read_out (heard (rx s))"
  proof (cases "rx s = []")
    case True
    then show ?thesis using n(3) settled_read_out [OF assms(3)] by simp
  next
    case False
    then show ?thesis using set n(2) out by (simp add: settled_def)
  qed
  moreover have "rest = [] \<or> settled (take (n + k) as)" if "is_open s'"
  proof (cases "heard (rx s) = take k (rx s) \<and> rx s \<noteq> []")
    case True
    then have "settled (take k (rx s))" using settled_heard [of "rx s" bs rest] assms(4,6) that by simp
    then show ?thesis using True set settled_append by (simp add: took)
  next
    case False
    then show ?thesis using k by auto
  qed
  moreover have "settled (inp @ heard (rx s)) \<or> take (n + k) as \<noteq> [] \<and> closing_answer (last (take (n + k) as))"
  proof (cases "stop = Drained")
    case True
    then show ?thesis using settled_append [OF assms(3)] settled_heard [of "rx s" bs rest] assms(4) by simp
  next
    case False
    then show ?thesis using hear(3) k(2) by (simp add: took)
  qed
  ultimately show ?thesis
    using assms(5) k(1) n new bytes took
    by (intro fed_def [THEN iffD2] exI [of _ "n + k"]) (simp add: took recv_bytes_append del: add.commute, simp add: add.commute)
qed

context session_hooks
begin

lemma close_from_loop_rx:
  assumes "close_from_loop H p (s, e) = (Inr (), (s', e'))"
  shows "rx s' = rx s" and "is_open s' \<Longrightarrow> is_open s"
proof -
  have "s' = s \<or> is_open s \<and> s' = closed s"
  proof (cases "is_open s")
    case True
    then obtain e1 where "close_from_loop H p (s, e) = (Inr (), (closed s, e1))"
      using close_from_loop_run [OF True, of p e] by blast
    then show ?thesis using assms True by simp
  qed (use assms in \<open>simp add: close_from_loop_def\<close>)
  then show "rx s' = rx s" and "is_open s' \<Longrightarrow> is_open s" by auto
qed

lemma async_write_rx:
  assumes "async_write H p (s, e) = (Inr (), (s', e'))" and "is_open s" and "queue_ok s"
  shows "rx s' = rx s"
  using assms by (cases rule: async_write_run) (auto simp: wrote_def gave_up_def advanced_same)

lemma run_send_rx:
  assumes "run_send H p frame cb (s, e) = (Inr (), (s', e'))" and "queue_ok s" and "frame \<noteq> []"
  shows "rx s' = rx s" and "is_open s' \<Longrightarrow> is_open s"
proof -
  have "rx s' = rx s \<and> (is_open s' \<longrightarrow> is_open s)"
  proof (cases "is_open s")
    case True
    let ?s = "s\<lparr>write_queue := write_queue s @ [\<lparr>frame_bytes = frame, written = 0, write_cb = cb\<rparr>]\<rparr>"
    obtain s1 e1 where u: "update_events (?s, e) = (Inr (), (s1, e1))" and w: "async_write H p (s1, e1) = (Inr (), (s', e'))"
      using assms(1) True by (auto simp: run_send_def seq_run split: prod.splits sum.splits)
    have "s1 = ?s" using u by (auto simp: update_events_def on_snd_run split: if_splits prod.splits)
    moreover have "queue_ok ?s" using assms(2,3) by (simp add: queue_ok_def)
    ultimately show ?thesis using async_write_rx [OF w] True by simp
  next
    case False
    then show ?thesis using assms(1) by (auto simp: run_send_def on_snd_run split: prod.splits)
  qed
  then show "rx s' = rx s" and "is_open s' \<Longrightarrow> is_open s" by simp_all
qed

lemma async_read_fed:
  assumes "async_read H p (s, e) = (Inr (), (s', e'))" and "is_open s" and "fed as s inp" and "settled inp"
  shows "fed as s' (inp @ heard (rx s))"
proof -
  obtain bs stop rest where r: "recv_all (rx s) [] = (bs, stop, rest)" by (cases "recv_all (rx s) []")
  have r': "recv_all (rx s) (read_buffer s) = (read_buffer s @ bs, stop, rest)"
    using recv_all_nil [of "rx s" "read_buffer s"] r by simp
  let ?s = "s\<lparr>read_buffer := read_buffer s @ bs, rx := rest\<rparr>"
  have open': "is_open ?s" using assms(2) by simp
  have "rx s' = rest \<and> (is_open s' \<longrightarrow> stop = Drained)"
  proof (cases stop)
    case Eof
    then have "close_from_loop H p (?s, e) = (Inr (), (s', e'))" using assms(1,2) r' by (simp add: async_read_def)
    moreover obtain e1 where "close_from_loop H p (?s, e) = (Inr (), (closed ?s, e1))"
      using close_from_loop_run [OF open', of p e] by blast
    ultimately show ?thesis by auto
  next
    case (Failed err)
    then have "fail_and_close H p err (?s, e\<lparr>cerrno := err\<rparr>) = (Inr (), (s', e'))"
      using assms(1,2) r' by (simp add: async_read_def)
    moreover obtain e1 where "fail_and_close H p err (?s, e\<lparr>cerrno := err\<rparr>) = (Inr (), (closed ?s, e1))"
      using fail_and_close_run [OF open', of p err "e\<lparr>cerrno := err\<rparr>"] by blast
    ultimately show ?thesis by auto
  next
    case Drained
    then have "read_frames H p (?s, e\<lparr>cerrno := EAGAIN\<rparr>) = (Inr (), (s', e'))"
      using assms(1,2) r' by (simp add: async_read_def)
    from read_frames_run [OF this open'] Drained show ?thesis
      by (cases "parse_stream decode (read_buffer ?s)") (auto split: if_splits)
  qed
  then show ?thesis by (intro fed_reads [OF assms(3,2,4) r]) auto
qed

lemma handle_events_fed:
  assumes "handle_events H p ev (s, e) = (Inr (), (s', e'))" and "history_inv p (s, e, acc, inp)" and "fed as s inp"
  shows "fed as s' (inp @ input_of s ev (rx s))"
proof -
  consider "\<not> is_open s" | "is_open s" "ev AND (EPOLLERR OR EPOLLHUP) \<noteq> 0"
    | "is_open s" "ev AND (EPOLLERR OR EPOLLHUP) = 0" by blast
  then show ?thesis
  proof cases
    case 1
    then show ?thesis using assms(1,3) by (simp add: handle_events_def input_of_def)
  next
    case 2
    then have "close_from_loop H p (s, e) = (Inr (), (s', e'))" using assms(1) by (simp add: handle_events_def)
    from fed_later [OF assms(3) close_from_loop_rx [OF this]] show ?thesis using 2 by (simp add: input_of_def)
  next
    case 3
    let ?rd = "if ev AND EPOLLIN \<noteq> 0 then async_read H p else ret ()"
    let ?wr = "\<lambda>(s, e). if is_open s \<and> ev AND EPOLLOUT \<noteq> 0 then async_write H p (s, e) else ret () (s, e)"
    let ?cl = "\<lambda>(s, e). if is_open s \<and> ev AND EPOLLRDHUP \<noteq> 0 then close_from_loop H p (s, e) else ret () (s, e)"
    have run: "seq ?rd (seq ?wr ?cl) (s, e) = (Inr (), (s', e'))" using 3 assms(1) by (simp add: handle_events_def)
    obtain s1 e1 where rd: "?rd (s, e) = (Inr (), (s1, e1))" and run1: "seq ?wr ?cl (s1, e1) = (Inr (), (s', e'))"
      using run by (auto simp: seq_run [of ?rd] split: prod.splits sum.splits)
    obtain s2 e2 where wr: "?wr (s1, e1) = (Inr (), (s2, e2))" and cl: "?cl (s2, e2) = (Inr (), (s', e'))"
      using run1 by (auto simp: seq_run [of ?wr] split: prod.splits sum.splits)
    have "settled inp" using assms(2) 3(1) by (simp add: history_inv_def)
    then have read: "fed as s1 (inp @ input_of s ev (rx s))"
      using rd 3 assms(3) async_read_fed [OF _ 3(1) assms(3)] by (auto simp: input_of_def split: if_splits)
    have "queue_ok s1"
      using rd async_read_inv [OF assms(2) 3(1)] assms(2) by (auto simp: history_inv_def split: if_splits)
    then have "rx s2 = rx s1" "is_open s2 \<Longrightarrow> is_open s1" using wr async_write_rx by (auto split: if_splits)
    from fed_later [OF read this] have "fed as s2 (inp @ input_of s ev (rx s))" by blast
    then show ?thesis using cl close_from_loop_rx by (auto split: if_splits intro: fed_later)
  qed
qed

end

text \<open>A step whose reads are those that the kernel has in store for the session\<close>

definition advances :: "'x hooks \<Rightarrow> ptr \<Rightarrow> 'x history \<Rightarrow> 'x history \<Rightarrow> bool" where
  "advances H p = (\<lambda>(s, e, acc, inp) (s', e', acc', inp').
     session_step H p (s, e, acc, inp) (s', e', acc', inp') \<and>
     (history_inv p (s, e, acc, inp) \<longrightarrow> (\<forall>as. fed as s inp \<longrightarrow> fed as s' inp')))"

lemma advances_others:
  "delivered p (trace e') = delivered p (trace e) \<Longrightarrow> closings p (trace e') = closings p (trace e) \<Longrightarrow>
    advances H p (s, e, acc, inp) (s, e', acc, inp)"
  by (simp add: advances_def session_step.others)

context session_hooks
begin

lemma advances_sends:
  assumes "run_send H p frame cb (s, e) = (Inr (), (s', e'))" and "frame \<noteq> []"
  shows "advances H p (s, e, acc, inp) (s', e', acc @ (if is_open s then [frame] else []), inp)"
proof -
  have "fed as s' inp" if "history_inv p (s, e, acc, inp)" "fed as s inp" for as
    using fed_later [OF that(2) run_send_rx [OF assms(1) _ assms(2)]] that(1) by (simp add: history_inv_def)
  then show ?thesis using session_step.sends [OF assms] by (simp add: advances_def)
qed

lemma advances_closes:
  assumes "close_from_loop H p (s, e) = (Inr (), (s', e'))"
  shows "advances H p (s, e, acc, inp) (s', e', acc, inp)"
  using session_step.closes [OF assms] fed_later [OF _ close_from_loop_rx [OF assms]] by (auto simp: advances_def)

lemma advances_events:
  assumes "handle_events H p ev (s, e) = (Inr (), (s', e'))"
  shows "advances H p (s, e, acc, inp) (s', e', acc, inp @ input_of s ev (rx s))"
proof -
  have "s\<lparr>rx := rx s, tx := tx s\<rparr> = s" by simp
  then have "session_step H p (s, e, acc, inp) (s', e', acc, inp @ input_of s ev (rx s))"
    using assms session_step.events [where s = s and as = "rx s" and bs = "tx s"] by metis
  then show ?thesis using handle_events_fed [OF assms] by (auto simp: advances_def)
qed

end

section \<open>Reading one message\<close>

text \<open>A frame that is read whole is handed to the message handler at once.\<close>

lemma read_one_message:
  assumes "is_open s" "read_buffer s = []" "msg_handler s = Some h" "sendable m"
    and "on_message H h p (s\<lparr>rx := []\<rparr>) m (e\<lparr>cerrno := EAGAIN, trace := trace e @ [MessageCalled p m]\<rparr>) = (Inr (), e')"
  shows "async_read H p (s\<lparr>rx := [RecvBytes (make_frame (encode m)), RecvError EAGAIN]\<rparr>, e)
    = (Inr (), (s\<lparr>rx := []\<rparr>, e'))"
proof -
  let ?f = "make_frame (encode m)"
  have pop: "try_pop_frame ?f [] = (Ok, [], encode m)" "decode (encode m) = Some m"
    using try_pop_make_frame [OF protobuf.enc_fits [OF assms(4)], of "[]"] protobuf.dec_enc [OF assms(4)] by simp_all
  have same: "s\<lparr>read_buffer := [], rx := []\<rparr> = s\<lparr>rx := []\<rparr>" "s\<lparr>rx := [], read_buffer := []\<rparr> = s\<lparr>rx := []\<rparr>"
    using assms(2) by (cases s; simp)+
  have empty: "try_pop_frame [] [] = (NeedMore, [], [])" by (simp add: try_pop_frame_def kFrameHeaderSize_def)
  have "read_frames H p (s\<lparr>rx := []\<rparr>, e') = (Inr (), (s\<lparr>rx := []\<rparr>, e'))"
    using assms(1,2) empty same by (simp add: read_frames.simps [of H p "s\<lparr>rx := []\<rparr>" e'])
  then have "read_frames H p (s\<lparr>read_buffer := ?f, rx := []\<rparr>, e\<lparr>cerrno := EAGAIN\<rparr>) = (Inr (), (s\<lparr>rx := []\<rparr>, e'))"
    using assms(1,3,5) pop same
    by (simp add: read_frames.simps [of H p "s\<lparr>read_buffer := ?f, rx := []\<rparr>" "e\<lparr>cerrno := EAGAIN\<rparr>"]
        call_message_def log_call_def)
  then show ?thesis using assms(1,2) by (simp add: async_read_def)
qed

end
