(* ===== verification/Application.thy ===== *)
theory Application
  imports Session_History
begin

text \<open>
  The closures that a user of the library installs. Such a closure reaches the library through the
  public methods of the objects it was given: it may send on a session, close one and stop the
  loop. It is modelled as the list of those calls, in order, computed from its own state and its
  arguments; \<open>perform\<close> makes one call.
\<close>

datatype action =
    SendMessage ptr rpc_message "write_handler option"
  | CloseSession ptr
  | StopLoop

fun perform ::
    "(write_handler \<Rightarrow> errno \<Rightarrow> ('x env_scheme, unit) eff) \<Rightarrow> action \<Rightarrow> ('x env_scheme, unit) eff" where
  "perform ow (SendMessage p m h) = session_send ow p m h"
| "perform ow (CloseSession p) = session_close p"
| "perform ow StopLoop = loop_stop"

definition perform_all ::
    "(write_handler \<Rightarrow> errno \<Rightarrow> ('x env_scheme, unit) eff) \<Rightarrow> action list \<Rightarrow> ('x env_scheme, unit) eff" where
  "perform_all ow = for_each (perform ow)"

context write_hooks
begin

lemma perform_posts: "perform ow a e = (r, e') \<Longrightarrow> posts_only view e e'"
  by (cases a) (simp_all add: session_send_posts session_close_def loop_post_posts loop_stop_posts)

lemma perform_all_posts: "perform_all ow as e = (r, e') \<Longrightarrow> posts_only view e e'"
  unfolding perform_all_def
proof (induction as arbitrary: e)
  case (Cons a as)
  obtain r1 e1 where a: "perform ow a e = (r1, e1)" by (cases "perform ow a e")
  have "posts_only view e1 e'"
    using Cons.prems a Cons.IH by (auto simp: seq_run posts_only_refl split: sum.splits)
  with perform_posts [OF a] show ?case by (rule posts_only_trans)
qed (simp add: posts_only_refl)

lemma loop_stop_wakes: "wakes_loop (loop_stop :: ('x env_scheme, unit) eff)"
proof -
  have "wake_inv e'" if "wake_inv e" "loop_stop e = (Inr x, e')" for e e' :: "'x env_scheme" and x
    using that loop_stop_frame(2,7,8) [OF that(2)] by (auto simp: wake_inv_def)
  then show ?thesis by (auto simp: wakes_loop_def)
qed

lemma perform_wakes: "wakes_loop (perform ow a)"
  by (cases a) (simp_all add: session_send_wakes session_close_def wakes_loop_post loop_stop_wakes)

lemma perform_all_wakes: "wakes_loop (perform_all ow as)"
proof -
  have "wake_inv e'" if "wake_inv e" "for_each (perform ow) as e = (Inr x, e')" for e x e'
    using that
  proof (induction as arbitrary: e)
    case (Cons a as)
    obtain e1 where "perform ow a e = (Inr (), e1)" "for_each (perform ow) as e1 = (Inr x, e')"
      using Cons.prems(2) by (auto simp: seq_run split: prod.splits sum.splits)
    with Cons perform_wakes [of a] show ?case by (auto simp: wakes_loop_def)
  qed simp
  then show ?thesis by (auto simp: wakes_loop_def perform_all_def)
qed

end

end
