(* ===== verification/Server.thy ===== *)
theory Server
  imports Application
begin

text \<open>
  \<^verbatim>\<open>include/minirpc/server.hpp\<close> and \<^verbatim>\<open>src/server.cpp\<close>: the listener, the accept loop and the
  map of sessions. The server's own closures are the constructors \<open>AcceptEvents\<close> (its listener's
  event handler) and \<open>EraseSession\<close> (the close handler it gives every session); the user's
  closures are the fields of \<open>app\<close>, with \<open>user\<close> as their state.

  Parameters: \<open>valid_ipv4\<close> is whether inet_pton(AF_INET) accepts a host; the outcome of socket is
  an argument, those of setsockopt, bind and listen are \<open>answers\<close> of the loop's kernel, those of
  accept4 are \<open>accepts\<close> (with what the kernel will answer on the new socket); \<open>order\<close> is the
  order in which the unordered map is iterated.
\<close>

section \<open>State\<close>

datatype accept_answer = AcceptFd fd "recv_answer list" "send_answer list" | AcceptError errno

record 'u server = env +
  host :: bytes
  port :: u16
  listen_fd :: fd
  started :: bool
  session_cb :: "nat option"
  message_cb :: "message_handler option"
  sessions :: "u64 \<rightharpoonup> ptr"
  user :: 'u
  accepts :: "accept_answer list"

record 'u app =
  app_session :: "nat \<Rightarrow> 'u \<Rightarrow> ptr \<Rightarrow> u64 \<Rightarrow> 'u \<times> action list"
  app_message :: "nat \<Rightarrow> 'u \<Rightarrow> ptr \<Rightarrow> u64 \<Rightarrow> rpc_message \<Rightarrow> 'u \<times> action list"
  app_write :: "nat \<Rightarrow> 'u \<Rightarrow> errno \<Rightarrow> 'u"

type_synonym ('u, 'a) server_eff = "('u server, 'a) eff"

text \<open>\<^verbatim>\<open>TcpServer::TcpServer\<close>: the members on top of a running loop \<open>e\<close>.\<close>

definition server_init :: "env \<Rightarrow> bytes \<Rightarrow> u16 \<Rightarrow> 'u \<Rightarrow> 'u server" where
  "server_init e h n u = env.extend e
     \<lparr>host = h, port = n, listen_fd = -1, started = False, session_cb = None, message_cb = None,
      sessions = Map.empty, user = u, accepts = []\<rparr>"

definition server_set_session_handler :: "nat option \<Rightarrow> 'u server \<Rightarrow> 'u server" where
  "server_set_session_handler h e = e\<lparr>session_cb := h\<rparr>"

definition server_set_message_handler :: "message_handler option \<Rightarrow> 'u server \<Rightarrow> 'u server" where
  "server_set_message_handler h e = e\<lparr>message_cb := h\<rparr>"

section \<open>The closures a session of the server calls\<close>

definition server_on_write :: "'u app \<Rightarrow> write_handler \<Rightarrow> errno \<Rightarrow> ('u, unit) server_eff" where
  "server_on_write A h err =
     (case h of
        UserWrite n \<Rightarrow> upd (\<lambda>e. e\<lparr>user := app_write A n (user e) err\<rparr>)
      | ErasePending _ \<Rightarrow> ret ())"

definition server_on_message ::
    "'u app \<Rightarrow> message_handler \<Rightarrow> ptr \<Rightarrow> session \<Rightarrow> rpc_message \<Rightarrow> ('u, unit) server_eff" where
  "server_on_message A h p s m = (\<lambda>e.
     case h of
       UserMessage n \<Rightarrow>
         (case app_message A n (user e) p (session_id s) m of
            (u, as) \<Rightarrow> perform_all (server_on_write A) as (e\<lparr>user := u\<rparr>))
     | DispatchMessage \<Rightarrow> ret () e)"

text \<open>\<^verbatim>\<open>sessions_.erase(closed->id())\<close>\<close>

definition server_on_close :: "close_handler \<Rightarrow> ptr \<Rightarrow> session \<Rightarrow> ('u, unit) server_eff" where
  "server_on_close c p s =
     (case c of
        EraseSession \<Rightarrow> upd (\<lambda>e. e\<lparr>sessions := (sessions e)(session_id s := None)\<rparr>)
      | ResetClient \<Rightarrow> ret ())"

definition server_hooks :: "'u app \<Rightarrow> ('u, unit) server_ext hooks" where
  "server_hooks A =
     \<lparr>on_message = server_on_message A, on_close = server_on_close, on_write = server_on_write A\<rparr>"

section \<open>Starting and stopping\<close>

definition close_listener :: "('u, unit) server_eff" where
  "close_listener = (\<lambda>e.
     if listen_fd e \<noteq> -1
     then seq (loop_remove (listen_fd e))
            (bind (sys (CloseFd (listen_fd e))) (\<lambda>_. upd (\<lambda>e. e\<lparr>listen_fd := -1\<rparr>))) e
     else ret () e)"

definition bind_and_listen :: "(bytes \<Rightarrow> bool) \<Rightarrow> errno + fd \<Rightarrow> ('u, unit) server_eff" where
  "bind_and_listen valid_ipv4 sock =
     (case sock of
        Inl err \<Rightarrow> seq (upd (\<lambda>e. e\<lparr>listen_fd := -1, cerrno := err\<rparr>)) (throw_system_error ''socket'')
      | Inr fd \<Rightarrow>
          seq (upd (\<lambda>e. e\<lparr>listen_fd := fd\<rparr>))
            (bind (sys (SetSockOpt fd)) (\<lambda>rc.
               if rc \<noteq> 0 then seq close_listener (throw_system_error ''setsockopt(SO_REUSEADDR)'')
               else (\<lambda>e.
                 if \<not> valid_ipv4 (host e)
                 then seq close_listener
                        (throw (RuntimeError ''TcpServer only accepts IPv4 literal host addresses'')) e
                 else
                   bind (sys (Bind fd)) (\<lambda>rc.
                     if rc \<noteq> 0 then seq close_listener (throw_system_error ''bind'')
                     else bind (sys (Listen fd)) (\<lambda>rc.
                       if rc \<noteq> 0 then seq close_listener (throw_system_error ''listen'')
                       else ret ())) e))))"

definition server_start :: "(bytes \<Rightarrow> bool) \<Rightarrow> errno + fd \<Rightarrow> ('u, unit) server_eff" where
  "server_start valid_ipv4 sock = (\<lambda>e.
     if started e then ret () e
     else
       seq (bind_and_listen valid_ipv4 sock)
         (seq (\<lambda>e. set_non_blocking (listen_fd e) e)
           (seq (\<lambda>e. loop_add (listen_fd e) EPOLLIN AcceptEvents e)
                (upd (\<lambda>e. e\<lparr>started := True\<rparr>)))) e)"

text \<open>The sessions are closed in the order the map is iterated; closing only posts.\<close>

definition server_stop :: "u64 list \<Rightarrow> ('u, unit) server_eff" where
  "server_stop order = (\<lambda>e.
     if \<not> started e \<and> listen_fd e = -1 then ret () e
     else
       seq close_listener
         (seq (\<lambda>e. for_each session_close (List.map_filter (sessions e) order) e)
              (upd (\<lambda>e. e\<lparr>sessions := Map.empty, started := False\<rparr>))) e)"

text \<open>\<^verbatim>\<open>~TcpServer\<close>\<close>

definition server_destroy :: "u64 list \<Rightarrow> ('u, unit) server_eff" where
  "server_destroy order = server_stop order"

section \<open>Accepting\<close>

definition call_session_handler :: "'u app \<Rightarrow> ptr \<Rightarrow> u64 \<Rightarrow> ('u, unit) server_eff" where
  "call_session_handler A p sid = (\<lambda>e.
     case session_cb e of
       None \<Rightarrow> ret () e
     | Some n \<Rightarrow> (case app_session A n (user e) p sid of
                    (u, as) \<Rightarrow> perform_all (server_on_write A) as (e\<lparr>user := u\<rparr>)))"

text \<open>The session that the accept loop builds, before it is started.\<close>

definition accepted_session :: "fd \<Rightarrow> u64 \<Rightarrow> recv_answer list \<Rightarrow> send_answer list \<Rightarrow> 'u server \<Rightarrow> session" where
  "accepted_session fd sid as bs e =
     set_close_handler (Some EraseSession) (set_message_handler (message_cb e)
       ((new_session fd sid)\<lparr>rx := as, tx := bs\<rparr>))"

text \<open>One accepted connection: build it, enter it into the map, start it, call the user.\<close>

definition accept_one ::
    "'u app \<Rightarrow> fd \<Rightarrow> recv_answer list \<Rightarrow> send_answer list \<Rightarrow> (objects \<times> 'u server, unit) eff" where
  "accept_one A fd as bs = (\<lambda>(ob, e).
     case make_session fd ob of
       (p, ob') \<Rightarrow>
         (let sid = next_id ob;
              ob' = ob'\<lparr>heap := (heap ob')(p \<mapsto> accepted_session fd sid as bs e)\<rparr>;
              e' = e\<lparr>sessions := (sessions e)(sid \<mapsto> p)\<rparr>
          in seq (with_session p (session_start p)) (on_snd (call_session_handler A p sid)) (ob', e')))"

text \<open>The loop over what accept4 will answer; when nothing is pending it answers \<^verbatim>\<open>EAGAIN\<close>.\<close>

fun accept_from :: "'u app \<Rightarrow> accept_answer list \<Rightarrow> (objects \<times> 'u server, unit) eff" where
  "accept_from A [] (ob, e) = (Inr (), (ob, e\<lparr>cerrno := EAGAIN\<rparr>))"
| "accept_from A (AcceptError err # rest) (ob, e) =
     (let e = e\<lparr>accepts := rest, cerrno := err\<rparr>
      in if err = EAGAIN then (Inr (), (ob, e))
         else if err = EINTR then accept_from A rest (ob, e)
         else on_snd (throw_system_error ''accept4'') (ob, e))"
| "accept_from A (AcceptFd fd as bs # rest) (ob, e) =
     seq (accept_one A fd as bs) (accept_from A rest) (ob, e\<lparr>accepts := rest\<rparr>)"

definition accept_loop :: "'u app \<Rightarrow> (objects \<times> 'u server, unit) eff" where
  "accept_loop A = (\<lambda>(ob, e). accept_from A (accepts e) (ob, e))"

section \<open>What the server's loop runs\<close>

fun server_run_handler :: "'u app \<Rightarrow> ev_handler \<Rightarrow> u32 \<Rightarrow> (objects \<times> 'u server, unit) eff" where
  "server_run_handler A DrainWakeup ev = on_snd drain_wakeup"
| "server_run_handler A (SessionEvents p) ev = with_session p (handle_events (server_hooks A) p ev)"
| "server_run_handler A AcceptEvents ev =
     (if ev AND EPOLLIN \<noteq> 0 then accept_loop A else ret ())"

definition server_run_task :: "'u app \<Rightarrow> task \<Rightarrow> (objects \<times> 'u server, unit) eff" where
  "server_run_task A = run_task (server_hooks A)"

definition server_run ::
    "'u app \<Rightarrow> task wait_answer list \<Rightarrow> objects \<times> 'u server \<Rightarrow> ((exn + unit) \<times> objects \<times> 'u server) option" where
  "server_run A = loop_run (server_run_task A) (server_run_handler A)"

section \<open>The server's closures meet the contract of a session\<close>

definition erase_closed :: "close_handler \<Rightarrow> u64 \<Rightarrow> (u64 \<rightharpoonup> ptr) \<Rightarrow> (u64 \<rightharpoonup> ptr)" where
  "erase_closed c sid m = (case c of EraseSession \<Rightarrow> m(sid := None) | ResetClient \<Rightarrow> m)"

lemma server_view_more:
  fixes e e' :: "'u server"
  shows "event_loop.more e = event_loop.more e' \<Longrightarrow> sessions e = sessions e'"
  by (cases e; cases e') simp

lemma server_on_write_frame:
  "server_on_write A h err e = (r, e') \<Longrightarrow> r = Inr () \<and> trace e' = trace e \<and> undisturbed sessions e e'"
  by (auto simp: server_on_write_def undisturbed_def wake_inv_def split: write_handler.splits)

interpretation srv_writes: write_hooks "server_on_write A" sessions for A :: "'u app"
  by unfold_locales (auto dest: server_view_more server_on_write_frame)

lemma user_frame: "posts_only sessions (e\<lparr>user := u\<rparr>) e' \<Longrightarrow> posts_only sessions e e'"
  by (simp add: posts_only_def posted_def)

lemma server_on_message_frame:
  assumes "server_on_message A h p s m e = (r, e')"
  shows "posts_only sessions e e' \<and> (r = Inr () \<longrightarrow> wake_inv e \<longrightarrow> wake_inv e')"
proof (cases h)
  case DispatchMessage
  then show ?thesis using assms by (simp add: server_on_message_def posts_only_refl)
next
  case (UserMessage n)
  obtain u as where "app_message A n (user e) p (session_id s) m = (u, as)" by fastforce
  then have run: "perform_all (server_on_write A) as (e\<lparr>user := u\<rparr>) = (r, e')"
    using UserMessage assms by (simp add: server_on_message_def)
  have "wake_inv (e\<lparr>user := u\<rparr>) = wake_inv e" by (simp add: wake_inv_def)
  then show ?thesis
    using srv_writes.perform_all_posts [OF run] srv_writes.perform_all_wakes [of A as] run
    by (auto simp: wakes_loop_def dest: user_frame)
qed

interpretation srv: session_hooks "server_hooks A" sessions erase_closed for A :: "'u app"
proof unfold_locales
  fix h err r p s s' m c mh and e e' :: "'u server" and t
  show "event_loop.more e = event_loop.more e' \<Longrightarrow> sessions e = sessions e'" by (rule server_view_more)
  show "sessions (e\<lparr>trace := t\<rparr>) = sessions e" by simp
  show "on_write (server_hooks A) h err e = (r, e') \<Longrightarrow>
      r = Inr () \<and> trace e' = trace e \<and> undisturbed sessions e e'"
    by (simp add: server_hooks_def server_on_write_frame)
  show "on_close (server_hooks A) c p s e = (r, e') \<Longrightarrow> r = Inr () \<and> trace e' = trace e \<and>
      tasks e' = tasks e \<and> handlers e' = handlers e \<and> syscalls e' = syscalls e \<and>
      sessions e' = erase_closed c (session_id s) (sessions e) \<and> (wake_inv e \<longrightarrow> wake_inv e')"
    by (cases c) (auto simp: server_hooks_def server_on_close_def erase_closed_def wake_inv_def)
  show "on_message (server_hooks A) mh p s m e = (r, e') \<Longrightarrow>
      posts_only sessions e e' \<and> (r = Inr () \<longrightarrow> wake_inv e \<longrightarrow> wake_inv e')"
    by (simp add: server_hooks_def server_on_message_frame)
  show "same_view s s' \<Longrightarrow> on_message (server_hooks A) mh p s = on_message (server_hooks A) mh p s'"
    by (cases mh) (simp_all add: server_hooks_def server_on_message_def same_view_def fun_eq_iff)
qed

interpretation srv_loop: loop_tasks "server_run_task A" for A :: "'u app"
  by unfold_locales (simp add: server_run_task_def srv.run_task_wakes)

end
