(* ===== verification/Loop_Threads.thy ===== *)
theory Loop_Threads
  imports Event_Loop "HOL-Library.Sublist"
begin

text \<open>
  \<^verbatim>\<open>EventLoop\<close> under threads: \<^verbatim>\<open>run\<close> one access at a time, with any number of other threads that call
  \<^verbatim>\<open>post\<close> and \<^verbatim>\<open>stop\<close> between any two accesses. \<open>Event_Loop\<close> takes such a call as one step, made while the
  loop waits; here it is the change of the queue or of the flag, and later the write to the eventfd. An access is what
  no other thread can divide: a section under a mutex, an atomic, a system call. Thread 0 is the one
  that runs the loop; in a task or a handler of the user it may make the same calls, any number of
  them, so what a task does is left open.
\<close>

section \<open>Threads and their steps\<close>

text \<open>Where the loop's thread is in \<^verbatim>\<open>run\<close>; the flag marks the drain after the loop.\<close>

datatype 't place =
    Entering                              \<comment> \<open>before \<^verbatim>\<open>stopped_ = false\<close>\<close>
  | Checking                              \<comment> \<open>before \<^verbatim>\<open>while (!stopped_)\<close>\<close>
  | Swapping bool                         \<comment> \<open>in \<^verbatim>\<open>drain_tasks\<close>, before the swap\<close>
  | Draining bool "'t list"               \<comment> \<open>with the rest of \<^verbatim>\<open>local\<close>\<close>
  | Running bool 't "'t list"             \<comment> \<open>in a task\<close>
  | Polling                               \<comment> \<open>in epoll_wait\<close>
  | Dispatching "(fd \<times> u32) list"         \<comment> \<open>with the rest of the batch\<close>
  | Reading "(fd \<times> u32) list"             \<comment> \<open>in \<^verbatim>\<open>drain_wakeup\<close>, the handler of the eventfd\<close>
  | Handling "(fd \<times> u32) list"            \<comment> \<open>in another handler\<close>
  | Left "exn option"                     \<comment> \<open>\<^verbatim>\<open>run\<close> has returned or thrown\<close>

text \<open>
  \<open>waking\<close>: the threads that have changed queue or flag and not yet written to the eventfd. What was
  pushed, what was begun and what an exception destroyed is recorded beside the state.
\<close>

record ('h, 't) threads =
  place :: "'t place"
  loop :: "('h, 't) event_loop"
  waking :: "nat set"
  pushed :: "'t list"
  begun :: "'t list"
  dropped :: "'t list"

datatype ('h, 't) thread_action =
    Change nat "'t external"                \<comment> \<open>a thread pushes a task or sets the flag\<close>
  | Wake nat errno                       \<comment> \<open>and writes to the eventfd, with this outcome\<close>
  | SetHandler fd "'h option"               \<comment> \<open>an entry of the handler table is set or erased\<close>
  | Access                                  \<comment> \<open>the next access of \<^verbatim>\<open>run\<close>\<close>
  | Poll "errno + (fd \<times> u32) list"        \<comment> \<open>epoll_wait returns\<close>
  | Finish "exn option"                   \<comment> \<open>a task or handler returns or throws\<close>

fun user_code :: "'t place \<Rightarrow> bool" where
  "user_code (Running l t ts) = True"
| "user_code (Handling evs) = True"
| "user_code p = False"

fun call_step :: "nat \<Rightarrow> 't external \<Rightarrow> ('h, 't) threads \<Rightarrow> ('h, 't) threads" where
  "call_step i (ExtPost t) s =
     s\<lparr>loop := (loop s)\<lparr>tasks := tasks (loop s) @ [t]\<rparr>, pushed := pushed s @ [t], waking := insert i (waking s)\<rparr>"
| "call_step i ExtStop s =
     s\<lparr>loop := (loop s)\<lparr>stopped := True\<rparr>,
       waking := if event_fd (loop s) \<noteq> -1 then insert i (waking s) else waking s\<rparr>"

text \<open>The accesses of \<^verbatim>\<open>run\<close>, \<^verbatim>\<open>drain_tasks\<close> and \<^verbatim>\<open>drain_wakeup\<close>; \<open>None\<close>: the next one is not their own\<close>

fun loop_step :: "'h \<Rightarrow> ('h, 't) threads \<Rightarrow> ('h, 't) threads option" where
  "loop_step drain s =
     (let e = loop s in
      case place s of
        Entering \<Rightarrow> Some (s\<lparr>place := Checking, loop := e\<lparr>stopped := False\<rparr>\<rparr>)
      | Checking \<Rightarrow> Some (s\<lparr>place := Swapping (stopped e)\<rparr>)
      | Swapping l \<Rightarrow> Some (s\<lparr>place := Draining l (tasks e), loop := e\<lparr>tasks := []\<rparr>\<rparr>)
      | Draining l (t # ts) \<Rightarrow> Some (s\<lparr>place := Running l t ts, begun := begun s @ [t]\<rparr>)
      | Draining l [] \<Rightarrow> Some (s\<lparr>place := if l then Left None else Polling\<rparr>)
      | Dispatching (ev # evs) \<Rightarrow>
          Some (s\<lparr>place := (case handlers e (fst ev) of
              None \<Rightarrow> Dispatching evs | Some h \<Rightarrow> if h = drain then Reading evs else Handling evs)\<rparr>)
      | Dispatching [] \<Rightarrow> Some (s\<lparr>place := Checking\<rparr>)
      | Reading evs \<Rightarrow>
          (let e' = e\<lparr>syscalls := syscalls e @ [EventfdRead (event_fd e)]\<rparr>
           in Some (if 0 < event_counter e then s\<lparr>loop := e'\<lparr>event_counter := 0\<rparr>\<rparr>
                    else s\<lparr>place := Dispatching evs, loop := e'\<lparr>cerrno := EAGAIN\<rparr>\<rparr>))
      | _ \<Rightarrow> None)"

fun thread_step :: "'h \<Rightarrow> ('h, 't) thread_action \<Rightarrow> ('h, 't) threads \<Rightarrow> ('h, 't) threads option" where
  "thread_step drain (Change i x) s =
     (if i \<in> waking s \<or> i = 0 \<and> \<not> user_code (place s) then None else Some (call_step i x s))"
| "thread_step drain (Wake i rc) s =
     (if i \<in> waking s
      then Some (s\<lparr>loop := snd (wakeup ((loop s)\<lparr>answers := [rc]\<rparr>)), waking := waking s - {i}\<rparr>) else None)"
| "thread_step drain (SetHandler fd h) s = Some (s\<lparr>loop := (loop s)\<lparr>handlers := (handlers (loop s))(fd := h)\<rparr>\<rparr>)"
| "thread_step drain Access s = loop_step drain s"
| "thread_step drain (Poll answer) s =
     (if place s \<noteq> Polling then None
      else case answer of
        Inl err \<Rightarrow> Some (s\<lparr>place := if err = EINTR then Checking else Left (Some (SystemError err ''epoll_wait'')),
                          loop := (loop s)\<lparr>cerrno := err\<rparr>\<rparr>)
      | Inr evs \<Rightarrow> if length evs \<le> 64 then Some (s\<lparr>place := Dispatching evs\<rparr>) else None)"
| "thread_step drain (Finish x) s =
     (if 0 \<in> waking s then None
      else case place s of
        Running l t ts \<Rightarrow>
          Some (case x of None \<Rightarrow> s\<lparr>place := Draining l ts\<rparr> | Some _ \<Rightarrow> s\<lparr>place := Left x, dropped := ts\<rparr>)
      | Handling evs \<Rightarrow> Some (s\<lparr>place := (case x of None \<Rightarrow> Dispatching evs | Some _ \<Rightarrow> Left x)\<rparr>)
      | _ \<Rightarrow> None)"

text \<open>A schedule: the accesses of all threads in their order\<close>

fun schedule :: "'h \<Rightarrow> ('h, 't) thread_action list \<Rightarrow> ('h, 't) threads \<Rightarrow> ('h, 't) threads option" where
  "schedule drain [] s = Some s"
| "schedule drain (a # as) s = (case thread_step drain a s of None \<Rightarrow> None | Some s' \<Rightarrow> schedule drain as s')"

definition threads_start :: "('h, 't) event_loop \<Rightarrow> ('h, 't) threads" where
  "threads_start e = \<lparr>place = Entering, loop = e, waking = {}, pushed = tasks e, begun = [], dropped = []\<rparr>"

declare loop_step.simps [simp del]

section \<open>The steps, undone\<close>

text \<open>What one access may change, by what it is\<close>

lemma call_step_frame [simp]:
  "place (call_step i x s) = place s" "begun (call_step i x s) = begun s" "dropped (call_step i x s) = dropped s"
  "prefix (pushed s) (pushed (call_step i x s))"
  by (cases x; simp)+

lemma schedule_append:
  "schedule drain (as @ bs) s = (case schedule drain as s of None \<Rightarrow> None | Some s' \<Rightarrow> schedule drain bs s')"
  by (induction as arbitrary: s) (simp_all split: option.split)

lemma schedule_keeps:
  assumes "schedule drain as s = Some s'" and "I s"
    and "\<And>a s s'. a \<in> set as \<Longrightarrow> thread_step drain a s = Some s' \<Longrightarrow> I s \<Longrightarrow> I s'"
  shows "I s'"
  using assms
proof (induction as arbitrary: s)
  case (Cons a as)
  obtain s1 where s1: "thread_step drain a s = Some s1" "schedule drain as s1 = Some s'"
    using Cons.prems(1) by (auto split: option.splits)
  have "I s1" by (rule Cons.prems(3) [OF _ s1(1) Cons.prems(2)]) simp
  from Cons.IH [OF s1(2) this] show ?case by (meson Cons.prems(3) list.set_intros(2))
qed simp

lemma write_frame [simp]:
  fixes e :: "('h, 't) event_loop" and rc :: errno
  defines "e' \<equiv> snd (wakeup (e\<lparr>answers := [rc]\<rparr>))"
  shows "tasks e' = tasks e" "stopped e' = stopped e" "event_fd e' = event_fd e" "handlers e' = handlers e"
    "event_counter e \<le> event_counter e'"
  using wakeup_frame [of "e\<lparr>answers := [rc]\<rparr>" "fst (wakeup (e\<lparr>answers := [rc]\<rparr>))" e'] by (simp_all add: e'_def)

lemma write_counts:
  "rc = 0 \<or> rc = EAGAIN \<Longrightarrow> 0 < event_counter (snd (wakeup (e\<lparr>answers := [rc]\<rparr>)))"
  by (auto simp: wakeup_def sys_def bind_run seq_run count_wakeup_def throw_system_error_def)

section \<open>Each task runs once, in order\<close>

fun local_tasks :: "'t place \<Rightarrow> 't list" where
  "local_tasks (Draining l ts) = ts"
| "local_tasks (Running l t ts) = ts"
| "local_tasks p = []"

fun last_drain :: "'t place \<Rightarrow> bool" where
  "last_drain (Swapping l) = l"
| "last_drain (Draining l ts) = l"
| "last_drain (Running l t ts) = l"
| "last_drain (Left x) = (x = None)"
| "last_drain p = False"

definition queue_inv :: "('h, 't) threads \<Rightarrow> bool" where
  "queue_inv s \<longleftrightarrow> pushed s = begun s @ local_tasks (place s) @ dropped s @ tasks (loop s) \<and>
     (dropped s \<noteq> [] \<longrightarrow> (\<exists>x. place s = Left (Some x))) \<and>
     (last_drain (place s) \<longrightarrow> stopped (loop s)) \<and> (0 \<in> waking s \<longrightarrow> user_code (place s))"

lemma thread_step_queue:
  assumes "thread_step drain a s = Some s'" and "queue_inv s"
  shows "queue_inv s'"
proof (cases a)
  case (Change i x)
  then show ?thesis using assms by (cases x) (auto simp: queue_inv_def split: if_splits)
next
  case Access
  then show ?thesis using assms
    by (cases "place s")
       (auto simp: queue_inv_def loop_step.simps Let_def split: if_splits list.splits option.splits)
next
  case (Finish x)
  then show ?thesis using assms
    by (cases "place s") (auto simp: queue_inv_def split: if_splits option.splits)
qed (use assms in \<open>auto simp: queue_inv_def split: if_splits sum.splits\<close>)

lemma queue_inv_start: "queue_inv (threads_start e)"
  by (simp add: queue_inv_def threads_start_def)

lemma schedule_queue: "schedule drain as s = Some s' \<Longrightarrow> queue_inv s \<Longrightarrow> queue_inv s'"
  by (rule schedule_keeps [where I = queue_inv]) (auto intro: thread_step_queue)

text \<open>
  C20. The queue of tasks is first in, first out over every schedule of the threads: what was begun,
  what is left of the batch in work and what is queued make up what was pushed, in the order of the
  pushes. So every task runs at most once and on one thread; only an exception that leaves
  \<^verbatim>\<open>run\<close> destroys tasks, those of the batch in work.
\<close>

theorem tasks_run_in_order:
  assumes "schedule drain as (threads_start e) = Some s"
  shows "pushed s = begun s @ local_tasks (place s) @ dropped s @ tasks (loop s) \<and>
    (dropped s = [] \<or> (\<exists>x. place s = Left (Some x)))"
  using schedule_queue [OF assms queue_inv_start] by (auto simp: queue_inv_def)

section \<open>No wakeup is lost\<close>

text \<open>
  From the swap on, until it waits, the loop relies on the eventfd for the tasks pushed since then, and
  from the test of the flag on for a stop. Only \<^verbatim>\<open>drain_wakeup\<close> reads the eventfd, and it runs after the wait.
\<close>

fun past_swap :: "'t place \<Rightarrow> bool" where
  "past_swap (Draining l ts) = True"
| "past_swap (Running l t ts) = True"
| "past_swap Polling = True"
| "past_swap p = False"

fun past_check :: "'t place \<Rightarrow> bool" where
  "past_check (Swapping l) = (\<not> l)"
| "past_check (Draining l ts) = (\<not> l)"
| "past_check (Running l t ts) = (\<not> l)"
| "past_check Polling = True"
| "past_check p = False"

definition wake_coming :: "('h, 't) threads \<Rightarrow> bool" where
  "wake_coming s \<longleftrightarrow> 0 < event_counter (loop s) \<or> waking s \<noteq> {}"

definition armed_inv :: "('h, 't) threads \<Rightarrow> bool" where
  "armed_inv s \<longleftrightarrow> event_fd (loop s) \<noteq> -1 \<and>
     (past_swap (place s) \<and> tasks (loop s) \<noteq> [] \<or> past_check (place s) \<and> stopped (loop s) \<longrightarrow> wake_coming s)"

definition writes_succeed :: "('h, 't) thread_action list \<Rightarrow> bool" where
  "writes_succeed as \<longleftrightarrow> list_all (\<lambda>a. case a of Wake i rc \<Rightarrow> rc = 0 \<or> rc = EAGAIN | _ \<Rightarrow> True) as"

lemma thread_step_armed:
  assumes "thread_step drain a s = Some s'" and "writes_succeed [a]" and "armed_inv s"
  shows "armed_inv s'"
proof (cases a)
  case (Change i x)
  then show ?thesis using assms by (cases x) (auto simp: armed_inv_def wake_coming_def split: if_splits)
next
  case (Wake i rc)
  then show ?thesis
    using assms write_counts [of rc "loop s"]
    by (auto simp: armed_inv_def wake_coming_def writes_succeed_def split: if_splits)
next
  case Access
  then show ?thesis using assms
    by (cases "place s")
       (auto simp: armed_inv_def wake_coming_def loop_step.simps Let_def split: if_splits list.splits option.splits)
next
  case (Finish x)
  then show ?thesis using assms
    by (cases "place s") (auto simp: armed_inv_def wake_coming_def split: if_splits option.splits)
qed (use assms in \<open>auto simp: armed_inv_def wake_coming_def split: if_splits sum.splits\<close>)

lemma schedule_armed:
  assumes "schedule drain as s = Some s'" and "writes_succeed as" and "armed_inv s"
  shows "armed_inv s'"
proof (rule schedule_keeps [where I = armed_inv, OF assms(1,3)])
  fix a s s' assume "a \<in> set as" "thread_step drain a s = Some s'" "armed_inv s"
  then show "armed_inv s'" using thread_step_armed assms(2) by (fastforce simp: writes_succeed_def list_all_iff)
qed

text \<open>
  C19. Whatever the other threads do and when: while the loop waits, a task is queued or the stop
  requested only if the eventfd is readable, or another thread is about to write to it. The loop never
  sleeps over either.
\<close>

theorem threads_lose_no_wakeup:
  assumes "schedule drain as (threads_start e) = Some s"
    and "event_fd e \<noteq> -1" and "writes_succeed as"
    and "place s = Polling" and "tasks (loop s) \<noteq> [] \<or> stopped (loop s)"
  shows "0 < event_counter (loop s) \<or> (\<exists>i. i \<noteq> 0 \<and> i \<in> waking s)"
proof -
  have "armed_inv (threads_start e)" using assms(2) by (simp add: armed_inv_def threads_start_def)
  with assms have "wake_coming s" using schedule_armed [of drain as "threads_start e" s] by (simp add: armed_inv_def)
  moreover have "0 \<notin> waking s"
    using schedule_queue [OF assms(1) queue_inv_start] assms(4) by (auto simp: queue_inv_def)
  ultimately show ?thesis by (metis ex_in_conv wake_coming_def)
qed

section \<open>What is queued runs before the next wait and before the end\<close>

text \<open>The tasks begun or taken only grow, but for an exception.\<close>

lemma thread_step_pushed:
  assumes "thread_step drain a s = Some s'"
  shows "prefix (pushed s) (pushed s')"
  using assms
  by (cases a; cases "place s")
     (auto simp: loop_step.simps Let_def split: if_splits option.splits sum.splits list.splits)

lemma thread_step_taken:
  assumes "thread_step drain a s = Some s'" and "\<nexists>x. place s' = Left (Some x)"
  shows "prefix (begun s @ local_tasks (place s)) (begun s' @ local_tasks (place s'))"
  using assms
  by (cases a; cases "place s")
     (auto simp: loop_step.simps Let_def split: if_splits option.splits sum.splits list.splits)

text \<open>
  In a class of places that is only entered by a swap, whatever was pushed before is taken.
\<close>

definition taken_in :: "('t place \<Rightarrow> bool) \<Rightarrow> 't list \<Rightarrow> ('h, 't) threads \<Rightarrow> bool" where
  "taken_in Q ts s \<longleftrightarrow> queue_inv s \<and> prefix ts (pushed s) \<and>
     (Q (place s) \<longrightarrow> prefix ts (begun s @ local_tasks (place s)))"

lemma schedule_taken:
  assumes "schedule drain as s = Some s'" and "taken_in Q ts s"
    and "\<And>a s s'. thread_step drain a s = Some s' \<Longrightarrow> Q (place s') \<Longrightarrow> Q (place s) \<or> (\<exists>l. place s = Swapping l \<and> a = Access)"
    and "\<And>x. \<not> Q (Left (Some x))"
  shows "taken_in Q ts s'"
proof (rule schedule_keeps [where I = "taken_in Q ts", OF assms(1,2)])
  fix a s s' assume step: "thread_step drain a s = Some s'" and t: "taken_in Q ts s"
  have inv: "queue_inv s'" using thread_step_queue [OF step] t by (simp add: taken_in_def)
  show "taken_in Q ts s'"
  proof (cases "\<exists>x. place s' = Left (Some x)")
    case True
    then show ?thesis using t inv assms(4) thread_step_pushed [OF step] by (auto simp: taken_in_def intro: prefix_order.trans)
  next
    case False
    have "prefix ts (begun s' @ local_tasks (place s'))" if "Q (place s')"
      using assms(3) [OF step that]
    proof
      assume "Q (place s)"
      then show ?thesis using t thread_step_taken [OF step False] by (auto simp: taken_in_def intro: prefix_order.trans)
    next
      assume "\<exists>l. place s = Swapping l \<and> a = Access"
      then show ?thesis using step t by (auto simp: taken_in_def queue_inv_def loop_step.simps Let_def)
    qed
    then show ?thesis using t thread_step_pushed [OF step] inv by (auto simp: taken_in_def intro: prefix_order.trans)
  qed
qed

lemma past_swap_entered:
  "thread_step drain a s = Some s' \<Longrightarrow> past_swap (place s') \<Longrightarrow> past_swap (place s) \<or> (\<exists>l. place s = Swapping l \<and> a = Access)"
  by (cases a; cases "place s")
     (auto simp: loop_step.simps Let_def split: if_splits option.splits sum.splits list.splits)

text \<open>
  C21. When the loop waits again, everything that was queued when it last waited has been begun: tasks are
  served in every round, however many are pushed meanwhile.
\<close>

theorem round_serves_queue:
  assumes "schedule drain as (threads_start e) = Some s" and "place s = Polling"
    and "schedule drain bs s = Some s'" and "place s' = Polling" and "\<exists>answer. Poll answer \<in> set bs"
  shows "prefix (pushed s) (begun s')"
proof -
  obtain bs1 answer bs2 where bs: "bs = bs1 @ Poll answer # bs2" using assms(5) by (metis split_list)
  obtain s1 s2 where s1: "schedule drain bs1 s = Some s1" and s2: "thread_step drain (Poll answer) s1 = Some s2"
    and rest: "schedule drain bs2 s2 = Some s'"
    using assms(3) by (auto simp: bs schedule_append split: option.splits)
  have "taken_in (\<lambda>_. False) (pushed s) s"
    using schedule_queue [OF assms(1) queue_inv_start] by (simp add: taken_in_def)
  then have "taken_in (\<lambda>_. False) (pushed s) s1" using schedule_taken [OF s1] by blast
  then have "taken_in past_swap (pushed s) s2"
    using s2 thread_step_queue [OF s2] by (auto simp: taken_in_def split: if_splits sum.splits)
  then have "taken_in past_swap (pushed s) s'"
    by (rule schedule_taken [OF rest]) (auto dest: past_swap_entered)
  then show ?thesis using assms(4) by (simp add: taken_in_def)
qed

fun after_last_swap :: "'t place \<Rightarrow> bool" where
  "after_last_swap (Swapping l) = False"
| "after_last_swap p = last_drain p"

lemma after_last_swap_entered:
  "thread_step drain a s = Some s' \<Longrightarrow> after_last_swap (place s') \<Longrightarrow> after_last_swap (place s) \<or> (\<exists>l. place s = Swapping l \<and> a = Access)"
  by (cases a; cases "place s")
     (auto simp: loop_step.simps Let_def split: if_splits option.splits sum.splits list.splits)

text \<open>
  C22. What was posted before the stop was requested has run when \<^verbatim>\<open>run\<close> returns. (The demo client relies on
  it: it posts the close of its session and then stops the loop.)
\<close>

theorem posted_before_stop_runs:
  assumes "schedule drain as (threads_start e) = Some s" and "\<not> stopped (loop s)"
    and "schedule drain bs s = Some s'" and "place s' = Left None"
  shows "prefix (pushed s) (begun s')"
proof -
  have "queue_inv s" by (rule schedule_queue [OF assms(1) queue_inv_start])
  moreover have "after_last_swap p \<Longrightarrow> last_drain p" for p :: "'b place" by (cases p) simp_all
  ultimately have "taken_in after_last_swap (pushed s) s"
    using assms(2) by (auto simp: taken_in_def queue_inv_def)
  then have "taken_in after_last_swap (pushed s) s'"
    by (rule schedule_taken [OF assms(3)]) (auto dest: after_last_swap_entered)
  then show ?thesis using assms(4) by (simp add: taken_in_def)
qed

text \<open>After the flag is set, the loop waits at most once more, if it was past its test.\<close>

fun is_poll :: "('h, 't) thread_action \<Rightarrow> bool" where
  "is_poll (Poll answer) = True"
| "is_poll a = False"

lemma thread_step_stopped:
  assumes "thread_step drain a s = Some s'" and "stopped (loop s)" and "place s \<noteq> Entering"
  shows "stopped (loop s') \<and> place s' \<noteq> Entering \<and>
    of_bool (is_poll a) + of_bool (past_check (place s')) \<le> (of_bool (past_check (place s)) :: nat)"
proof (cases a)
  case (Change i x)
  then show ?thesis using assms by (cases x) (auto split: if_splits)
qed (use assms in \<open>cases "place s"; auto simp: loop_step.simps Let_def split: if_splits option.splits sum.splits list.splits\<close>)+

text \<open>
  C17. A stop that is requested once \<^verbatim>\<open>run\<close> has cleared the flag is heeded, from whatever thread and at whatever
  moment it comes: the flag stays set, and epoll_wait returns at most once more, if the loop had
  passed its test already.
\<close>

theorem stop_is_heeded:
  assumes "stopped (loop s)" and "place s \<noteq> Entering" and "schedule drain bs s = Some s'"
  shows "stopped (loop s') \<and> length (filter is_poll bs) \<le> of_bool (past_check (place s))"
  using assms
proof (induction bs arbitrary: s)
  case (Cons a bs)
  obtain s1 where s1: "thread_step drain a s = Some s1" "schedule drain bs s1 = Some s'"
    using Cons.prems(3) by (auto split: option.splits)
  note st = thread_step_stopped [OF s1(1) Cons.prems(1,2)]
  have "stopped (loop s') \<and> length (filter is_poll bs) \<le> of_bool (past_check (place s1))"
    by (rule Cons.IH [OF _ _ s1(2)]) (use st in simp_all)
  then show ?case using st by (cases "is_poll a"; cases "past_check (place s1)") auto
qed simp

section \<open>The operations, undisturbed\<close>

text \<open>
  The two accesses of \<^verbatim>\<open>post\<close> and \<^verbatim>\<open>stop\<close>, with none of another thread in between, and the reads
  of \<^verbatim>\<open>drain_wakeup\<close> are the operations of the loop.
\<close>

lemma accesses_are_operations:
  shows "i \<notin> waking s \<Longrightarrow> i \<noteq> 0 \<or> user_code (place s) \<Longrightarrow>
      schedule drain [Change i (ExtPost t), Wake i rc] s =
        Some (s\<lparr>loop := snd (loop_post t ((loop s)\<lparr>answers := [rc]\<rparr>)), pushed := pushed s @ [t]\<rparr>)"
    and "i \<notin> waking s \<Longrightarrow> i \<noteq> 0 \<or> user_code (place s) \<Longrightarrow> event_fd (loop s) \<noteq> -1 \<Longrightarrow>
      schedule drain [Change i ExtStop, Wake i rc] s = Some (s\<lparr>loop := snd (loop_stop ((loop s)\<lparr>answers := [rc]\<rparr>))\<rparr>)"
    and "place s = Reading evs \<Longrightarrow> \<exists>n.
      schedule drain (replicate n Access) s = Some (s\<lparr>place := Dispatching evs, loop := snd (drain_wakeup (loop s))\<rparr>)"
proof -
  have "e\<lparr>tasks := ts, answers := as\<rparr> = e\<lparr>answers := as, tasks := ts\<rparr>"
    and "e\<lparr>stopped := b, answers := as\<rparr> = e\<lparr>answers := as, stopped := b\<rparr>" for e :: "('a, 'b) event_loop" and ts b as
    by (cases e; simp)+
  note comm = this
  show "i \<notin> waking s \<Longrightarrow> i \<noteq> 0 \<or> user_code (place s) \<Longrightarrow> schedule drain [Change i (ExtPost t), Wake i rc] s =
        Some (s\<lparr>loop := snd (loop_post t ((loop s)\<lparr>answers := [rc]\<rparr>)), pushed := pushed s @ [t]\<rparr>)"
    by (cases s) (auto simp: loop_post_def seq_run comm)
  show "i \<notin> waking s \<Longrightarrow> i \<noteq> 0 \<or> user_code (place s) \<Longrightarrow> event_fd (loop s) \<noteq> -1 \<Longrightarrow>
      schedule drain [Change i ExtStop, Wake i rc] s = Some (s\<lparr>loop := snd (loop_stop ((loop s)\<lparr>answers := [rc]\<rparr>))\<rparr>)"
    by (cases s) (auto simp: loop_stop_def seq_run comm)
  show "\<exists>n. schedule drain (replicate n Access) s = Some (s\<lparr>place := Dispatching evs, loop := snd (drain_wakeup (loop s))\<rparr>)"
    if "place s = Reading evs"
  proof (cases "event_counter (loop s) = 0")
    case True
    then have "schedule drain (replicate 1 Access) s = Some (s\<lparr>place := Dispatching evs, loop := snd (drain_wakeup (loop s))\<rparr>)"
      using that by (simp add: loop_step.simps Let_def drain_wakeup_idle)
    then show ?thesis by blast
  next
    case False
    then have "schedule drain (replicate 2 Access) s = Some (s\<lparr>place := Dispatching evs, loop := snd (drain_wakeup (loop s))\<rparr>)"
      using that by (simp add: loop_step.simps Let_def drain_wakeup_ready numeral_2_eq_2)
    then show ?thesis by blast
  qed
qed

section \<open>Examples\<close>

text \<open>
  An idle loop that waits. Thread 1 posts a task; the loop wakes up, runs it and waits again. Then thread
  2 stops it.
\<close>

definition waiting :: "(unit, nat) threads" where
  "waiting = \<lparr>place = Polling, loop = idle_loop, waking = {}, pushed = [], begun = [], dropped = []\<rparr>"

definition to_wait :: "(unit, nat) thread_action list" where
  "to_wait = [Access, Access, Access, Access]"

definition wake_up :: "(unit, nat) thread_action list" where
  "wake_up = [Poll (Inr [(4, EPOLLIN)]), Access, Access, Access, Access, Access, Access]"

definition a_post :: "(unit, nat) thread_action list" where
  "a_post = [Change 1 (ExtPost 7)]"

definition a_round :: "(unit, nat) thread_action list" where
  "a_round = Wake 1 0 # wake_up @ [Access, Finish None, Access]"

definition a_stop :: "(unit, nat) thread_action list" where
  "a_stop = [Change 2 ExtStop, Wake 2 0] @ wake_up @ [Access]"

lemmas demo_schedule_defs = to_wait_def wake_up_def a_post_def a_round_def a_stop_def waiting_def threads_start_def
  idle_loop_def loop_step.simps wakeup_def sys_def bind_run seq_run count_wakeup_def

lemma demo_waits: "schedule () to_wait (threads_start idle_loop) = Some waiting"
  by (simp add: demo_schedule_defs)

lemma demo_posts: "schedule () a_post waiting = Some (waiting\<lparr>loop := idle_loop\<lparr>tasks := [7]\<rparr>, waking := {1}, pushed := [7]\<rparr>)"
  by (simp add: demo_schedule_defs)

lemma demo_serves:
  "\<exists>s. schedule () (a_post @ a_round) waiting = Some s \<and> place s = Polling \<and> begun s = [7] \<and> waking s = {}
    \<and> tasks (loop s) = [] \<and> \<not> stopped (loop s)"
  by (simp add: demo_schedule_defs)

lemma demo_stops:
  "\<exists>s. schedule () (a_round @ a_stop) (waiting\<lparr>loop := idle_loop\<lparr>tasks := [7]\<rparr>, waking := {1}, pushed := [7]\<rparr>) = Some s
    \<and> place s = Left None \<and> begun s = [7]"
  by (simp add: demo_schedule_defs)

theorem tasks_run_in_order_witness:
  "\<exists>s. schedule () (to_wait @ a_post @ a_round) (threads_start idle_loop) = Some s \<and> begun s = [7] \<and>
    pushed s = begun s @ local_tasks (place s) @ dropped s @ tasks (loop s) \<and> (dropped s = [] \<or> (\<exists>x. place s = Left (Some x)))"
proof -
  obtain s where "schedule () (a_post @ a_round) waiting = Some s" "begun s = [7]" using demo_serves by blast
  then have run: "schedule () (to_wait @ a_post @ a_round) (threads_start idle_loop) = Some s"
    by (simp only: schedule_append demo_waits option.case)
  then show ?thesis using tasks_run_in_order [OF run] \<open>begun s = [7]\<close> by blast
qed

theorem threads_lose_no_wakeup_witness:
  "\<exists>s. schedule () (to_wait @ a_post) (threads_start idle_loop) = Some s \<and> place s = Polling \<and> tasks (loop s) = [7] \<and>
    (0 < event_counter (loop s) \<or> (\<exists>i. i \<noteq> 0 \<and> i \<in> waking s))"
proof -
  let ?s = "waiting\<lparr>loop := idle_loop\<lparr>tasks := [7]\<rparr>, waking := {1}, pushed := [7]\<rparr>"
  have run: "schedule () (to_wait @ a_post) (threads_start idle_loop) = Some ?s"
    by (simp only: schedule_append demo_waits demo_posts option.case)
  have "0 < event_counter (loop ?s) \<or> (\<exists>i. i \<noteq> 0 \<and> i \<in> waking ?s)"
    by (rule threads_lose_no_wakeup [OF run])
       (simp_all add: writes_succeed_def to_wait_def a_post_def waiting_def idle_loop_def)
  then show ?thesis using run by (simp add: waiting_def)
qed

theorem round_serves_queue_witness:
  "\<exists>s. schedule () a_round (waiting\<lparr>loop := idle_loop\<lparr>tasks := [7]\<rparr>, waking := {1}, pushed := [7]\<rparr>) = Some s \<and>
    prefix [7] (begun s)"
proof -
  let ?s = "waiting\<lparr>loop := idle_loop\<lparr>tasks := [7]\<rparr>, waking := {1}, pushed := [7]\<rparr>"
  have run: "schedule () (to_wait @ a_post) (threads_start idle_loop) = Some ?s"
    by (simp only: schedule_append demo_waits demo_posts option.case)
  obtain s where s: "schedule () a_round ?s = Some s" "place s = Polling"
    using demo_serves by (auto simp: schedule_append demo_posts)
  have "prefix (pushed ?s) (begun s)"
    by (rule round_serves_queue [OF run _ s]) (auto simp: waiting_def a_round_def wake_up_def)
  then show ?thesis using s(1) by simp
qed

theorem posted_before_stop_runs_witness:
  "\<exists>s. schedule () (a_round @ a_stop) (waiting\<lparr>loop := idle_loop\<lparr>tasks := [7]\<rparr>, waking := {1}, pushed := [7]\<rparr>) = Some s \<and>
    place s = Left None \<and> prefix [7] (begun s)"
proof -
  let ?s = "waiting\<lparr>loop := idle_loop\<lparr>tasks := [7]\<rparr>, waking := {1}, pushed := [7]\<rparr>"
  have run: "schedule () (to_wait @ a_post) (threads_start idle_loop) = Some ?s"
    by (simp only: schedule_append demo_waits demo_posts option.case)
  obtain s where s: "schedule () (a_round @ a_stop) ?s = Some s" "place s = Left None" using demo_stops by blast
  have "prefix (pushed ?s) (begun s)"
    by (rule posted_before_stop_runs [OF run _ s]) (simp add: idle_loop_def)
  then show ?thesis using s by simp
qed

theorem stop_is_heeded_witness:
  "\<exists>s. schedule () (Wake 2 0 # wake_up @ [Access]) (waiting\<lparr>loop := idle_loop\<lparr>stopped := True\<rparr>, waking := {2}\<rparr>) = Some s \<and>
    stopped (loop s) \<and> length (filter is_poll (Wake 2 0 # wake_up @ [Access])) \<le> of_bool (past_check (place waiting))"
proof -
  let ?s = "waiting\<lparr>loop := idle_loop\<lparr>stopped := True\<rparr>, waking := {2}\<rparr>"
  obtain s where s: "schedule () (Wake 2 0 # wake_up @ [Access]) ?s = Some s" by (simp add: demo_schedule_defs)
  from stop_is_heeded [OF _ _ s] show ?thesis using s by (simp add: waiting_def)
qed

end
