(* ===== verification/Loop_Interleaved.thy ===== *)
theory Loop_Interleaved
  imports Loop_Threads
begin

text \<open>
  \<^verbatim>\<open>run\<close> with the effects of its tasks and handlers, and with \<^verbatim>\<open>post\<close> and \<^verbatim>\<open>stop\<close> of other threads between
  any two of its steps, not only while it waits. A task or handler is one step here, and so is a call from
  outside; \<open>Loop_Threads\<close> divides both. An invariant of \<open>loop_invariant\<close> holds at every moment of such a
  run, and the runs of \<open>Event_Loop\<close> are among them.
\<close>

section \<open>Steps\<close>

inductive run_step ::
    "('t \<Rightarrow> bool) \<Rightarrow> ('t \<Rightarrow> ('o \<times> ('h, 't, 'x) event_loop_scheme, unit) eff) \<Rightarrow>
     ('h \<Rightarrow> u32 \<Rightarrow> ('o \<times> ('h, 't, 'x) event_loop_scheme, unit) eff) \<Rightarrow>
     't place \<times> 'o \<times> ('h, 't, 'x) event_loop_scheme \<Rightarrow> 't place \<times> 'o \<times> ('h, 't, 'x) event_loop_scheme \<Rightarrow> bool"
  for ok run_task run_handler where
  step_external: "external_ok ok x \<Longrightarrow> run_step ok run_task run_handler (pc, ob, e) (pc, ob, run_external x e)"
| step_enter: "run_step ok run_task run_handler (Entering, ob, e) (Checking, ob, e\<lparr>stopped := False\<rparr>)"
| step_check: "run_step ok run_task run_handler (Checking, ob, e) (Swapping (stopped e), ob, e)"
| step_swap: "run_step ok run_task run_handler (Swapping l, ob, e) (Draining l (tasks e), ob, e\<lparr>tasks := []\<rparr>)"
| step_task: "run_task t (ob, e) = (r, s') \<Longrightarrow>
    run_step ok run_task run_handler (Draining l (t # ts), ob, e)
      (case r of Inr _ \<Rightarrow> Draining l ts | Inl x \<Rightarrow> Left (Some x), s')"
| step_drained: "run_step ok run_task run_handler (Draining l [], ob, e) (if l then Left None else Polling, ob, e)"
| step_interrupted: "run_step ok run_task run_handler (Polling, ob, e) (Checking, ob, e\<lparr>cerrno := EINTR\<rparr>)"
| step_failed: "err \<noteq> EINTR \<Longrightarrow> run_step ok run_task run_handler (Polling, ob, e)
      (Left (Some (SystemError err ''epoll_wait'')), ob, e\<lparr>cerrno := err\<rparr>)"
| step_polled: "run_step ok run_task run_handler (Polling, ob, e) (Dispatching evs, ob, e)"
| step_event: "dispatch_event run_handler ev (ob, e) = (r, s') \<Longrightarrow>
    run_step ok run_task run_handler (Dispatching (ev # evs), ob, e)
      (case r of Inr _ \<Rightarrow> Dispatching evs | Inl x \<Rightarrow> Left (Some x), s')"
| step_dispatched: "run_step ok run_task run_handler (Dispatching [], ob, e) (Checking, ob, e)"

abbreviation run_steps where
  "run_steps ok run_task run_handler \<equiv> (run_step ok run_task run_handler)\<^sup>*\<^sup>*"

section \<open>Invariants hold throughout\<close>

context loop_invariant
begin

lemma run_step_inv:
  assumes "run_step ok run_task run_handler (pc, ob, e) (pc', ob', e')"
    and "list_all ok (local_tasks pc)" and "I ob e" and "\<nexists>x. pc' = Left (Some x)"
  shows "list_all ok (local_tasks pc') \<and> I ob' e'"
  using assms
proof (cases rule: run_step.cases)
  case (step_external x)
  then show ?thesis using assms(2,3) external_inv [of ob e "[x]"] by simp
next
  case (step_task t r l ts)
  then show ?thesis using assms(2-4) inv_task [of ob e t ob' e'] by (auto split: sum.splits)
next
  case (step_event ev r evs)
  then have "dispatch_event run_handler ev (ob, e) = (Inr (), (ob', e'))" using assms(4) by (auto split: sum.splits)
  then show ?thesis using assms(3) step_event dispatch_inv [of ob e "[ev]" ob' e'] by (simp add: seq_run)
next
  case step_swap
  then show ?thesis using assms(3) inv_queue [of ob e] by (auto intro: inv_loop)
qed (use assms(2,3) in \<open>auto simp: inv_queue split: if_splits intro: inv_loop\<close>)

lemma left_stays:
  "run_steps ok run_task run_handler (Left x, s) st \<Longrightarrow> fst st = Left x"
  by (induction rule: rtranclp_induct) (auto elim: run_step.cases)

lemma run_steps_inv:
  assumes "run_steps ok run_task run_handler (pc, ob, e) (pc', ob', e')"
    and "list_all ok (local_tasks pc)" and "I ob e" and "\<nexists>x. pc' = Left (Some x)"
  shows "I ob' e'"
proof -
  have "(\<exists>x. fst st = Left (Some x)) \<or> list_all ok (local_tasks (fst st)) \<and> (case snd st of (ob, e) \<Rightarrow> I ob e)"
    if "run_steps ok run_task run_handler (pc, ob, e) st" for st
    using that
  proof (induction rule: rtranclp_induct)
    case base
    then show ?case using assms(2,3) by simp
  next
    case (step st st')
    then show ?case
    proof (cases "\<exists>x. fst st = Left (Some x)")
      case True
      then have "fst st' = fst st" using step(2) left_stays [OF r_into_rtranclp] by (metis prod.collapse)
      then show ?thesis using True by simp
    next
      case False
      then show ?thesis using step(2,3) run_step_inv by (cases st; cases st') fastforce
    qed
  qed
  from this [OF assms(1)] assms(4) show ?thesis by auto
qed

end

section \<open>The runs of the loop are among them\<close>

text \<open>Where \<^verbatim>\<open>run\<close> ends, by its result\<close>

definition left_with :: "exn + unit \<Rightarrow> 't place" where
  "left_with r = (case r of Inl x \<Rightarrow> Left (Some x) | Inr _ \<Rightarrow> Left None)"

lemma steps_trans: "run_step ok rt rh st st' \<Longrightarrow> run_steps ok rt rh st' st'' \<Longrightarrow> run_steps ok rt rh st st''"
  by (rule converse_rtranclp_into_rtranclp)

lemma externals_steps:
  "list_all (external_ok ok) ext \<Longrightarrow> run_steps ok rt rh (pc, ob, e) (pc, ob, fold run_external ext e)"
proof (induction ext arbitrary: e)
  case (Cons x ext)
  then show ?case using steps_trans [OF step_external [of ok x rt rh pc ob e]] by simp
qed simp

lemma tasks_steps:
  "for_each rt ts (ob, e) = (r, s') \<Longrightarrow>
    run_steps ok rt rh (Draining l ts, ob, e) (case r of Inr _ \<Rightarrow> Draining l [] | Inl x \<Rightarrow> Left (Some x), s')"
proof (induction ts arbitrary: ob e)
  case (Cons t ts)
  obtain r1 ob1 e1 where t: "rt t (ob, e) = (r1, (ob1, e1))" by (rule prod_cases3)
  have step: "run_step ok rt rh (Draining l (t # ts), ob, e)
      (case r1 of Inr _ \<Rightarrow> Draining l ts | Inl x \<Rightarrow> Left (Some x), ob1, e1)"
    using t by (rule step_task)
  then show ?case using Cons.prems Cons.IH [of ob1 e1] t
    by (cases r1) (auto simp: seq_run intro: steps_trans)
qed (auto simp: ret_run)

lemma drain_steps:
  assumes "drain_tasks rt (ob, e) = (r, s')"
  shows "run_steps ok rt rh (Swapping l, ob, e) (case r of Inr _ \<Rightarrow> Draining l [] | Inl x \<Rightarrow> Left (Some x), s')"
  using assms by (intro steps_trans [OF step_swap] tasks_steps) (simp add: drain_tasks_def)

lemma last_drain_steps:
  assumes "drain_tasks rt (ob, e) = (r, s')" and "stopped e"
  shows "run_steps ok rt rh (Checking, ob, e) (left_with r, s')"
proof (cases r)
  case (Inl x)
  then show ?thesis
    using steps_trans [OF step_check drain_steps [OF assms(1)], of ok rh] assms(2) by (simp add: left_with_def)
next
  case (Inr u)
  obtain ob' e' where s': "s' = (ob', e')" by (cases s')
  have "run_steps ok rt rh (Checking, ob, e) (Draining True [], ob', e')"
    using steps_trans [OF step_check drain_steps [OF assms(1)], of ok rh] assms(2) Inr s' by simp
  moreover have "run_step ok rt rh (Draining True [], ob', e') (Left None, ob', e')"
    using step_drained [of ok rt rh True ob' e'] by simp
  ultimately show ?thesis using Inr s' by (auto simp: left_with_def intro: rtranclp.rtrancl_into_rtrancl)
qed

lemma first_drain_steps:
  assumes "drain_tasks rt (ob, e) = (r, (ob', e'))" and "\<not> stopped e"
  shows "run_steps ok rt rh (Checking, ob, e) (case r of Inr _ \<Rightarrow> Polling | Inl x \<Rightarrow> Left (Some x), ob', e')"
proof -
  have "run_steps ok rt rh (Checking, ob, e) (case r of Inr _ \<Rightarrow> Draining False [] | Inl x \<Rightarrow> Left (Some x), ob', e')"
    using steps_trans [OF step_check drain_steps [OF assms(1)], of ok rh] assms(2) by (cases r) simp_all
  moreover have "run_step ok rt rh (Draining False [], ob', e') (Polling, ob', e')"
    using step_drained [of ok rt rh False ob' e'] by simp
  ultimately show ?thesis by (cases r) (auto intro: rtranclp.rtrancl_into_rtrancl)
qed

lemma events_steps:
  "for_each (dispatch_event rh) evs (ob, e) = (r, s') \<Longrightarrow>
    run_steps ok rt rh (Dispatching evs, ob, e) (case r of Inr _ \<Rightarrow> Checking | Inl x \<Rightarrow> Left (Some x), s')"
proof (induction evs arbitrary: ob e)
  case Nil
  then show ?case using step_dispatched [of ok rt rh ob e] by auto
next
  case (Cons ev evs)
  obtain r1 ob1 e1 where ev: "dispatch_event rh ev (ob, e) = (r1, (ob1, e1))" by (rule prod_cases3)
  have step: "run_step ok rt rh (Dispatching (ev # evs), ob, e)
      (case r1 of Inr _ \<Rightarrow> Dispatching evs | Inl x \<Rightarrow> Left (Some x), ob1, e1)"
    using ev by (rule step_event)
  then show ?case using Cons.prems Cons.IH [of ob1 e1] ev
    by (cases r1) (auto simp: seq_run intro: steps_trans)
qed

text \<open>What \<open>run_iterations\<close> does with an answer of epoll_wait\<close>

lemma answer_steps:
  assumes IH: "\<And>ob e. run_iterations rt rh ws (ob, e) = Some (r, s') \<Longrightarrow>
      run_steps ok rt rh (Checking, ob, e) (left_with r, s')"
    and run: "(case answer of
        Inl err \<Rightarrow> (let e = e\<lparr>cerrno := err\<rparr>
          in if err = EINTR then run_iterations rt rh ws (ob, e)
             else Some (on_snd (throw_system_error ''epoll_wait'') (ob, e)))
      | Inr events \<Rightarrow> (case for_each (dispatch_event rh) events (ob, e) of
          (Inl ex, s) \<Rightarrow> Some (Inl ex, s) | (Inr _, s) \<Rightarrow> run_iterations rt rh ws s)) = Some (r, s')"
  shows "run_steps ok rt rh (Polling, ob, e) (left_with r, s')"
proof (cases answer)
  case (Inl err)
  show ?thesis
  proof (cases "err = EINTR")
    case True
    then show ?thesis using run Inl by (intro steps_trans [OF step_interrupted] IH) (simp add: Let_def)
  next
    case False
    then show ?thesis
      using run Inl steps_trans [OF step_failed [OF False, of ok rt rh ob e] rtranclp.rtrancl_refl]
      by (auto simp: Let_def on_snd_run throw_system_error_def left_with_def)
  qed
next
  case (Inr evs)
  obtain r2 ob2 e2 where f: "for_each (dispatch_event rh) evs (ob, e) = (r2, (ob2, e2))" by (rule prod_cases3)
  have "run_steps ok rt rh (Polling, ob, e) (case r2 of Inr _ \<Rightarrow> Checking | Inl x \<Rightarrow> Left (Some x), ob2, e2)"
    by (rule steps_trans [OF step_polled events_steps [OF f]])
  moreover have "run_steps ok rt rh (case r2 of Inr _ \<Rightarrow> Checking | Inl x \<Rightarrow> Left (Some x), ob2, e2) (left_with r, s')"
    using IH [of ob2 e2] run Inr f by (cases r2) (auto simp: left_with_def)
  ultimately show ?thesis by (rule rtranclp_trans)
qed

lemma iterations_steps:
  assumes "run_iterations rt rh ws (ob, e) = Some (r, s')" and "list_all (wait_ok ok) ws"
  shows "run_steps ok rt rh (Checking, ob, e) (left_with r, s')"
  using assms
proof (induction ws arbitrary: ob e)
  case Nil
  obtain r1 ob1 e1 where d: "drain_tasks rt (ob, e) = (r1, (ob1, e1))" by (rule prod_cases3)
  show ?case
  proof (cases "stopped e")
    case True
    then show ?thesis using Nil d last_drain_steps [OF d True, of ok rh] by auto
  next
    case False
    then show ?thesis using Nil d first_drain_steps [OF d False, of ok rh]
      by (auto simp: left_with_def split: sum.splits)
  qed
next
  case (Cons w ws)
  obtain ext answer where w: "w = Wait ext answer" by (cases w)
  obtain r1 ob1 e1 where d: "drain_tasks rt (ob, e) = (r1, (ob1, e1))" by (rule prod_cases3)
  consider "stopped e" | "\<not> stopped e" "isl r1" | "\<not> stopped e" "\<not> isl r1" by blast
  then show ?case
  proof cases
    case 1
    then show ?thesis using Cons.prems w d last_drain_steps [OF d 1, of ok rh] by auto
  next
    case 2
    then show ?thesis using Cons.prems w d first_drain_steps [OF d 2(1), of ok rh]
      by (cases r1) (auto simp: left_with_def)
  next
    case 3
    then have "run_steps ok rt rh (Checking, ob, e) (Polling, ob1, e1)"
      using first_drain_steps [OF d 3(1), of ok rh] by (cases r1) simp_all
    moreover have "run_steps ok rt rh (Polling, ob1, e1) (Polling, ob1, fold run_external ext e1)"
      by (rule externals_steps) (use Cons.prems(2) w in simp)
    moreover have "run_steps ok rt rh (Polling, ob1, fold run_external ext e1) (left_with r, s')"
      by (rule answer_steps [where ws = ws and answer = answer])
         (use Cons.IH Cons.prems w d 3 in \<open>auto simp: Let_def split: sum.splits\<close>)
    ultimately show ?thesis by (meson rtranclp_trans)
  qed
qed

lemma runs_are_interleaved:
  assumes "loop_run rt rh ws (ob, e) = Some (r, s')" and "list_all (wait_ok ok) ws"
  shows "run_steps ok rt rh (Entering, ob, e) (left_with r, s')"
  using steps_trans [OF step_enter iterations_steps] assms by (simp add: loop_run_def)

end
