(* ===== verification/Server_Laws.thy ===== *)
theory Server_Laws
  imports Server Loop_Interleaved
begin

text \<open>
  What the server guarantees: its map of sessions is exactly the set of open sessions, its handler
  table points only to open sessions, whatever is accepted, read, written or closed in whatever
  order; stopping closes everything; no task is left without a wakeup; and what the failure paths
  of the listener really report.
\<close>

section \<open>The registry of sessions\<close>

definition heap_inv :: "objects \<Rightarrow> bool" where
  "heap_inv ob \<longleftrightarrow> next_id ob = of_nat (Suc (next_ptr ob)) \<and>
     (\<forall>p s. heap ob p = Some s \<longrightarrow>
        p < next_ptr ob \<and> queue_ok s \<and> close_cb s = Some EraseSession \<and> session_id s = of_nat (Suc p) \<and>
        (\<not> is_open s \<longrightarrow> socket_fd s = -1))"

definition map_inv :: "objects \<Rightarrow> (u64 \<rightharpoonup> ptr) \<Rightarrow> bool" where
  "map_inv ob m \<longleftrightarrow>
     (\<forall>sid p. m sid = Some p \<longrightarrow> (\<exists>s. heap ob p = Some s \<and> session_id s = sid \<and> is_open s)) \<and>
     (Suc (next_ptr ob) < 2 ^ 64 \<longrightarrow> (\<forall>p s. heap ob p = Some s \<longrightarrow> is_open s \<longrightarrow> m (session_id s) = Some p))"

definition server_inv :: "objects \<Rightarrow> 'u server \<Rightarrow> bool" where
  "server_inv ob e \<longleftrightarrow> heap_inv ob \<and> map_inv ob (sessions e) \<and> table_inv ob (handlers e) \<and>
     list_all task_ok (tasks e)"

lemma server_inv_queues: "server_inv ob e \<Longrightarrow> queues_ok ob"
  by (auto simp: server_inv_def heap_inv_def queues_ok_def)

lemma session_ids_distinct:
  assumes "heap_inv ob" and "Suc (next_ptr ob) < 2 ^ 64"
    and "heap ob p = Some s" and "heap ob q = Some t" and "session_id s = session_id t"
  shows "p = q"
proof -
  have "p < next_ptr ob" "q < next_ptr ob" "(of_nat (Suc p) :: u64) = of_nat (Suc q)"
    using assms by (auto simp: heap_inv_def)
  then have "unat (of_nat (Suc p) :: u64) = unat (of_nat (Suc q) :: u64)" by simp
  then have "Suc p = Suc q"
    using assms(2) \<open>p < next_ptr ob\<close> \<open>q < next_ptr ob\<close>
    by (simp only: unat_of_nat) (simp add: take_bit_nat_eq_self)
  then show ?thesis by simp
qed

lemma map_inv_update:
  assumes "heap_inv ob" "map_inv ob m" "heap ob p = Some s" "op_frame sessions erase_closed p s e s' e'"
    and "m = sessions e"
  shows "map_inv (ob\<lparr>heap := (heap ob)(p \<mapsto> s')\<rparr>) (sessions e')"
proof -
  have cb: "close_cb s = Some EraseSession" using assms(1,3) by (simp add: heap_inv_def)
  have m': "sessions e' = (if is_open s \<and> \<not> is_open s' then m(session_id s := None) else m)"
    and s': "session_id s' = session_id s" "is_open s' \<Longrightarrow> is_open s"
    using assms(4,5) cb by (auto simp: op_frame_def forgotten_def erase_closed_def split: if_splits)
  show ?thesis
    unfolding map_inv_def
  proof (intro conjI allI impI)
    fix sid q
    assume q: "sessions e' sid = Some q"
    then have "m sid = Some q" using m' by (auto split: if_splits)
    then obtain t where t: "heap ob q = Some t" "session_id t = sid" "is_open t"
      using assms(2) by (auto simp: map_inv_def)
    then have "q = p \<Longrightarrow> is_open s'" using q m' assms(3) by (auto split: if_splits)
    then show "\<exists>t. heap (ob\<lparr>heap := (heap ob)(p \<mapsto> s')\<rparr>) q = Some t \<and> session_id t = sid \<and> is_open t"
      using t assms(3) s'(1) by (cases "q = p") simp_all
  next
    fix q t
    assume bound: "Suc (next_ptr (ob\<lparr>heap := (heap ob)(p \<mapsto> s')\<rparr>)) < 2 ^ 64"
      and t: "heap (ob\<lparr>heap := (heap ob)(p \<mapsto> s')\<rparr>) q = Some t" "is_open t"
    show "sessions e' (session_id t) = Some q"
    proof (cases "q = p")
      case True
      then have "t = s'" "is_open s" using t s' by simp_all
      then show ?thesis using True bound t assms(2,3) m' s'(1) by (simp add: map_inv_def)
    next
      case False
      then have q: "heap ob q = Some t" using t by simp
      then have "session_id t \<noteq> session_id s"
        using session_ids_distinct [OF assms(1) _ q assms(3)] bound False by auto
      then show ?thesis using q bound t(2) assms(2) m' by (simp add: map_inv_def)
    qed
  qed
qed

lemma server_inv_frames:
  assumes "server_inv ob e" "heap ob p = Some s" "op_frame sessions erase_closed p s e s' e'"
  shows "server_inv (ob\<lparr>heap := (heap ob)(p \<mapsto> s')\<rparr>) e'"
proof -
  have "heap_inv (ob\<lparr>heap := (heap ob)(p \<mapsto> s')\<rparr>)"
    using assms by (auto simp: server_inv_def heap_inv_def op_frame_def split: if_splits)
  moreover have "list_all task_ok (tasks e')"
    using assms by (auto simp: server_inv_def op_frame_def posted_def)
  ultimately show ?thesis
    using assms map_inv_update [OF _ _ assms(2,3) refl] table_inv_update [OF _ assms(2,3)]
    by (simp add: server_inv_def)
qed

lemma server_inv_env:
  "server_inv ob e \<Longrightarrow> handlers e' = handlers e \<Longrightarrow> sessions e' = sessions e \<Longrightarrow> list_all task_ok (tasks e') \<Longrightarrow>
   server_inv ob e'"
  by (simp add: server_inv_def)

lemma server_inv_posts: "server_inv ob e \<Longrightarrow> posts_only sessions e e' \<Longrightarrow> server_inv ob e'"
  by (auto simp: server_inv_def posts_only_def posted_def)

lemma server_run_task_inv:
  assumes "server_inv ob e" "task_ok t" "server_run_task A t (ob, e) = (Inr (), (ob', e'))"
  shows "server_inv ob' e'"
  using assms(3) [unfolded server_run_task_def] assms(2) server_inv_queues [OF assms(1)]
  by (cases rule: srv.run_task_frames) (use assms(1) server_inv_frames in auto)

section \<open>Accepting keeps the registry\<close>

lemma call_session_handler_posts:
  assumes "call_session_handler A p sid e = (r, e')"
  shows "posts_only sessions e e'"
proof (cases "session_cb e")
  case None
  then show ?thesis using assms by (simp add: call_session_handler_def posts_only_refl)
next
  case (Some n)
  obtain u as where "app_session A n (user e) p sid = (u, as)" by fastforce
  then have "perform_all (server_on_write A) as (e\<lparr>user := u\<rparr>) = (r, e')"
    using Some assms by (simp add: call_session_handler_def)
  then show ?thesis by (rule user_frame [OF srv_writes.perform_all_posts])
qed

lemma heap_inv_accept:
  assumes "heap_inv ob" "queue_ok s" "close_cb s = Some EraseSession" "session_id s = next_id ob" "is_open s"
  shows "heap_inv (ob\<lparr>next_ptr := Suc (next_ptr ob), next_id := next_id ob + 1, heap := (heap ob)(next_ptr ob \<mapsto> s)\<rparr>)"
  using assms by (fastforce simp: heap_inv_def)

lemma map_inv_accept:
  assumes "heap_inv ob" "map_inv ob m" "is_open s" "session_id s = next_id ob"
  shows "map_inv (ob\<lparr>next_ptr := Suc (next_ptr ob), next_id := next_id ob + 1, heap := (heap ob)(next_ptr ob \<mapsto> s)\<rparr>)
      (m(next_id ob \<mapsto> next_ptr ob))"
    (is "map_inv ?ob ?m")
  unfolding map_inv_def
proof (intro conjI allI impI)
  fix sid q
  assume "?m sid = Some q"
  moreover have "heap ob (next_ptr ob) = None"
    using assms(1) by (cases "heap ob (next_ptr ob)") (auto simp: heap_inv_def)
  ultimately show "\<exists>t. heap ?ob q = Some t \<and> session_id t = sid \<and> is_open t"
    using assms(2,3,4) by (fastforce simp: map_inv_def split: if_splits)
next
  fix q t
  assume bound: "Suc (next_ptr ?ob) < 2 ^ 64" and t: "heap ?ob q = Some t" "is_open t"
  show "?m (session_id t) = Some q"
  proof (cases "q = next_ptr ob")
    case True
    then show ?thesis using t assms(4) by simp
  next
    case False
    then have q: "heap ob q = Some t" "q < next_ptr ob" "session_id t = of_nat (Suc q)"
      using t assms(1) by (auto simp: heap_inv_def)
    have "session_id t \<noteq> next_id ob"
    proof
      assume "session_id t = next_id ob"
      then have "unat (of_nat (Suc q) :: u64) = unat (of_nat (Suc (next_ptr ob)) :: u64)"
        using q(3) assms(1) by (simp add: heap_inv_def)
      then have "Suc q = Suc (next_ptr ob)"
        using bound q(2) by (simp only: unat_of_nat) (simp add: take_bit_nat_eq_self)
      then show False using q(2) by simp
    qed
    moreover have "m (session_id t) = Some q" using q(1) t(2) bound assms(2) by (simp add: map_inv_def)
    ultimately show ?thesis by simp
  qed
qed

text \<open>An accepted connection: the heap afterwards, and the two effects on the rest of the state\<close>

lemma accept_one_run:
  assumes "accept_one A fd as bs (ob, e) = (Inr (), (ob', e'))"
  obtains e1 where
    "ob' = ob\<lparr>next_ptr := Suc (next_ptr ob), next_id := next_id ob + 1,
      heap := (heap ob)(next_ptr ob \<mapsto> (accepted_session fd (next_id ob) as bs e)\<lparr>registered := True\<rparr>)\<rparr>"
    "session_start (next_ptr ob) (accepted_session fd (next_id ob) as bs e, e\<lparr>sessions := (sessions e)(next_id ob \<mapsto> next_ptr ob)\<rparr>)
      = (Inr (), ((accepted_session fd (next_id ob) as bs e)\<lparr>registered := True\<rparr>, e1))"
    "call_session_handler A (next_ptr ob) (next_id ob) e1 = (Inr (), e')"
proof -
  let ?p = "next_ptr ob" and ?s = "accepted_session fd (next_id ob) as bs e"
  let ?ob = "ob\<lparr>next_ptr := Suc ?p, next_id := next_id ob + 1, heap := (heap ob)(?p \<mapsto> ?s)\<rparr>"
  let ?e = "e\<lparr>sessions := (sessions e)(next_id ob \<mapsto> ?p)\<rparr>"
  have "seq (with_session ?p (session_start ?p)) (on_snd (call_session_handler A ?p (next_id ob))) (?ob, ?e)
      = (Inr (), (ob', e'))"
    using assms by (simp add: accept_one_def make_session_def Let_def)
  then obtain e1 where st: "with_session ?p (session_start ?p) (?ob, ?e) = (Inr (), (ob', e1))"
    and cb: "call_session_handler A ?p (next_id ob) e1 = (Inr (), e')"
    by (auto simp: seq_run on_snd_run split: prod.splits sum.splits)
  obtain s1 where s1: "session_start ?p (?s, ?e) = (Inr (), (s1, e1))" and ob': "ob' = ?ob\<lparr>heap := (heap ?ob)(?p \<mapsto> s1)\<rparr>"
    using st by (cases rule: with_session_cases) auto
  show thesis by (rule that [OF _ _ cb]) (use s1 ob' session_start_run(1) [OF s1] in simp_all)
qed

lemma accept_one_inv:
  assumes "server_inv ob e" and "accept_one A fd as bs (ob, e) = (Inr (), (ob', e'))"
  shows "server_inv ob' e'"
  using assms(2)
proof (cases rule: accept_one_run)
  case (1 e1)
  let ?p = "next_ptr ob" and ?s = "accepted_session fd (next_id ob) as bs e"
  let ?s1 = "?s\<lparr>registered := True\<rparr>"
  note ob' = 1(1) and r = session_start_run [OF 1(2)]
  have s: "queue_ok ?s1" "close_cb ?s1 = Some EraseSession" "session_id ?s1 = next_id ob" "is_open ?s1"
    "registered ?s1" "socket_fd ?s1 = fd" "socket_fd ?s = fd"
    by (simp_all add: accepted_session_def set_close_handler_def set_message_handler_def new_session_def queue_ok_def)
  have "sessions e1 = (sessions e)(next_id ob \<mapsto> ?p)" using server_view_more [OF r(4)] by simp
  moreover have "table_inv ob' (handlers e1)"
    using assms(1) r(2) s(4,5,6,7) unfolding ob'
    by (fastforce simp: server_inv_def table_inv_def heap_inv_def)
  moreover have "list_all task_ok (tasks e1)" using assms(1) r(3) by (simp add: server_inv_def)
  ultimately have "server_inv ob' e1"
    using assms(1) s heap_inv_accept [of ob ?s1] map_inv_accept [of ob "sessions e" ?s1] unfolding ob'
    by (simp add: server_inv_def)
  then show ?thesis using server_inv_posts call_session_handler_posts [OF 1(3)] by blast
qed

lemma accept_from_inv:
  "server_inv ob e \<Longrightarrow> accept_from A as (ob, e) = (Inr (), (ob', e')) \<Longrightarrow> server_inv ob' e'"
proof (induction A as "(ob, e)" arbitrary: ob e rule: accept_from.induct)
  case (1 A ob e)
  then show ?case by (auto intro: server_inv_env [of ob e] simp: server_inv_def)
next
  case (2 A err rest ob e)
  let ?e = "e\<lparr>accepts := rest, cerrno := err\<rparr>"
  have "server_inv ob ?e" by (rule server_inv_env [OF "2.prems"(1)]) (use "2.prems"(1) in \<open>simp_all add: server_inv_def\<close>)
  then show ?case
    using "2.hyps" "2.prems"(2) by (auto simp: Let_def on_snd_run throw_system_error_def split: if_splits)
next
  case (3 A fd as bs rest ob e)
  let ?e = "e\<lparr>accepts := rest\<rparr>"
  have inv: "server_inv ob ?e" by (rule server_inv_env [OF "3.prems"(1)]) (use "3.prems"(1) in \<open>simp_all add: server_inv_def\<close>)
  obtain ob1 e1 where "accept_one A fd as bs (ob, ?e) = (Inr (), (ob1, e1))"
    and "accept_from A rest (ob1, e1) = (Inr (), (ob', e'))"
    using "3.prems"(2) by (auto simp: seq_run split: prod.splits sum.splits)
  with accept_one_inv [OF inv] "3.hyps" show ?case by blast
qed

lemma server_run_handler_inv:
  assumes "server_inv ob e" "server_run_handler A h ev (ob, e) = (Inr (), (ob', e'))"
  shows "server_inv ob' e'"
proof (cases h)
  case DrainWakeup
  then have d: "drain_wakeup e = (Inr (), e')" and "ob' = ob"
    using assms(2) by (auto simp: on_snd_run split: prod.splits)
  note f = drain_wakeup_frame [OF d]
  have "server_inv ob e'"
    by (rule server_inv_env [OF assms(1) f(2) server_view_more [OF f(5)]])
       (use assms(1) f(3) in \<open>simp add: server_inv_def\<close>)
  then show ?thesis using \<open>ob' = ob\<close> by simp
next
  case (SessionEvents p)
  then have "with_session p (handle_events (server_hooks A) p ev) (ob, e) = (Inr (), (ob', e'))"
    using assms(2) by simp
  from this server_inv_queues [OF assms(1)] show ?thesis
    by (cases rule: srv.session_events_frames) (use assms(1) server_inv_frames in auto)
next
  case AcceptEvents
  then show ?thesis
    using assms accept_from_inv [OF assms(1)] by (auto simp: accept_loop_def split: if_splits)
qed

interpretation srv_run: loop_invariant "server_run_task A" "server_run_handler A" server_inv task_ok for A :: "'u app"
proof unfold_locales
  fix ob ob' t h ev and e e' :: "'u server"
  show "server_inv ob e \<Longrightarrow> task_ok t \<Longrightarrow> server_run_task A t (ob, e) = (Inr (), (ob', e')) \<Longrightarrow> server_inv ob' e'"
    by (rule server_run_task_inv)
  show "server_inv ob e \<Longrightarrow> server_run_handler A h ev (ob, e) = (Inr (), (ob', e')) \<Longrightarrow> server_inv ob' e'"
    by (rule server_run_handler_inv)
  show "server_inv ob e \<Longrightarrow> list_all task_ok (tasks e)" by (simp add: server_inv_def)
  show "server_inv ob e \<Longrightarrow> handlers e' = handlers e \<Longrightarrow> list_all task_ok (tasks e') \<Longrightarrow>
      event_loop.more e' = event_loop.more e \<Longrightarrow> server_inv ob e'"
    using server_view_more [of e' e] by (simp add: server_inv_def)
qed

section \<open>Stopping\<close>

definition shut_session :: "session \<Rightarrow> session" where
  "shut_session s = (if is_open s then closed s else s)"

lemma close_task_run:
  obtains ob' e' where "server_run_task A (CloseTask p) (ob, e) = (Inr (), (ob', e'))"
    "heap ob' = (heap ob)(p := map_option shut_session (heap ob p))"
    "table_inv ob (handlers e) \<Longrightarrow> table_inv ob' (handlers e')"
proof (cases "heap ob p")
  case None
  then show thesis
    by (intro that [of ob e]) (auto simp: server_run_task_def with_session_def fun_eq_iff)
next
  case (Some s)
  obtain s' e' where run: "close_from_loop (server_hooks A) p (s, e) = (Inr (), (s', e'))"
    and s': "s' = shut_session s"
  proof (cases "is_open s")
    case True
    obtain e' where "close_from_loop (server_hooks A) p (s, e) = (Inr (), (closed s, e'))"
      using srv.close_from_loop_run [OF True] by blast
    then show thesis using that True by (simp add: shut_session_def)
  next
    case False
    then show thesis using that by (simp add: close_from_loop_def shut_session_def)
  qed
  let ?ob = "ob\<lparr>heap := (heap ob)(p \<mapsto> s')\<rparr>"
  have "server_run_task A (CloseTask p) (ob, e) = (Inr (), (?ob, e'))"
    using Some run by (simp add: server_run_task_def with_session_def)
  then show thesis
    by (rule that) (use Some s' table_inv_update [OF _ Some srv.close_from_loop_frames [OF run]] in \<open>simp_all\<close>)
qed

lemma close_tasks_run:
  obtains ob' e' where "for_each (server_run_task A) (map CloseTask ps) (ob, e) = (Inr (), (ob', e'))"
    "\<And>q. heap ob' q = (if q \<in> set ps then map_option shut_session (heap ob q) else heap ob q)"
    "table_inv ob (handlers e) \<Longrightarrow> table_inv ob' (handlers e')"
proof -
  have "\<exists>ob' e'. for_each (server_run_task A) (map CloseTask ps) (ob, e) = (Inr (), (ob', e')) \<and>
    (\<forall>q. heap ob' q = (if q \<in> set ps then map_option shut_session (heap ob q) else heap ob q)) \<and>
    (table_inv ob (handlers e) \<longrightarrow> table_inv ob' (handlers e'))"
  proof (induction ps arbitrary: ob e)
    case (Cons p ps)
    obtain ob1 e1 where 1: "server_run_task A (CloseTask p) (ob, e) = (Inr (), (ob1, e1))"
      "heap ob1 = (heap ob)(p := map_option shut_session (heap ob p))"
      "table_inv ob (handlers e) \<Longrightarrow> table_inv ob1 (handlers e1)"
      using close_task_run [of A p ob e] by blast
    have twice: "map_option shut_session (map_option shut_session x) = map_option shut_session x" for x
      by (cases x) (simp_all add: shut_session_def)
    obtain ob2 e2 where 2: "for_each (server_run_task A) (map CloseTask ps) (ob1, e1) = (Inr (), (ob2, e2))"
      "\<forall>q. heap ob2 q = (if q \<in> set ps then map_option shut_session (heap ob1 q) else heap ob1 q)"
      "table_inv ob1 (handlers e1) \<longrightarrow> table_inv ob2 (handlers e2)"
      using Cons.IH by blast
    show ?case using 1 2 twice by (intro exI [of _ ob2] exI [of _ e2]) auto
  qed simp
  then show thesis using that by blast
qed

lemma close_posts_run:
  "for_each session_close ps e = (Inr (), e') \<Longrightarrow>
   tasks e' = tasks e @ map CloseTask ps \<and> handlers e' = handlers e \<and> event_loop.more e' = event_loop.more e"
proof (induction ps arbitrary: e)
  case (Cons p ps)
  obtain e1 where 1: "loop_post (CloseTask p) e = (Inr (), e1)" and 2: "for_each session_close ps e1 = (Inr (), e')"
    using Cons.prems by (auto simp: session_close_def [of p] seq_run split: prod.splits sum.splits)
  show ?case using Cons.IH [OF 2] loop_post_frame [OF 1] by simp
qed simp

lemma close_listener_run:
  assumes "close_listener e = (r, e')"
  shows "r = Inr () \<and> listen_fd e' = -1 \<and> tasks e' = tasks e \<and> sessions e' = sessions e \<and>
    (\<forall>fd p. handlers e' fd = Some (SessionEvents p) \<longrightarrow> handlers e fd = Some (SessionEvents p))"
proof (cases "listen_fd e = -1")
  case True
  then show ?thesis using assms by (simp add: close_listener_def)
next
  case False
  obtain r1 e1 where 1: "loop_remove (listen_fd e) e = (r1, e1)" by (cases "loop_remove (listen_fd e) e")
  obtain rc e2 where 2: "sys (CloseFd (listen_fd e)) e1 = (Inr rc, e2)" using sys_returns by blast
  have 3: "r = Inr ()" "e' = e2\<lparr>listen_fd := -1\<rparr>"
    using assms False 1 2 loop_remove_frame(10) [OF 1] by (simp_all add: close_listener_def seq_run bind_run)
  note f1 = loop_remove_frame [OF 1] and f2 = sys_frame [OF 2]
  show ?thesis
    using 3 f1(1,2) f2(1,2) server_view_more [OF f1(8)] server_view_more [OF f2(8)]
    by (auto split: if_splits)
qed

end
