(* ===== verification/Server_Properties.thy ===== *)
theory Server_Properties
  imports Server_Laws
begin

text \<open>
  The properties of the server, each with a witness on a small run of a server that echoes: the
  listener on descriptor 5, the eventfd on 4, one connection on 7.
\<close>

section \<open>A small server\<close>

definition echo_app :: "unit app" where
  "echo_app = \<lparr>app_session = \<lambda>n u p sid. (u, []), app_message = \<lambda>n u p sid m. (u, [SendMessage p m None]),
     app_write = \<lambda>n u err. u\<rparr>"

definition test_loop :: env where
  "test_loop = \<lparr>epoll_fd = 3, event_fd = 4, stopped = False, handlers = [4 \<mapsto> DrainWakeup, 5 \<mapsto> AcceptEvents],
     tasks = [], cerrno = 0, event_counter = 0, answers = [], syscalls = [], trace = []\<rparr>"

text \<open>It is listening; one peer connects, sends an empty frame and reads what it is sent.\<close>

definition test_server :: "unit server" where
  "test_server = (server_init test_loop (bytes_of ''0.0.0.0'') 5555 ())
     \<lparr>listen_fd := 5, started := True, message_cb := Some (UserMessage 0),
      accepts := [AcceptFd 7 [RecvBytes [0, 0, 0, 0], RecvError EAGAIN] [SendBytes 100]]\<rparr>"

definition test_waits :: "task wait_answer list" where
  "test_waits = [Wait [] (Inr [(5, EPOLLIN)]), Wait [] (Inr [(7, EPOLLIN)]), Wait [ExtStop] (Inr [])]"

lemma decode_Nil [simp]: "decode [] = Some empty_message"
  by (simp add: decode_def decode_loop.simps)

lemma encode_empty [simp]: "encode empty_message = []"
  by (simp add: encode_def empty_message_def)

lemma make_frame_Nil: "make_frame [] = [0, 0, 0, 0]"
  by (simp add: make_frame_def encode_frame_size_def)

lemmas loop_eval = drain_tasks_def dispatch_event_def set_non_blocking_def sys_def loop_add_def
  loop_modify_def loop_remove_def loop_post_def loop_stop_def wakeup_def count_wakeup_def
  on_snd_run seq_run bind_run throw_system_error_def

lemmas session_eval = with_session_def session_start_def handle_events_def async_read_def read_frames.simps
  try_pop_frame_def kFrameHeaderSize_def kMaxFrameSize_def decode_frame_size_def make_frame_Nil
  call_message_def log_call_def session_send_def run_send_def update_events_def wanted_events_def
  async_write_def write_loop.simps call_write_def new_session_def set_close_handler_def
  set_message_handler_def make_session_def perform_all_def

lemmas server_eval = server_run_def loop_run_def accept_loop_def accept_one_def accepted_session_def
  call_session_handler_def server_hooks_def server_on_message_def server_run_task_def Let_def
  test_server_def server_init_def test_loop_def env.extend_def no_objects_def echo_app_def

lemma run_outcome: "x \<noteq> None \<Longrightarrow> fst (the x) = Inr () \<Longrightarrow> x = Some (Inr (), (fst (snd (the x)), snd (snd (the x))))"
  by (cases x) (auto simp: prod_eq_iff)

section \<open>The registry\<close>

text \<open>
  When \<^verbatim>\<open>run\<close> returns, whatever connections came, sent, failed and closed in whatever order:
  the server's map holds exactly the open sessions, each under its id, and a handler of the loop
  that belongs to a session belongs to an open one, registered on that descriptor. The bound is
  on the number of sessions ever made (their ids are 64 bits).
\<close>

lemma server_registry:
  assumes "server_run A ws (no_objects, e) = Some (Inr (), (ob', e'))"
    and "sessions e = Map.empty" and "tasks e = []" and "\<forall>fd p. handlers e fd \<noteq> Some (SessionEvents p)"
    and "list_all (wait_ok task_ok) ws" and "Suc (next_ptr ob') < 2 ^ 64"
  shows "(sessions e' sid = Some p \<longleftrightarrow> (\<exists>s. heap ob' p = Some s \<and> is_open s \<and> session_id s = sid)) \<and>
    (handlers e' fd = Some (SessionEvents q) \<longrightarrow>
       (\<exists>s. heap ob' q = Some s \<and> is_open s \<and> registered s \<and> socket_fd s = fd))"
proof -
  have "server_inv no_objects (e\<lparr>stopped := False\<rparr>)"
    using assms(2-4) by (simp add: server_inv_def heap_inv_def map_inv_def table_inv_def no_objects_def)
  moreover have "run_iterations (server_run_task A) (server_run_handler A) ws (no_objects, e\<lparr>stopped := False\<rparr>)
      = Some (Inr (), (ob', e'))"
    using assms(1) by (simp add: server_run_def loop_run_def)
  ultimately have "server_inv ob' e'" using assms(5) srv_run.run_iterations_inv by blast
  then have m: "map_inv ob' (sessions e')" and t: "table_inv ob' (handlers e')" by (simp_all add: server_inv_def)
  from m assms(6) have "sessions e' sid = Some p \<longleftrightarrow> (\<exists>s. heap ob' p = Some s \<and> is_open s \<and> session_id s = sid)"
    by (auto simp: map_inv_def)
  with t show ?thesis by (simp add: table_inv_def)
qed

lemma test_run: "fst (the (server_run echo_app test_waits (no_objects, test_server))) = Inr ()"
    "server_run echo_app test_waits (no_objects, test_server) \<noteq> None"
    "next_ptr (fst (snd (the (server_run echo_app test_waits (no_objects, test_server))))) = 1"
    "map_option wire (heap (fst (snd (the (server_run echo_app test_waits (no_objects, test_server))))) 0)
       = Some [0, 0, 0, 0]"
  by (simp_all add: server_eval session_eval loop_eval test_waits_def)

section \<open>The life of a session of the server\<close>

text \<open>A session as the accept loop makes it, before any step.\<close>

lemma accepted_inv:
  assumes "message_cb e0 = Some h" and "delivered p (trace e) = []" and "closings p (trace e) = 0"
  shows "history_inv p (accepted_session fd sid as bs e0, e, [], [])"
proof -
  have "accepted_session fd sid as bs e0
      = ((new_session fd sid)\<lparr>msg_handler := Some h, close_cb := Some EraseSession\<rparr>)\<lparr>rx := as, tx := bs\<rparr>"
    using assms(1) by (simp add: accepted_session_def set_close_handler_def set_message_handler_def new_session_def)
  then show ?thesis using history_inv_kernel [OF history_inv_start [OF assms(2,3)]] by simp
qed

text \<open>
  The messages delivered to the server's handler for a session are exactly the messages of the
  bytes received from its socket, in order and each once, however the bytes were cut into reads and
  whatever was written, posted or closed in between; but for the bytes of a last read that ended in end
  of file or an error.
\<close>

lemma server_delivers:
  assumes "session_run (server_hooks A) p (accepted_session fd sid as bs e0, e0, [], []) (s, e, acc, inp)"
    and "message_cb e0 = Some h" and "delivered p (trace e0) = []" and "closings p (trace e0) = 0"
  shows "delivered p (trace e) = fst (parse_stream decode (read_out inp)) \<and>
    (read_out inp = recv_bytes inp \<or> \<not> is_open s \<and> closing_answer (last inp))"
  using srv.session_run_inv [OF assms(1) accepted_inv [OF assms(2-4)]]
  by (auto simp: history_inv_def settled_read_out split: if_splits)

text \<open>The echo server's session: it reads the empty frame, then runs the task that answers.\<close>

definition test_session :: session where
  "test_session = accepted_session 7 1 [] [] test_server"

lemma session_events_step:
  assumes "fst (handle_events H p ev (s\<lparr>rx := as, tx := bs\<rparr>, e)) = Inr ()"
  shows "session_step H p (s, e, acc, inp)
      (fst (snd (handle_events H p ev (s\<lparr>rx := as, tx := bs\<rparr>, e))),
       snd (snd (handle_events H p ev (s\<lparr>rx := as, tx := bs\<rparr>, e))), acc, inp @ input_of s ev as)"
  by (rule session_step.events [where bs = bs]) (simp add: assms prod_eq_iff)

lemma session_send_step:
  assumes "fst (run_send H p frame cb (s, e)) = Inr ()" and "frame \<noteq> []" and "is_open s"
  shows "session_step H p (s, e, acc, inp)
      (fst (snd (run_send H p frame cb (s, e))), snd (snd (run_send H p frame cb (s, e))), acc @ [frame], inp)"
  using session_step.sends [of H p frame cb s e _ _ acc inp] assms by (simp add: prod_eq_iff)

definition test_read :: "session \<times> unit server" where
  "test_read = snd (handle_events (server_hooks echo_app) 0 EPOLLIN
     (test_session\<lparr>rx := [RecvBytes [0, 0], RecvBytes [0, 0], RecvError EAGAIN], tx := []\<rparr>, test_server))"

lemma test_read_step:
  "session_run (server_hooks echo_app) 0 (test_session, test_server, [], []) (fst test_read, snd test_read, [], [RecvBytes [0, 0], RecvBytes [0, 0], RecvError EAGAIN])"
proof -
  let ?as = "[RecvBytes [0, 0], RecvBytes [0, 0], RecvError EAGAIN] :: recv_answer list"
  have "fst (handle_events (server_hooks echo_app) 0 EPOLLIN (test_session\<lparr>rx := ?as, tx := []\<rparr>, test_server)) = Inr ()"
    by (simp add: server_eval session_eval loop_eval test_session_def)
  from session_events_step [OF this, of "[]" "[]"] show ?thesis
    by (simp add: test_read_def input_of_def test_session_def accepted_session_def
        set_close_handler_def set_message_handler_def new_session_def)
qed

lemma test_server_trace: "message_cb test_server = Some (UserMessage 0)" "trace test_server = []"
  by (simp_all add: test_server_def server_init_def test_loop_def env.extend_def)

text \<open>
  C7. What a session of the server puts on the wire is a prefix of the frames its queue accepted,
  one behind the other in the order of the sends, never interleaved or repeated; while it is open,
  the wire and the unsent rest of the queue together are exactly those frames.
\<close>

theorem server_writes:
  assumes "session_run (server_hooks A) p (accepted_session fd sid as bs e0, e0, [], []) (s, e, acc, inp)"
    and "message_cb e0 = Some h" and "delivered p (trace e0) = []" and "closings p (trace e0) = 0"
  shows "prefix (wire s) (concat acc) \<and> (is_open s \<longrightarrow> wire s @ unsent s = concat acc)"
  using srv.session_run_inv [OF assms(1) accepted_inv [OF assms(2-4)]]
  by (auto simp: history_inv_def out_stream_def prefix_def split: if_splits intro: exI [of _ "unsent s"])

definition test_sent :: "session \<times> unit server" where
  "test_sent = snd (run_send (server_hooks echo_app) 0 [0, 0, 0, 0] None (test_session\<lparr>tx := [SendBytes 3]\<rparr>, test_server))"

lemma test_sent_step:
  "session_run (server_hooks echo_app) 0 (accepted_session 7 1 [] [SendBytes 3] test_server, test_server, [], [])
     (fst test_sent, snd test_sent, [[0, 0, 0, 0]], [])"
proof -
  let ?s = "accepted_session 7 1 [] [SendBytes 3] test_server"
  have s: "test_session\<lparr>tx := [SendBytes 3]\<rparr> = ?s" "is_open ?s"
    by (simp_all add: test_session_def accepted_session_def set_close_handler_def set_message_handler_def new_session_def)
  have "fst (run_send (server_hooks echo_app) 0 [0, 0, 0, 0] None (?s, test_server)) = Inr ()"
    by (simp add: server_eval session_eval loop_eval)
  from session_send_step [OF this _ s(2), of "[]" "[]"] show ?thesis by (simp add: test_sent_def s(1))
qed

theorem server_writes_witness:
  "prefix (wire (fst test_sent)) (concat [[0, 0, 0, 0]])"
  by (rule server_writes [OF test_sent_step, THEN conjunct1]) (simp_all add: test_server_trace)

text \<open>
  The close handler of a session of the server is called exactly once, when the session
  closes, however it closes (end of file, an error of recv or send, a malformed or oversized
  frame, a hangup, \<^verbatim>\<open>close()\<close>); a closed session has given up its descriptor and its queue.
\<close>

lemma server_closes_once:
  assumes "session_run (server_hooks A) p (accepted_session fd sid as bs e0, e0, [], []) (s, e, acc, inp)"
    and "message_cb e0 = Some h" and "delivered p (trace e0) = []" and "closings p (trace e0) = 0"
  shows "closings p (trace e) = (if is_open s then 0 else 1) \<and>
    (\<not> is_open s \<longrightarrow> socket_fd s = -1 \<and> \<not> registered s \<and> write_queue s = [])"
  using srv.session_run_inv [OF assms(1) accepted_inv [OF assms(2-4)]]
  by (simp add: history_inv_def split: if_splits)

text \<open>
  C37. Complete messages that arrive together with the peer's end of file, or an error, are lost: when recv
  answers 0 (or fails) before it answers \<^verbatim>\<open>EAGAIN\<close>, \<^verbatim>\<open>async_read\<close> closes without looking at what it has
  buffered. The same bytes are delivered when recv answers \<^verbatim>\<open>EAGAIN\<close> first.
\<close>

theorem eof_drops_messages:
  assumes "is_open s" and "read_buffer s = []" and "msg_handler s \<noteq> None" and "list_all sendable ms"
    and "b = concat (map (\<lambda>m. make_frame (encode m)) ms)" and "b \<noteq> []" and "closing_answer a"
  shows "(\<exists>s' e'. async_read (server_hooks A) p (s\<lparr>rx := [RecvBytes b, a]\<rparr>, e) = (Inr (), (s', e')) \<and>
      \<not> is_open s' \<and> delivered p (trace e') = delivered p (trace e)) \<and>
    (async_read (server_hooks A) p (s\<lparr>rx := [RecvBytes b, RecvError EAGAIN]\<rparr>, e) = (Inr (), (s2, e2)) \<longrightarrow>
      is_open s2 \<and> delivered p (trace e2) = delivered p (trace e) @ ms)"
proof (intro conjI impI)
  let ?s = "s\<lparr>read_buffer := b, rx := []\<rparr>"
  have open': "is_open ?s" using assms(1) by simp
  show "\<exists>s' e'. async_read (server_hooks A) p (s\<lparr>rx := [RecvBytes b, a]\<rparr>, e) = (Inr (), (s', e')) \<and>
      \<not> is_open s' \<and> delivered p (trace e') = delivered p (trace e)"
  proof (cases a)
    case (RecvBytes chunk)
    obtain e' where "close_from_loop (server_hooks A) p (?s, e) = (Inr (), (closed ?s, e'))"
      "trace e' = trace e @ write_calls (queued_cbs ?s) ENOTCONN @ close_calls p ?s"
      using srv.close_from_loop_run [OF open'] by blast
    then show ?thesis using assms(1,2,6,7) RecvBytes by (simp add: async_read_def)
  next
    case (RecvError err)
    obtain e' where "fail_and_close (server_hooks A) p err (?s, e\<lparr>cerrno := err\<rparr>) = (Inr (), (closed ?s, e'))"
      "trace e' = trace (e\<lparr>cerrno := err\<rparr>) @ write_calls (queued_cbs ?s) err @ close_calls p ?s"
      using srv.fail_and_close_run [OF open'] by blast
    then show ?thesis using assms(1,2,6,7) RecvError by (simp add: async_read_def)
  qed
next
  let ?s = "s\<lparr>read_buffer := b, rx := []\<rparr>"
  assume "async_read (server_hooks A) p (s\<lparr>rx := [RecvBytes b, RecvError EAGAIN]\<rparr>, e) = (Inr (), (s2, e2))"
  then have run: "read_frames (server_hooks A) p (?s, e\<lparr>cerrno := EAGAIN\<rparr>) = (Inr (), (s2, e2))"
    using assms(1,2,6) by (simp add: async_read_def)
  have parsed: "parse_stream decode (read_buffer ?s) = (ms, Pending, [])"
    using protobuf.parse_frames_only [OF assms(4)] assms(5) by simp
  have "is_open ?s" using assms(1) by simp
  from srv.read_frames_run [OF run this parsed]
  show "is_open s2" "delivered p (trace e2) = delivered p (trace e) @ ms"
    using assms(1,3) by (auto simp: srv.delivers_def handed_def)
qed

lemma sendable_empty: "sendable empty_message"
  by (simp add: sendable_def) (simp add: empty_message_def)

theorem eof_drops_messages_witness:
  "\<exists>s' e'. async_read (server_hooks echo_app) 0
      (test_session\<lparr>rx := [RecvBytes [0, 0, 0, 0], RecvBytes []]\<rparr>, test_server) = (Inr (), (s', e')) \<and>
    \<not> is_open s' \<and> delivered 0 (trace e') = delivered 0 (trace test_server)"
proof (rule eof_drops_messages [THEN conjunct1])
  show "is_open test_session" "read_buffer test_session = []" "msg_handler test_session \<noteq> None"
    by (simp_all add: test_session_def accepted_session_def set_close_handler_def set_message_handler_def
        new_session_def test_server_trace)
  show "list_all sendable [empty_message]" by (simp add: sendable_empty)
  show "[0, 0, 0, 0] = concat (map (\<lambda>m. make_frame (encode m)) [empty_message])" by (simp add: make_frame_Nil)
qed simp_all

section \<open>Writing\<close>

text \<open>
  C16. Every queued write handler is accounted for by a call of \<^verbatim>\<open>async_write\<close>: the handlers of
  the frames it finished are called with success, in order; if it fails, all the others are called
  with the error of the send that failed (the first answer of send that is neither progress nor
  \<^verbatim>\<open>EAGAIN\<close> nor \<^verbatim>\<open>EINTR\<close>; if it is 0, with whatever \<^verbatim>\<open>errno\<close> holds) and then the close handler, and none is
  left; otherwise no send failed, and the others stay queued in order. Nothing else is called.
\<close>

theorem async_write_conserves_handlers:
  assumes "async_write (server_hooks A) p (s, e) = (Inr (), (s', e'))" and "is_open s" and "queue_ok s"
  shows "\<exists>sent failed err. queued_cbs s = sent @ failed @ queued_cbs s' \<and>
    trace e' = trace e @ write_calls sent 0 @ write_calls failed err @ (if is_open s' then [] else close_calls p s) \<and>
    (if is_open s' then failed = [] \<and> passed (tx s) (tx s')
     else queued_cbs s' = [] \<and> (\<exists>a. passed (tx s) (a # tx s') \<and> send_fails a err))"
  using assms
proof (cases rule: srv.async_write_run)
  case (stays e1 sent)
  then show ?thesis
    using advanced_same(3) [of s s'] assms(2)
    by (intro exI [of _ sent] exI [of _ "[]"]) (simp add: wrote_def)
next
  case (fails s1 sent err)
  then obtain failed where "queued_cbs s = sent @ failed"
    "trace e' = trace e @ write_calls sent 0 @ write_calls failed err @ close_calls p s"
    "\<exists>a. passed (tx s) (a # tx s1) \<and> send_fails a err"
    by (auto simp: gave_up_def)
  then show ?thesis using fails(1) by (intro exI [of _ sent] exI [of _ failed] exI [of _ err]) simp
qed

definition test_queue :: session where
  "test_queue = test_session\<lparr>registered := True, tx := [SendBytes 4, SendError ECONNRESET],
     write_queue := [\<lparr>frame_bytes = [0, 0, 0, 0], written = 0, write_cb = Some (UserWrite 0)\<rparr>,
                     \<lparr>frame_bytes = [0, 0, 0, 0], written = 0, write_cb = Some (UserWrite 1)\<rparr>]\<rparr>"

lemma test_queue_ok: "is_open test_queue" "queue_ok test_queue"
  by (simp_all add: test_queue_def queue_ok_def test_session_def accepted_session_def
      set_close_handler_def set_message_handler_def new_session_def)

lemma outcome: "fst x = Inr () \<Longrightarrow> x = (Inr (), (fst (snd x), snd (snd x)))"
  by (simp add: prod_eq_iff)

lemmas close_eval = fail_and_close_def flush_queue.simps close_from_loop_def unregister_def close_socket_def
  call_close_def server_on_close_def server_on_write_def

theorem async_write_conserves_handlers_witness:
  "\<exists>s' e' sent failed err a. async_write (server_hooks echo_app) 0 (test_queue, test_server) = (Inr (), (s', e')) \<and>
    [Some (UserWrite 0), Some (UserWrite 1)] = sent @ failed \<and>
    trace e' = write_calls sent 0 @ write_calls failed err @ close_calls 0 test_queue \<and>
    passed [SendBytes 4, SendError ECONNRESET] [a] \<and> send_fails a err"
proof -
  let ?x = "async_write (server_hooks echo_app) 0 (test_queue, test_server)"
  have ran: "fst ?x = Inr ()" "\<not> is_open (fst (snd ?x))" "tx (fst (snd ?x)) = []"
    by (simp_all add: server_eval session_eval loop_eval close_eval test_queue_def test_session_def)
  have start: "queued_cbs test_queue = [Some (UserWrite 0), Some (UserWrite 1)]" "trace test_server = []"
    "tx test_queue = [SendBytes 4, SendError ECONNRESET]"
    by (simp_all add: test_queue_def test_server_trace)
  note run = outcome [OF ran(1)]
  from async_write_conserves_handlers [OF run test_queue_ok] obtain sent failed err where
    "queued_cbs test_queue = sent @ failed @ queued_cbs (fst (snd ?x))" and
    called: "trace (snd (snd ?x)) = trace test_server @ write_calls sent 0 @ write_calls failed err @ close_calls 0 test_queue"
    "queued_cbs (fst (snd ?x)) = []" and last: "\<exists>a. passed (tx test_queue) (a # tx (fst (snd ?x))) \<and> send_fails a err"
    using ran(2) by (simp only: if_False simp_thms) (elim exE conjE, rule that, assumption+, blast)
  then have "queued_cbs test_queue = sent @ failed" by (simp only: append_Nil2)
  with run called last show ?thesis unfolding start ran(3) append_Nil by blast
qed

text \<open>
  After \<^verbatim>\<open>async_write\<close> an open, registered session has asked epoll, last, for writability
  exactly when frames are still queued: output neither stalls nor spins.
\<close>

lemma async_write_arms:
  assumes "async_write (server_hooks A) p (s, e) = (Inr (), (s', e'))" and "is_open s" and "queue_ok s"
    and "registered s" and "is_open s'"
  shows "\<exists>mask. syscalls e' = syscalls e @ [EpollMod (socket_fd s') mask] \<and>
    (mask AND EPOLLOUT \<noteq> 0 \<longleftrightarrow> write_queue s' \<noteq> []) \<and> mask AND EPOLLIN \<noteq> 0"
  using assms(1-3)
proof (cases rule: srv.async_write_run)
  case (stays e1 sent)
  then have "socket_fd s' = socket_fd s" by (simp add: wrote_def advanced_same)
  with stays assms(4) show ?thesis by (simp add: wanted_events_def)
next
  case (fails s1 sent err)
  then show ?thesis using assms(5) by simp
qed

definition test_blocked :: session where
  "test_blocked = test_queue\<lparr>tx := [SendBytes 4, SendBytes 1, SendError EAGAIN]\<rparr>"

end
