(* ===== verification/Server_Lifecycle.thy ===== *)
theory Server_Lifecycle
  imports Server_Properties
begin

text \<open>
  The server as a whole: starting and what its failures report, accepting, stopping, wakeups, and
  the simulation that connects what the loop runs to the life of each single session.
\<close>

section \<open>No task waits for a wakeup that does not come\<close>

lemma externals_wake:
  "wake_inv e \<Longrightarrow> set (answers e) \<subseteq> {0, EAGAIN} \<Longrightarrow> wake_inv (fold run_external ext e)"
proof (induction ext arbitrary: e)
  case (Cons x ext)
  have "wake_inv (run_external x e) \<and> set (answers (run_external x e)) \<subseteq> {0, EAGAIN}"
  proof (cases x)
    case (ExtPost t)
    have "fst (loop_post t e) = Inr ()"
      using Cons.prems(2) by (auto simp: loop_post_def wakeup_def sys_def bind_run seq_run split: list.splits)
    then obtain e' where post: "loop_post t e = (Inr (), e')" by (cases "loop_post t e") simp
    then show ?thesis
      using ExtPost Cons.prems wakes_loop_post [of t] loop_post_frame(8) [OF post] by (auto simp: wakes_loop_def)
  next
    case ExtStop
    obtain r e' where stop: "loop_stop e = (r, e')" by (cases "loop_stop e")
    then show ?thesis
      using ExtStop Cons.prems loop_stop_frame(2,7,8) [OF stop] by (auto simp: wake_inv_def)
  qed
  with Cons show ?case by simp
qed simp

text \<open>
  While the server's loop waits, every task that is queued, whether a task of the drain before
  or another thread posted it, has made the eventfd readable, so epoll_wait returns and the task is
  run. The writes of the other threads may find the counter full (\<^verbatim>\<open>EAGAIN\<close>). The failure that
  \<^verbatim>\<open>wakeup\<close> hides and that could break this is \<^verbatim>\<open>EBADF\<close>, an eventfd that is not open.
\<close>

lemma server_no_lost_wakeup:
  assumes "EBADF \<notin> set (answers e)" and "drain_tasks (server_run_task A) (ob, e) = (Inr (), (ob', e'))"
    and "set (answers e') \<subseteq> {0, EAGAIN}" and "tasks (fold run_external ext e') \<noteq> []"
  shows "0 < event_counter (fold run_external ext e')"
  using externals_wake [OF srv_loop.drain_tasks_wakes [OF assms(1,2)] assms(3)] assms(4)
  by (simp add: wake_inv_def)


section \<open>Stopping\<close>

lemma server_listener_more:
  fixes e e' :: "'u server"
  shows "event_loop.more e = event_loop.more e' \<Longrightarrow> listen_fd e = listen_fd e'"
  by (cases e; cases e') simp

lemma not_open_shut: "\<not> is_open (shut_session s)"
  by (simp add: shut_session_def)

text \<open>
  C18. \<^verbatim>\<open>stop()\<close> of a started server takes the listener away and empties the map at once, and the
  closes it posts, when the loop runs them, succeed and leave every session of the server closed
  and no handler of a session in the loop.
\<close>

theorem server_stop_closes_all:
  assumes "server_inv ob e" and "Suc (next_ptr ob) < 2 ^ 64" and "started e" and "tasks e = []"
    and "set order = dom (sessions e)" and "server_stop order e = (Inr (), e1)"
  shows "listen_fd e1 = -1 \<and> sessions e1 = Map.empty \<and> \<not> started e1 \<and>
    (\<exists>ob2 e2. drain_tasks (server_run_task A) (ob, e1) = (Inr (), (ob2, e2)) \<and>
       (\<forall>p s. heap ob2 p = Some s \<longrightarrow> \<not> is_open s) \<and> (\<forall>fd p. handlers e2 fd \<noteq> Some (SessionEvents p)))"
proof -
  obtain rl el where l: "close_listener e = (rl, el)" by (cases "close_listener e")
  note L = close_listener_run [OF l]
  let ?ps = "List.map_filter (sessions el) order"
  obtain ec where c: "for_each session_close ?ps el = (Inr (), ec)"
    and e1: "e1 = ec\<lparr>sessions := Map.empty, started := False\<rparr>"
    using assms(3,6) l L by (auto simp: server_stop_def seq_run split: prod.splits sum.splits)
  note C = close_posts_run [OF c]
  have listen: "listen_fd ec = -1" using server_listener_more [of ec el] C L by simp
  have tasks: "tasks e1 = map CloseTask ?ps" using e1 C L assms(4) by simp
  have table: "table_inv ob (handlers (e1\<lparr>tasks := []\<rparr>))"
    using assms(1) C L e1 by (fastforce simp: server_inv_def table_inv_def)
  obtain ob2 e2 where run: "for_each (server_run_task A) (map CloseTask ?ps) (ob, e1\<lparr>tasks := []\<rparr>) = (Inr (), (ob2, e2))"
    and heap: "\<And>q. heap ob2 q = (if q \<in> set ?ps then map_option shut_session (heap ob q) else heap ob q)"
    and table2: "table_inv ob (handlers (e1\<lparr>tasks := []\<rparr>)) \<Longrightarrow> table_inv ob2 (handlers e2)"
    by (rule close_tasks_run) blast
  have ps: "set ?ps = ran (sessions e)"
    using assms(5) L by (force simp: map_filter_def ran_def dom_def)
  have closed: "\<not> is_open s" if "heap ob2 p = Some s" for p s
  proof
    assume "is_open s"
    then have "p \<notin> set ?ps" "heap ob p = Some s"
      using that heap [of p] not_open_shut by (auto split: if_splits)
    moreover have "sessions e (session_id s) = Some p"
      using assms(1,2) \<open>is_open s\<close> calculation(2) by (simp add: server_inv_def map_inv_def)
    ultimately show False using ps by (auto simp: ran_def)
  qed
  have "drain_tasks (server_run_task A) (ob, e1) = (Inr (), (ob2, e2))"
    using run tasks by (simp add: drain_tasks_def)
  then show ?thesis using e1 listen closed table2 [OF table] by (fastforce simp: table_inv_def)
qed

text \<open>The test server with one open session.\<close>

definition test_objects :: objects where
  "test_objects = \<lparr>heap = [0 \<mapsto> test_session\<lparr>registered := True\<rparr>], next_ptr = 1, next_id = 2\<rparr>"

definition test_serving :: "unit server" where
  "test_serving = test_server\<lparr>sessions := [1 \<mapsto> 0], handlers := [4 \<mapsto> DrainWakeup, 5 \<mapsto> AcceptEvents, 7 \<mapsto> SessionEvents 0]\<rparr>"

lemma test_serving_inv: "server_inv test_objects test_serving"
  by (simp add: server_inv_def heap_inv_def map_inv_def table_inv_def test_objects_def test_serving_def test_session_def
      accepted_session_def set_close_handler_def set_message_handler_def new_session_def queue_ok_def
      test_server_def server_init_def test_loop_def env.extend_def)

theorem server_stop_closes_all_witness:
  "\<exists>e1 ob2 e2. server_stop [1] test_serving = (Inr (), e1) \<and>
     drain_tasks (server_run_task echo_app) (test_objects, e1) = (Inr (), (ob2, e2)) \<and>
     (\<forall>p s. heap ob2 p = Some s \<longrightarrow> \<not> is_open s)"
proof -
  have "fst (server_stop [1] test_serving) = Inr ()"
    by (simp add: server_stop_def close_listener_def session_close_def test_serving_def server_eval loop_eval
        map_filter_def)
  then have run: "server_stop [1] test_serving = (Inr (), snd (server_stop [1] test_serving))"
    by (simp add: prod_eq_iff)
  have "started test_serving" "tasks test_serving = []" "set [1] = dom (sessions test_serving)" "Suc (next_ptr test_objects) < 2 ^ 64"
    by (simp_all add: test_serving_def test_server_def server_init_def test_loop_def env.extend_def test_objects_def)
  from server_stop_closes_all [OF test_serving_inv this(4,1,2,3) run] run show ?thesis by blast
qed

section \<open>What the failures of starting report\<close>

text \<open>
  When bind fails (the port is in use, say), the exception does not carry its \<^verbatim>\<open>errno\<close>:
  \<^verbatim>\<open>close_listener\<close> runs before \<^verbatim>\<open>throw_system_error\<close>, removes a descriptor from epoll that was
  never added, and so leaves \<^verbatim>\<open>ENOENT\<close>. The listener itself is given up properly.
\<close>

lemma bind_failure_reports_enoent:
  assumes "answers e = 0 # err # ENOENT # 0 # as" and "err \<noteq> 0" and "valid_ipv4 (host e)" and "fd \<noteq> -1"
  shows "\<exists>e'. bind_and_listen valid_ipv4 (Inr fd) e = (Inl (SystemError ENOENT ''bind''), e') \<and>
    listen_fd e' = -1 \<and> syscalls e' = syscalls e @ [SetSockOpt fd, Bind fd, EpollDel fd, CloseFd fd]"
  using assms by (simp add: bind_and_listen_def close_listener_def loop_eval)

text \<open>
  Starting, when every call succeeds: the listener is bound, made non-blocking, registered for
  reading with the accepting handler, and the server is started; a second \<^verbatim>\<open>start()\<close> does nothing.
\<close>

lemma server_start_listens:
  assumes "answers e = []" and "valid_ipv4 (host e)" and "\<not> started e"
  shows "\<exists>e'. server_start valid_ipv4 (Inr fd) e = (Inr (), e') \<and> started e' \<and> listen_fd e' = fd \<and>
    handlers e' = (handlers e)(fd \<mapsto> AcceptEvents) \<and>
    syscalls e' = syscalls e @ [SetSockOpt fd, Bind fd, Listen fd, FcntlGet fd, FcntlSet fd, EpollAdd fd EPOLLIN] \<and>
    server_start valid_ipv4 sock' e' = (Inr (), e')"
  using assms by (simp add: server_start_def bind_and_listen_def loop_eval)

text \<open>
  A connection whose registration fails stays behind: the exception leaves \<^verbatim>\<open>accept_loop\<close> (and
  \<^verbatim>\<open>run\<close>), but the session is in the map, open, with its descriptor, and no handler will ever
  serve or close it.
\<close>

lemma accept_failure_leaves_session:
  assumes "answers e = 0 # 0 # err # as" and "err \<noteq> 0"
  shows "\<exists>ob' e' s. accept_one A fd rs bs (ob, e) = (Inl (SystemError err ''epoll_ctl(ADD)''), (ob', e')) \<and>
    sessions e' (next_id ob) = Some (next_ptr ob) \<and> heap ob' (next_ptr ob) = Some s \<and>
    is_open s \<and> socket_fd s = fd \<and> handlers e' fd = None"
  using assms by (simp add: accept_one_def accepted_session_def session_eval loop_eval Let_def)

section \<open>What the loop runs is steps of every session\<close>

lemma accept_one_trace:
  assumes "accept_one A fd as bs (ob, e) = (Inr (), (ob', e'))"
  shows "delivered q (trace e') = delivered q (trace e)" and "closings q (trace e') = closings q (trace e)"
proof -
  have "delivered q (trace e') = delivered q (trace e) \<and> closings q (trace e') = closings q (trace e)"
    using assms
  proof (cases rule: accept_one_run)
    case (1 e1)
    then show ?thesis
      using event_loop_more_trace [OF session_start_run(4) [OF 1(2)]] call_session_handler_posts [OF 1(3)]
      by (simp add: posts_only_def)
  qed
  then show "delivered q (trace e') = delivered q (trace e)" and "closings q (trace e') = closings q (trace e)" by simp_all
qed

lemma accept_one_others:
  assumes "server_inv ob e" and "accept_one A fd as bs (ob, e) = (Inr (), (ob', e'))" and "heap ob q = Some s"
  shows "heap ob' q = Some s \<and> delivered q (trace e') = delivered q (trace e) \<and> closings q (trace e') = closings q (trace e)"
proof -
  have "q \<noteq> next_ptr ob" using assms(1,3) by (auto simp: server_inv_def heap_inv_def)
  moreover have "heap ob' q = (if q = next_ptr ob then heap ob' q else heap ob q)"
    using assms(2) by (cases rule: accept_one_run) simp
  ultimately show ?thesis using accept_one_trace [OF assms(2)] assms(3) by simp
qed

lemma accept_from_others:
  "server_inv ob e \<Longrightarrow> accept_from A as (ob, e) = (Inr (), (ob', e')) \<Longrightarrow> heap ob q = Some s \<Longrightarrow>
   heap ob' q = Some s \<and> delivered q (trace e') = delivered q (trace e) \<and> closings q (trace e') = closings q (trace e)"
proof (induction A as "(ob, e)" arbitrary: ob e rule: accept_from.induct)
  case (1 A ob e)
  then show ?case by auto
next
  case (2 A err rest ob e)
  let ?e = "e\<lparr>accepts := rest, cerrno := err\<rparr>"
  have "server_inv ob ?e" by (rule server_inv_env [OF "2.prems"(1)]) (use "2.prems"(1) in \<open>simp_all add: server_inv_def\<close>)
  with "2.hyps" [OF refl _ _ this] "2.prems"(2,3) show ?case
    by (auto simp: Let_def on_snd_run throw_system_error_def split: if_splits)
next
  case (3 A fd as bs rest ob e)
  let ?e = "e\<lparr>accepts := rest\<rparr>"
  have inv: "server_inv ob ?e" by (rule server_inv_env [OF "3.prems"(1)]) (use "3.prems"(1) in \<open>simp_all add: server_inv_def\<close>)
  obtain ob1 e1 where one: "accept_one A fd as bs (ob, ?e) = (Inr (), (ob1, e1))"
    and rest: "accept_from A rest (ob1, e1) = (Inr (), (ob', e'))"
    using "3.prems"(2) by (auto simp: seq_run split: prod.splits sum.splits)
  have first: "heap ob1 q = Some s" "delivered q (trace e1) = delivered q (trace e)" "closings q (trace e1) = closings q (trace e)"
    using accept_one_others [OF inv one "3.prems"(3)] by simp_all
  have "heap ob' q = Some s \<and> delivered q (trace e') = delivered q (trace e1) \<and> closings q (trace e') = closings q (trace e1)"
    by (rule "3.hyps" [OF accept_one_inv [OF inv one] rest first(1)])
  then show ?case using first by simp
qed

lemma framed_step:
  assumes "heap ob p = Some s1" and "ob' = ob\<lparr>heap := (heap ob)(p \<mapsto> s1')\<rparr>"
    and "op_frame view closing p s1 e s1' e'" and "heap ob q = Some s"
    and "advances H p (s1, e, acc, inp) (s1', e', acc', inp')"
  shows "\<exists>s' acc' inp'. heap ob' q = Some s' \<and> advances H q (s, e, acc, inp) (s', e', acc', inp')"
proof (cases "q = p")
  case True
  then show ?thesis using assms by auto
next
  case False
  then have "advances H q (s, e, acc, inp) (s, e', acc, inp)"
    using assms(3) by (intro advances_others) (simp_all add: op_frame_def)
  then show ?thesis using False assms(2,4) by auto
qed

lemma handler_simulates:
  assumes "server_inv ob e" and "heap ob q = Some s"
    and run: "server_run_handler A h ev (ob, e) = (Inr (), (ob', e'))"
  shows "\<exists>s' acc' inp'. heap ob' q = Some s' \<and>
    advances (server_hooks A) q (s, e, acc, inp) (s', e', acc', inp')"
proof -
  have others: ?thesis
    if "heap ob' q = Some s" "delivered q (trace e') = delivered q (trace e)" "closings q (trace e') = closings q (trace e)"
    using that advances_others [of q e' e "server_hooks A" s acc inp] by blast
  show ?thesis
  proof (cases h)
    case DrainWakeup
    then have d: "drain_wakeup e = (Inr (), e')" "ob' = ob"
      using run by (auto simp: on_snd_run split: prod.splits)
    then show ?thesis
      using assms(2) event_loop_more_trace [OF drain_wakeup_frame(5) [OF d(1)]] by (intro others) simp_all
  next
    case (SessionEvents p)
    then have w: "with_session p (handle_events (server_hooks A) p ev) (ob, e) = (Inr (), (ob', e'))" using run by simp
    then show ?thesis
    proof (cases rule: with_session_cases)
      case absent
      then show ?thesis using assms(2) by (intro others) simp_all
    next
      case (present s1 s1')
      have "queue_ok s1" using server_inv_queues [OF assms(1)] present(1) by (simp add: queues_ok_def)
      then show ?thesis
        using framed_step [OF present(1,3) srv.handle_events_frames [OF present(2)] assms(2) srv.advances_events [OF present(2)]]
        by blast
    qed
  next
    case AcceptEvents
    then show ?thesis
      using run accept_from_others [OF assms(1) _ assms(2)] assms(2)
      by (intro others) (auto simp: accept_loop_def split: if_splits)
  qed
qed

lemma task_simulates:
  assumes "server_inv ob e" and "heap ob q = Some s"
    and t: "task_ok t" "server_run_task A t (ob, e) = (Inr (), (ob', e'))"
  shows "\<exists>s' acc' inp'. heap ob' q = Some s' \<and>
    advances (server_hooks A) q (s, e, acc, inp) (s', e', acc', inp')"
proof -
  obtain p m where m: "run_task (server_hooks A) t = with_session p m"
    and step: "\<And>s1 s1'. m (s1, e) = (Inr (), (s1', e')) \<Longrightarrow> queue_ok s1 \<Longrightarrow>
      op_frame sessions erase_closed p s1 e s1' e' \<and>
      (\<exists>acc'. advances (server_hooks A) p (s1, e, acc, inp) (s1', e', acc', inp))"
  proof (cases t)
    case (SendTask p frame cb)
    then have "frame \<noteq> []" using t by simp
    then show thesis
      using SendTask by (intro that [of p "run_send (server_hooks A) p frame cb"])
        (auto intro: srv.run_send_frames srv.advances_sends)
  next
    case (CloseTask p)
    then show thesis
      by (intro that [of p "close_from_loop (server_hooks A) p"])
         (auto intro: srv.close_from_loop_frames srv.advances_closes)
  qed
  have "with_session p m (ob, e) = (Inr (), (ob', e'))" using t m by (simp add: server_run_task_def)
  then show ?thesis
  proof (cases rule: with_session_cases)
    case absent
    then show ?thesis using assms(2) advances_others [of q e e "server_hooks A" s acc inp] by auto
  next
    case (present s1 s1')
    have "queue_ok s1" using server_inv_queues [OF assms(1)] present(1) by (simp add: queues_ok_def)
    with step [OF present(2)] framed_step [OF present(1,3) _ assms(2)] show ?thesis by blast
  qed
qed

text \<open>
  C10. Whatever the server's loop runs (a task, or an event of any handler: accepting, the eventfd,
  another session) is one step of the life of each of its sessions, so what is proved of a single
  session (\<open>server_delivers\<close>, \<open>server_writes\<close>, \<open>server_closes_once\<close>) holds of all of them at once.
\<close>

theorem server_simulates_sessions:
  assumes "server_inv ob e" and "heap ob q = Some s"
    and "server_run_handler A h ev (ob, e) = (Inr (), (ob', e')) \<or>
      task_ok t \<and> server_run_task A t (ob, e) = (Inr (), (ob', e'))"
  shows "\<exists>s' acc' inp'. heap ob' q = Some s' \<and>
    session_step (server_hooks A) q (s, e, acc, inp) (s', e', acc', inp')"
  using assms(3) handler_simulates [OF assms(1,2)] task_simulates [OF assms(1,2)] by (fastforce simp: advances_def)

theorem server_simulates_sessions_witness:
  "\<exists>ob' e' s' acc' inp'. server_run_handler echo_app (SessionEvents 0) EPOLLIN (test_objects, test_serving) = (Inr (), (ob', e')) \<and>
     heap ob' 0 = Some s' \<and>
     session_step (server_hooks echo_app) 0 (test_session\<lparr>registered := True\<rparr>, test_serving, [], []) (s', e', acc', inp')"
proof -
  let ?x = "server_run_handler echo_app (SessionEvents 0) EPOLLIN (test_objects, test_serving)"
  have "fst ?x = Inr ()"
    by (simp add: server_eval session_eval loop_eval test_serving_def test_objects_def test_session_def)
  note run = outcome [OF this]
  have "heap test_objects 0 = Some (test_session\<lparr>registered := True\<rparr>)" by (simp add: test_objects_def)
  from server_simulates_sessions [OF test_serving_inv this disjI1 [OF run], where acc = "[]" and inp = "[]"] run
  show ?thesis by blast
qed

end
