(* ===== verification/Text_Numbers.thy ===== *)
theory Text_Numbers
  imports Prelude
begin

text \<open>
  What the programs use of the standard library to read and print integers: \<^verbatim>\<open>std::to_string\<close>,
  \<^verbatim>\<open>std::stoi\<close>, \<^verbatim>\<open>std::strtol\<close> and \<^verbatim>\<open>std::strtoull\<close>, in base ten.
\<close>

section \<open>Printing\<close>

text \<open>\<^verbatim>\<open>std::to_string\<close> of an unsigned number\<close>

fun decimal :: "nat \<Rightarrow> bytes" where
  "decimal n = (if n < 10 then [of_nat (48 + n)] else decimal (n div 10) @ [of_nat (48 + n mod 10)])"

declare decimal.simps [simp del]

section \<open>Reading\<close>

definition is_digit :: "byte \<Rightarrow> bool" where
  "is_digit c \<longleftrightarrow> 48 \<le> c \<and> c \<le> 57"

definition is_space :: "byte \<Rightarrow> bool" where
  "is_space c \<longleftrightarrow> c = 32 \<or> (9 \<le> c \<and> c \<le> 13)"

definition digits_value :: "bytes \<Rightarrow> int" where
  "digits_value ds = foldl (\<lambda>v d. 10 * v + (uint d - 48)) 0 ds"

text \<open>
  Blanks, an optional sign and the digits: whether there is a minus, the value of the digits and
  what follows them; \<open>None\<close> when there is no digit.
\<close>

definition scan_integer :: "bytes \<Rightarrow> (bool \<times> int \<times> bytes) option" where
  "scan_integer text =
     (let t = dropWhile is_space text;
          signed = (t \<noteq> [] \<and> (hd t = 43 \<or> hd t = 45));
          t' = (if signed then tl t else t)
      in if takeWhile is_digit t' = [] then None
         else Some (signed \<and> hd t = 45, digits_value (takeWhile is_digit t'), dropWhile is_digit t'))"

datatype stoi_error = InvalidArgument | OutOfRange

text \<open>\<^verbatim>\<open>std::stoi\<close>: what follows the digits is ignored.\<close>

definition stoi :: "bytes \<Rightarrow> stoi_error + int" where
  "stoi text =
     (case scan_integer text of
        None \<Rightarrow> Inl InvalidArgument
      | Some (neg, v, rest) \<Rightarrow>
          (let v = (if neg then - v else v)
           in if v < - (2 ^ 31) \<or> 2 ^ 31 \<le> v then Inl OutOfRange else Inr v))"

text \<open>
  \<^verbatim>\<open>std::strtol\<close> and \<^verbatim>\<open>std::strtoull\<close> (64-bit): the value, clamped to its range, and the text behind it;
  \<open>None\<close> for a text without digits. A minus before an unsigned number negates it modulo \<^verbatim>\<open>2^64\<close>.
\<close>

definition strtol :: "bytes \<Rightarrow> (int \<times> bytes) option" where
  "strtol text =
     (case scan_integer text of
        None \<Rightarrow> None
      | Some (neg, v, rest) \<Rightarrow> Some (max (- (2 ^ 63)) (min (2 ^ 63 - 1) (if neg then - v else v)), rest))"

definition strtoull :: "bytes \<Rightarrow> (u64 \<times> bytes) option" where
  "strtoull text =
     (case scan_integer text of
        None \<Rightarrow> None
      | Some (neg, v, rest) \<Rightarrow>
          Some (if 2 ^ 64 \<le> v then - 1 else if neg then - of_int v else of_int v, rest))"

section \<open>Reading what was printed\<close>

lemma decimal_digits: "list_all is_digit (decimal n) \<and> decimal n \<noteq> []"
proof (induction n rule: decimal.induct)
  case (1 n)
  have d: "is_digit (of_nat (48 + k))" if "k < 10" for k
  proof -
    have "unat (of_nat (48 + k) :: byte) = 48 + k" using that by (simp only: unat_of_nat) (simp add: take_bit_nat_eq_self)
    then show ?thesis using that by (simp add: is_digit_def word_le_nat_alt)
  qed
  show ?case
    using 1 d [of n] d [of "n mod 10"] by (cases "n < 10") (simp_all add: decimal.simps [of n])
qed

lemma digits_value_decimal: "digits_value (decimal n) = int n"
proof (induction n rule: decimal.induct)
  case (1 n)
  have d: "uint (of_nat (48 + k) :: byte) = 48 + int k" if "k < 10" for k
    using that by (simp only: unsigned_of_nat) (simp add: take_bit_nat_eq_self)
  have split: "10 * int (n div 10) + int (n mod 10) = int n"
    by (metis mult_div_mod_eq of_nat_add of_nat_mult of_nat_numeral)
  show ?case
  proof (cases "n < 10")
    case True
    then show ?thesis using d [of n] by (simp add: decimal.simps [of n] digits_value_def)
  next
    case False
    then have "digits_value (decimal n) = 10 * digits_value (decimal (n div 10)) + int (n mod 10)"
      using d [of "n mod 10"] by (simp add: decimal.simps [of n] digits_value_def)
    then show ?thesis using 1 False split by simp
  qed
qed

lemma scan_digits:
  assumes "c # cs = decimal n"
  shows "\<not> is_space c" and "c \<noteq> 43" and "c \<noteq> 45" and "is_digit c" and "takeWhile is_digit cs = cs" and "dropWhile is_digit cs = []"
proof -
  have d: "list_all is_digit (c # cs)" using decimal_digits [of n] assms by simp
  then show c: "is_digit c" by simp
  then show "\<not> is_space c" "c \<noteq> 43" "c \<noteq> 45" by (auto simp: is_digit_def is_space_def word_le_nat_alt)
  show "takeWhile is_digit cs = cs" "dropWhile is_digit cs = []"
    using d by (simp_all add: takeWhile_eq_all_conv dropWhile_eq_Nil_conv list_all_iff)
qed

lemma scan_decimal: "scan_integer (decimal n) = Some (False, int n, [])"
proof -
  obtain c cs where c: "decimal n = c # cs" using decimal_digits [of n] by (cases "decimal n") auto
  note s = scan_digits [OF c [symmetric]]
  have "digits_value (c # cs) = int n" using digits_value_decimal [of n] c by simp
  then show ?thesis by (simp add: c scan_integer_def s)
qed

lemma scan_minus_decimal: "scan_integer (45 # decimal n) = Some (True, int n, [])"
proof -
  obtain c cs where c: "decimal n = c # cs" using decimal_digits [of n] by (cases "decimal n") auto
  note s = scan_digits [OF c [symmetric]]
  have "digits_value (c # cs) = int n" using digits_value_decimal [of n] c by simp
  then show ?thesis by (simp add: c scan_integer_def s, simp add: is_space_def)
qed

lemma stoi_decimal: "n < 2 ^ 31 \<Longrightarrow> stoi (decimal n) = Inr (int n)"
  by (simp add: stoi_def scan_decimal)

end
