(* ===== verification/Demo_Server.thy ===== *)
theory Demo_Server
  imports Server_Lifecycle Text_Numbers
begin

text \<open>
  \<^verbatim>\<open>examples/server_main.cpp\<close>: the demo service on a server, with its two closures as an \<open>app\<close>
  whose state is what the program has printed.

  Parameters: \<open>clock\<close> is the text that \<^verbatim>\<open>std::ctime\<close> makes of the current time, \<open>message_of\<close> is
  \<^verbatim>\<open>std::error_code::message\<close>. \<^verbatim>\<open>std::toupper\<close> is that of the "C" locale, which a program
  starts in.
\<close>

section \<open>The port\<close>

text \<open>\<^verbatim>\<open>static_cast<std::uint16_t>(argc > k ? std::stoi(argv[k]) : 5555)\<close>\<close>

definition port_argument :: "bytes option \<Rightarrow> stoi_error + u16" where
  "port_argument arg =
     (case arg of
        None \<Rightarrow> Inr 5555
      | Some text \<Rightarrow> (case stoi text of Inl err \<Rightarrow> Inl err | Inr n \<Rightarrow> Inr (word_of_int n)))"

section \<open>The demo service\<close>

definition now_text :: "bytes \<Rightarrow> bytes" where
  "now_text text = (if text \<noteq> [] \<and> last text = 10 then butlast text else text)"

definition toupper :: "byte \<Rightarrow> byte" where
  "toupper c = (if 97 \<le> c \<and> c \<le> 122 then c - 32 else c)"

definition handle_demo_request :: "bytes \<Rightarrow> rpc_message \<Rightarrow> rpc_message" where
  "handle_demo_request clock request =
     (let response = empty_message\<lparr>msg_id := msg_id request, kind := Response,
                       service := service request, method := method request\<rparr>
      in if service request \<noteq> bytes_of ''DemoService''
         then response\<lparr>status := 404, error := bytes_of ''unknown service: '' @ service request\<rparr>
         else if method request = bytes_of ''echo'' then response\<lparr>payload := payload request\<rparr>
         else if method request = bytes_of ''upper'' then response\<lparr>payload := map toupper (payload request)\<rparr>
         else if method request = bytes_of ''time'' then response\<lparr>payload := now_text clock\<rparr>
         else response\<lparr>status := 404, error := bytes_of ''unknown method: '' @ method request\<rparr>)"

section \<open>The program\<close>

datatype printed = Out bytes | Err bytes

definition quoted :: "bytes \<Rightarrow> bytes" where
  "quoted text = [34] @ text @ [34, 10]"

definition welcome_message :: "u64 \<Rightarrow> rpc_message" where
  "welcome_message sid =
     empty_message\<lparr>kind := Notify, service := bytes_of ''System'', method := bytes_of ''welcome'',
       payload := bytes_of ''welcome, session #'' @ decimal (unat sid)\<rparr>"

definition demo_on_session :: "printed list \<Rightarrow> ptr \<Rightarrow> u64 \<Rightarrow> printed list \<times> action list" where
  "demo_on_session out p sid =
     (out @ [Out (bytes_of ''[server] session #'' @ decimal (unat sid) @ bytes_of '' connected'' @ [10])],
      [SendMessage p (welcome_message sid) None])"

definition received_line :: "rpc_message \<Rightarrow> bytes" where
  "received_line m =
     bytes_of ''[server] recv '' @ bytes_of (to_string (kind m)) @ bytes_of '' id='' @ decimal (unat (msg_id m)) @
     bytes_of '' '' @ service m @ bytes_of ''.'' @ method m @ bytes_of '' payload='' @ quoted (payload m)"

definition demo_on_message ::
    "bytes \<Rightarrow> printed list \<Rightarrow> ptr \<Rightarrow> rpc_message \<Rightarrow> printed list \<times> action list" where
  "demo_on_message clock out p m =
     (out @ [Out (received_line m)],
      if kind m = Request then [SendMessage p (handle_demo_request clock m) (Some (UserWrite 0))] else [])"

definition demo_on_write :: "(errno \<Rightarrow> bytes) \<Rightarrow> printed list \<Rightarrow> errno \<Rightarrow> printed list" where
  "demo_on_write message_of out err =
     (if err \<noteq> 0 then out @ [Err (bytes_of ''[server] async write failed: '' @ message_of err @ [10])] else out)"

definition demo_app :: "bytes \<Rightarrow> (errno \<Rightarrow> bytes) \<Rightarrow> printed list app" where
  "demo_app clock message_of =
     \<lparr>app_session = \<lambda>_ out p sid. demo_on_session out p sid,
      app_message = \<lambda>_ out p sid m. demo_on_message clock out p m,
      app_write = \<lambda>_ out err. demo_on_write message_of out err\<rparr>"

text \<open>The server object before \<^verbatim>\<open>start()\<close>, on a constructed loop.\<close>

definition demo_server :: "env \<Rightarrow> u16 \<Rightarrow> printed list server" where
  "demo_server e n =
     server_set_message_handler (Some (UserMessage 0))
       (server_set_session_handler (Some 0) (server_init e (bytes_of ''0.0.0.0'') n []))"

text \<open>
  \<^verbatim>\<open>main\<close> after the loop and the server have been constructed: start, say so, run. \<open>None\<close>: the
  loop is still running when the answers of epoll_wait end.
\<close>

definition server_main ::
    "bytes \<Rightarrow> (errno \<Rightarrow> bytes) \<Rightarrow> (bytes \<Rightarrow> bool) \<Rightarrow> errno + fd \<Rightarrow> accept_answer list \<Rightarrow> task wait_answer list \<Rightarrow>
     env \<Rightarrow> u16 \<Rightarrow> ((exn + unit) \<times> objects \<times> printed list server) option" where
  "server_main clock message_of valid_ipv4 sock conns ws e n =
     (case server_start valid_ipv4 sock ((demo_server e n)\<lparr>accepts := conns\<rparr>) of
        (Inl ex, e') \<Rightarrow> Some (Inl ex, (no_objects, e'))
      | (Inr _, e') \<Rightarrow>
          server_run (demo_app clock message_of) ws
            (no_objects,
             e'\<lparr>user := user e' @ [Out (bytes_of ''[server] listening on 0.0.0.0:'' @ decimal (unat n) @ [10])]\<rparr>))"

end
