(* ===== verification/Session_Keeps.thy ===== *)
theory Session_Keeps
  imports Application
begin

text \<open>
  Invariants of what the program keeps beside the loop. The interface is a predicate on the
  environment that the loop's own operations and the log of calls cannot break
  (\<open>kept_by_loop\<close>), that write and close handlers keep (\<open>kept_by_closing\<close>) and that
  message handlers keep (\<open>kept_by_hooks\<close>). Then closing a session, in the last case every
  operation of a session and every task, keeps it, whether it returns or throws.
\<close>

section \<open>The loop's operations\<close>

locale kept_by_loop =
  fixes J :: "'x env_scheme \<Rightarrow> bool"
  assumes J_more: "event_loop.more e' = event_loop.more e \<Longrightarrow> J e \<Longrightarrow> J e'"
    and J_trace: "J e \<Longrightarrow> J (e\<lparr>trace := t\<rparr>)"
begin

lemma keeps_more:
  assumes "\<And>e r e'. m e = (r, e') \<Longrightarrow> event_loop.more e' = event_loop.more e"
  shows "keeps J m"
proof (rule keepsI)
  fix e
  assume "J e"
  moreover have "event_loop.more (snd (m e)) = event_loop.more e" by (rule assms) (rule prod.collapse [symmetric])
  ultimately show "J (snd (m e))" by (blast intro: J_more)
qed

lemma keeps_loop [keeps_intros]:
  "keeps J (sys c)" "keeps J wakeup" "keeps J (loop_post t)" "keeps J (loop_modify fd ev)"
  "keeps J (loop_remove fd)" "keeps J loop_stop" "keeps J (set_non_blocking fd)"
  "keeps J (loop_add fd ev h)" "keeps J drain_wakeup" "keeps J (throw_system_error what)"
  by (rule keeps_more; auto dest: loop_frame simp: throw_system_error_def)+

lemma keeps_log_call [keeps_intros]: "keeps J (log_call c)"
  unfolding log_call_def by (rule keeps_upd) (rule J_trace)

lemma J_cerrno: "J e \<Longrightarrow> J (e\<lparr>cerrno := c\<rparr>)"
  by (rule J_more [of _ e]) simp_all

end

abbreviation beside :: "('e \<Rightarrow> bool) \<Rightarrow> 's \<times> 'e \<Rightarrow> bool" where
  "beside J \<equiv> (\<lambda>(s, e). J e)"

lemma keeps_pairI: "(\<And>s e. J e \<Longrightarrow> J (snd (snd (m (s, e))))) \<Longrightarrow> keeps (beside J) m"
  by (auto simp: keeps_def case_prod_beta)

lemma keeps_pairD: "keeps (beside J) m \<Longrightarrow> J e \<Longrightarrow> J (snd (snd (m (s, e))))"
  using keepsD [of "beside J" m "(s, e)"] by (simp add: case_prod_beta)

lemma keeps_pair_run: "keeps (beside J) m \<Longrightarrow> m (s, e) = (r, (s', e')) \<Longrightarrow> J e \<Longrightarrow> J e'"
  using keeps_pairD [of J m e s] by simp

section \<open>Closing a session\<close>

locale kept_by_closing = kept_by_loop J for J :: "'x env_scheme \<Rightarrow> bool" +
  fixes H :: "'x hooks"
  assumes J_write: "keeps J (on_write H h err)"
    and J_close: "keeps J (on_close H c p s)"
begin

lemma keeps_call_write: "keeps J (call_write (on_write H) h err)"
  unfolding call_write_def by (cases h) (auto intro!: keeps_intros J_write)

lemma keeps_call_close: "keeps J (call_close H p s)"
  unfolding call_close_def by (cases "close_cb s") (auto intro!: keeps_intros J_close)

lemma keeps_session_send: "keeps J (session_send (on_write H) p m h)"
  unfolding session_send_def Let_def by (intro keeps_if keeps_call_write keeps_loop)

lemma keeps_perform_all: "keeps J (perform_all (on_write H) as)"
proof -
  have "keeps J (perform (on_write H) a)" for a
    by (cases a) (simp_all add: keeps_session_send session_close_def keeps_loop)
  then show ?thesis unfolding perform_all_def by (rule keeps_for_each)
qed

lemma flush_queue_keeps: "J e \<Longrightarrow> J (snd (snd (flush_queue H err (s, e))))"
proof (induction "write_queue s" arbitrary: s e)
  case Nil
  then show ?case by (simp add: flush_queue.simps [of H err s e])
next
  case (Cons f q)
  obtain r e1 where w: "call_write (on_write H) (write_cb f) err e = (r, e1)" by fastforce
  then have "J e1" using keeps_run [OF keeps_call_write w] Cons.prems by simp
  then show ?case
    using Cons.hyps(1) [of "s\<lparr>write_queue := q\<rparr>" e1] Cons.hyps(2) [symmetric] w
    by (cases r) (simp_all add: flush_queue.simps [of H err s e] Let_def)
qed

lemma keeps_flush_queue: "keeps (beside J) (flush_queue H err)"
  by (rule keeps_pairI) (rule flush_queue_keeps)

lemma keeps_unregister: "keeps (beside J) (unregister fd)"
proof (rule keeps_pairI)
  fix s :: session and e
  assume J: "J e"
  have "keeps (beside J) (seq (on_snd (loop_remove fd)) (upd (\<lambda>(s :: session, e). (s\<lparr>registered := False\<rparr>, e))))"
    by (intro keeps_intros) auto
  from keeps_pairD [OF this J, of s] J show "J (snd (snd (unregister fd (s, e))))"
    by (simp add: unregister_def)
qed

lemma keeps_close_socket: "keeps (beside J) (close_socket fd)"
proof (rule keeps_pairI)
  fix s :: session and e
  assume J: "J e"
  have "keeps (beside J) (bind (on_snd (sys (CloseFd fd))) (\<lambda>_. ret ()))" by (intro keeps_intros)
  from keeps_pairD [OF this J, of s] J show "J (snd (snd (close_socket fd (s, e))))"
    by (simp add: close_socket_def)
qed

lemma keeps_close_from_loop: "keeps (beside J) (close_from_loop H p)"
proof (rule keeps_pairI)
  fix s :: session and e
  assume J: "J e"
  have "keeps (beside J) (\<lambda>(s, e). on_snd (call_close H p s) (s, e))"
    by (rule keeps_pairI) (simp add: on_snd_def case_prod_beta keepsD [OF keeps_call_close])
  then have "keeps (beside J) (seq (unregister (socket_fd s)) (seq (close_socket (socket_fd s))
      (seq (flush_queue H ENOTCONN) (\<lambda>(s, e). on_snd (call_close H p s) (s, e)))))"
    by (intro keeps_seq keeps_unregister keeps_close_socket keeps_flush_queue)
  from keeps_pairD [OF this J, of "s\<lparr>is_open := False, socket_fd := -1\<rparr>"] J
  show "J (snd (snd (close_from_loop H p (s, e))))" by (simp add: close_from_loop_def Let_def)
qed

lemma keeps_fail_and_close: "keeps (beside J) (fail_and_close H p err)"
  unfolding fail_and_close_def by (intro keeps_seq keeps_flush_queue keeps_close_from_loop)

end

section \<open>Everything a session does\<close>

locale kept_by_hooks = kept_by_closing J H for J :: "'x env_scheme \<Rightarrow> bool" and H :: "'x hooks" +
  assumes J_message: "keeps J (on_message H mh p s m)"
begin

lemma keeps_call_message: "keeps J (call_message H p s m)"
  unfolding call_message_def by (cases "msg_handler s") (auto intro!: keeps_intros J_message)

lemma keeps_call: "call_message H p s m e = (r, e') \<Longrightarrow> J e \<Longrightarrow> J e'"
  "call_write (on_write H) h err e = (r, e') \<Longrightarrow> J e \<Longrightarrow> J e'"
  by (auto intro: keeps_run [OF keeps_call_message] keeps_run [OF keeps_call_write])

lemma read_frames_keeps: "J e \<Longrightarrow> J (snd (snd (read_frames H p (s, e))))"
proof (induction "length (read_buffer s)" arbitrary: s e rule: less_induct)
  case less
  note unfold = read_frames.simps [of H p s e]
  show ?case
  proof (cases rule: try_pop_frame_cases [of "read_buffer s" "[]"])
    case more
    then show ?thesis using less.prems by (simp add: unfold)
  next
    case large
    then show ?thesis using less.prems keeps_pairD [OF keeps_fail_and_close less.prems] by (simp add: unfold)
  next
    case (ok body rest)
    let ?s = "s\<lparr>read_buffer := rest\<rparr>"
    show ?thesis
    proof (cases "decode body")
      case None
      then show ?thesis using ok less.prems keeps_pairD [OF keeps_fail_and_close less.prems] by (simp add: unfold)
    next
      case (Some m)
      obtain r e1 where c: "call_message H p ?s m e = (r, e1)" by fastforce
      then have "J e1" using less.prems by (rule keeps_call)
      moreover have "length rest < length (read_buffer s)" using ok try_pop_frame_shorter by blast
      ultimately show ?thesis
        using ok Some c less.prems less.hyps [of ?s e1] by (cases r) (simp_all add: unfold Let_def)
    qed
  qed
qed

lemma keeps_read_frames: "keeps (beside J) (read_frames H p)"
  by (rule keeps_pairI) (rule read_frames_keeps)

lemma keeps_async_read: "keeps (beside J) (async_read H p)"
proof (rule keeps_pairI)
  fix s :: session and e
  assume J: "J e"
  obtain buffer stop rest where "recv_all (rx s) (read_buffer s) = (buffer, stop, rest)" by (cases "recv_all (rx s) (read_buffer s)")
  then show "J (snd (snd (async_read H p (s, e))))"
    using J by (cases stop)
      (simp_all add: async_read_def J_cerrno keeps_pairD [OF keeps_read_frames]
        keeps_pairD [OF keeps_fail_and_close] keeps_pairD [OF keeps_close_from_loop])
qed

lemma keeps_update_events: "keeps (beside J) update_events"
proof (rule keeps_pairI)
  fix s :: session and e
  assume J: "J e"
  then show "J (snd (snd (update_events (s, e))))"
    by (simp add: update_events_def on_snd_def case_prod_beta keepsD [OF keeps_loop(4)])
qed

lemma keeps_gives_up: "keeps (beside J) (seq (fail_and_close H p err) (ret False))"
  by (intro keeps_seq keeps_fail_and_close keeps_ret)

lemma write_loop_keeps: "J e \<Longrightarrow> J (snd (snd (write_loop H p (s, e))))"
proof (induction "length (tx s)" arbitrary: s e rule: less_induct)
  case less
  note unfold = write_loop.simps [of H p s e]
  show ?case
  proof (cases "is_open s \<and> write_queue s \<noteq> [] \<and> tx s \<noteq> []")
    case False
    then show ?thesis using less.prems by (auto simp: unfold J_cerrno split: list.splits)
  next
    case True
    then obtain f q a as where wq: "write_queue s = f # q" "tx s = a # as" "is_open s"
      by (meson neq_Nil_conv)
    have IH: "J (snd (snd (write_loop H p (s1, e1))))" if "J e1" "tx s1 = as" for s1 e1
      using less.hyps [of s1 e1] that wq(2) by simp
    note give_up = keeps_pairD [OF keeps_gives_up]
    show ?thesis
    proof (cases a)
      case (SendError err)
      then show ?thesis using less.prems wq by (simp add: unfold Let_def J_cerrno IH give_up)
    next
      case (SendBytes k)
      define n where "n = min k (length (frame_bytes f) - written f)"
      let ?s1 = "s\<lparr>tx := as, wire := wire s @ take n (drop (written f) (frame_bytes f))\<rparr>"
      obtain r e1 where w: "call_write (on_write H) (write_cb f) 0 e = (r, e1)" by fastforce
      then have "J e1" using less.prems by (rule keeps_call)
      then show ?thesis
        using less.prems wq SendBytes w
        by (cases r) (simp_all add: unfold Let_def n_def [symmetric] IH give_up del: min_less_iff_conj)
    qed
  qed
qed

lemma keeps_async_write: "keeps (beside J) (async_write H p)"
proof -
  have "keeps (beside J) (\<lambda>(s, e). if b \<and> is_open s then update_events (s, e) else ret () (s, e))" for b
    by (rule keeps_pairI) (simp add: keeps_pairD [OF keeps_update_events])
  moreover have "keeps (beside J) (write_loop H p)" by (rule keeps_pairI) (rule write_loop_keeps)
  ultimately show ?thesis unfolding async_write_def by (intro keeps_bind)
qed

lemma keeps_handle_events: "keeps (beside J) (handle_events H p ev)"
proof (rule keeps_pairI)
  fix s e
  assume J: "J e"
  have "keeps (beside J) (\<lambda>(s, e). if is_open s \<and> ev AND EPOLLOUT \<noteq> 0 then async_write H p (s, e) else ret () (s, e))"
    "keeps (beside J) (\<lambda>(s, e). if is_open s \<and> ev AND EPOLLRDHUP \<noteq> 0 then close_from_loop H p (s, e) else ret () (s, e))"
    "keeps (beside J) (if ev AND EPOLLIN \<noteq> 0 then async_read H p else ret ())"
    by (rule keeps_pairI, simp add: keeps_pairD [OF keeps_async_write] keeps_pairD [OF keeps_close_from_loop]
        keeps_pairD [OF keeps_async_read])+
  note steps = keeps_seq [OF this(3) keeps_seq [OF this(1,2)]]
  show "J (snd (snd (handle_events H p ev (s, e))))"
    using J keeps_pairD [OF steps J, of s] keeps_pairD [OF keeps_close_from_loop J, of p s]
    by (simp add: handle_events_def)
qed

lemma keeps_run_send: "keeps (beside J) (run_send H p frame cb)"
proof (rule keeps_pairI)
  fix s e
  assume J: "J e"
  have "keeps (beside J) (seq update_events (async_write H p))"
    by (intro keeps_seq keeps_update_events keeps_async_write)
  from keeps_pairD [OF this J] show "J (snd (snd (run_send H p frame cb (s, e))))"
    using J by (simp add: run_send_def on_snd_def case_prod_beta keepsD [OF keeps_call_write])
qed

lemma keeps_with_session: "keeps (beside J) m \<Longrightarrow> keeps (beside J) (with_session p m)"
  by (rule keeps_pairI) (auto simp: with_session_def case_prod_beta keeps_pairD split: option.splits)

lemma keeps_run_task: "keeps (beside J) (run_task H t)"
  by (cases t) (simp_all add: keeps_with_session keeps_run_send keeps_close_from_loop)

end

end
