(* ===== verification/Client.thy ===== *)
theory Client
  imports Session_Keeps
begin

text \<open>
  \<^verbatim>\<open>include/minirpc/client.hpp\<close> and \<^verbatim>\<open>src/client.cpp\<close>: connecting, calls that expect a
  response, notifications, and the dispatch of what the server sends. The client's own closures
  are the constructors \<open>DispatchMessage\<close> and \<open>ResetClient\<close> (the two handlers it gives its session)
  and \<open>ErasePending id\<close> (the write handler of a call); the user's closures are the fields of
  \<open>client_app\<close>, with \<open>client_user\<close> as their state and what they do to the library as lists of
  \<open>client_action\<close>.

  Parameters: \<open>resolve\<close> is getaddrinfo, with the kernel's answer to socket and connect for each
  address. \<open>pending_mutex_\<close> makes each access to the table one step; the calls of the public
  interface are taken as steps between those of the loop. \<open>calls\<close> (the handlers passed to
  \<^verbatim>\<open>call_async\<close>, in order) and \<open>answered\<close> (the response handlers called) are logs for the
  properties; no operation reads them.
\<close>

section \<open>State\<close>

record 'u client = env +
  client_session :: "ptr option"
  client_message_cb :: "nat option"
  next_request_id :: u64
  pending :: "u64 \<rightharpoonup> nat option"
  client_user :: 'u
  calls :: "nat option list"
  answered :: "(u64 \<times> nat \<times> rpc_message) list"

datatype client_action =
    OnSession action
  | ClientClose
  | ClientCall bytes bytes bytes "nat option"
  | ClientNotify bytes bytes bytes

record 'u client_app =
  app_response :: "nat \<Rightarrow> 'u \<Rightarrow> rpc_message \<Rightarrow> 'u \<times> client_action list"
  app_push :: "nat \<Rightarrow> 'u \<Rightarrow> ptr \<Rightarrow> rpc_message \<Rightarrow> 'u \<times> client_action list"
  app_written :: "nat \<Rightarrow> 'u \<Rightarrow> errno \<Rightarrow> 'u"

type_synonym ('u, 'a) client_eff = "('u client, 'a) eff"

definition client_init :: "env \<Rightarrow> 'u \<Rightarrow> 'u client" where
  "client_init e u = env.extend e
     \<lparr>client_session = None, client_message_cb = None, next_request_id = 1, pending = Map.empty,
      client_user = u, calls = [], answered = []\<rparr>"

definition client_set_message_handler :: "nat option \<Rightarrow> 'u client \<Rightarrow> 'u client" where
  "client_set_message_handler h e = e\<lparr>client_message_cb := h\<rparr>"

section \<open>Connecting\<close>

text \<open>What the kernel answers to socket and connect for one address.\<close>

datatype address_answer = SocketFails errno | ConnectFails fd errno | Connects fd

text \<open>The loop over the addresses: the descriptor, -1 if none connected, and the last error.\<close>

fun connect_addresses :: "address_answer list \<Rightarrow> errno \<Rightarrow> (('h, 't, 'x) event_loop_scheme, fd \<times> errno) eff" where
  "connect_addresses [] last_error = ret (-1, last_error)"
| "connect_addresses (SocketFails err # items) last_error =
     seq (upd (\<lambda>e. e\<lparr>cerrno := err\<rparr>)) (connect_addresses items err)"
| "connect_addresses (Connects fd # items) last_error = ret (fd, last_error)"
| "connect_addresses (ConnectFails fd err # items) last_error =
     seq (upd (\<lambda>e. e\<lparr>cerrno := err\<rparr>))
       (bind (sys (CloseFd fd)) (\<lambda>_. connect_addresses items err))"

definition connect_tcp :: "string + address_answer list \<Rightarrow> (('h, 't, 'x) event_loop_scheme, fd) eff" where
  "connect_tcp resolved =
     (case resolved of
        Inl text \<Rightarrow> throw (RuntimeError (''getaddrinfo: '' @ text))
      | Inr items \<Rightarrow>
          bind (connect_addresses items 0) (\<lambda>(fd, last_error).
            if fd = -1 then
              if last_error \<noteq> 0 then throw (SystemError last_error ''connect'')
              else throw (RuntimeError ''connect: no address resolved'')
            else ret fd))"

text \<open>\<^verbatim>\<open>session_ && session_->is_open()\<close>, given what \<^verbatim>\<open>is_open()\<close> shows of a session.\<close>

definition connected :: "(ptr \<Rightarrow> bool) \<Rightarrow> 'u client \<Rightarrow> bool" where
  "connected opened e = (case client_session e of None \<Rightarrow> False | Some p \<Rightarrow> opened p)"

definition session_open :: "objects \<Rightarrow> ptr \<Rightarrow> bool" where
  "session_open ob p = (case heap ob p of None \<Rightarrow> False | Some s \<Rightarrow> is_open s)"

text \<open>\<open>as\<close> and \<open>bs\<close> are what the kernel will answer on the new socket.\<close>

definition connected_session :: "fd \<Rightarrow> u64 \<Rightarrow> recv_answer list \<Rightarrow> send_answer list \<Rightarrow> session" where
  "connected_session fd sid as bs =
     set_close_handler (Some ResetClient) (set_message_handler (Some DispatchMessage)
       ((new_session fd sid)\<lparr>rx := as, tx := bs\<rparr>))"

definition client_connect ::
    "(bytes \<Rightarrow> u16 \<Rightarrow> string + address_answer list) \<Rightarrow> recv_answer list \<Rightarrow> send_answer list \<Rightarrow> bytes \<Rightarrow> u16 \<Rightarrow>
     (objects \<times> 'u client, unit) eff" where
  "client_connect resolve as bs host port = (\<lambda>(ob, e).
     if connected (session_open ob) e then ret () (ob, e)
     else
       bind (on_snd (connect_tcp (resolve host port))) (\<lambda>fd (ob, e).
         case make_session fd ob of
           (p, ob') \<Rightarrow>
             with_session p (session_start p)
               (ob'\<lparr>heap := (heap ob')(p \<mapsto> connected_session fd (next_id ob) as bs)\<rparr>,
                e\<lparr>client_session := Some p\<rparr>)) (ob, e))"

definition client_close :: "('u, unit) client_eff" where
  "client_close = (\<lambda>e. case client_session e of None \<Rightarrow> ret () e | Some p \<Rightarrow> session_close p e)"

text \<open>\<^verbatim>\<open>~RpcClient\<close>\<close>

definition client_destroy :: "('u, unit) client_eff" where
  "client_destroy = client_close"

section \<open>Calls and notifications\<close>

definition client_on_write :: "'u client_app \<Rightarrow> write_handler \<Rightarrow> errno \<Rightarrow> ('u, unit) client_eff" where
  "client_on_write A h err =
     (case h of
        ErasePending i \<Rightarrow> upd (\<lambda>e. if err \<noteq> 0 then e\<lparr>pending := (pending e)(i := None)\<rparr> else e)
      | UserWrite n \<Rightarrow> upd (\<lambda>e. e\<lparr>client_user := app_written A n (client_user e) err\<rparr>))"

definition call_message_of :: "u64 \<Rightarrow> bytes \<Rightarrow> bytes \<Rightarrow> bytes \<Rightarrow> rpc_message" where
  "call_message_of i sv mt pl =
     empty_message\<lparr>msg_id := i, kind := Request, service := sv, method := mt, payload := pl\<rparr>"

definition client_call_async ::
    "'u client_app \<Rightarrow> (ptr \<Rightarrow> bool) \<Rightarrow> bytes \<Rightarrow> bytes \<Rightarrow> bytes \<Rightarrow> nat option \<Rightarrow> ('u, u64) client_eff" where
  "client_call_async A opened sv mt pl handler = (\<lambda>e.
     case client_session e of
       None \<Rightarrow> throw (RuntimeError ''RpcClient is not connected'') e
     | Some p \<Rightarrow>
         if \<not> opened p then throw (RuntimeError ''RpcClient is not connected'') e
         else
           (let i = next_request_id e
            in seq (upd (\<lambda>e. e\<lparr>next_request_id := i + 1, pending := (pending e)(i \<mapsto> handler),
                            calls := calls e @ [handler]\<rparr>))
                 (seq (session_send (client_on_write A) p (call_message_of i sv mt pl) (Some (ErasePending i)))
                      (ret i)) e))"

definition notify_message_of :: "bytes \<Rightarrow> bytes \<Rightarrow> bytes \<Rightarrow> rpc_message" where
  "notify_message_of sv mt pl = empty_message\<lparr>kind := Notify, service := sv, method := mt, payload := pl\<rparr>"

definition client_notify ::
    "'u client_app \<Rightarrow> (ptr \<Rightarrow> bool) \<Rightarrow> bytes \<Rightarrow> bytes \<Rightarrow> bytes \<Rightarrow> ('u, unit) client_eff" where
  "client_notify A opened sv mt pl = (\<lambda>e.
     case client_session e of
       None \<Rightarrow> throw (RuntimeError ''RpcClient is not connected'') e
     | Some p \<Rightarrow>
         if \<not> opened p then throw (RuntimeError ''RpcClient is not connected'') e
         else session_send (client_on_write A) p (notify_message_of sv mt pl) None e)"

section \<open>What the session's handlers do\<close>

text \<open>The calls a user's closure makes.\<close>

fun perform_client :: "'u client_app \<Rightarrow> (ptr \<Rightarrow> bool) \<Rightarrow> client_action \<Rightarrow> ('u, unit) client_eff" where
  "perform_client A opened (OnSession a) = perform (client_on_write A) a"
| "perform_client A opened ClientClose = client_close"
| "perform_client A opened (ClientCall sv mt pl h) = bind (client_call_async A opened sv mt pl h) (\<lambda>_. ret ())"
| "perform_client A opened (ClientNotify sv mt pl) = client_notify A opened sv mt pl"

definition perform_client_all :: "'u client_app \<Rightarrow> (ptr \<Rightarrow> bool) \<Rightarrow> client_action list \<Rightarrow> ('u, unit) client_eff" where
  "perform_client_all A opened = for_each (perform_client A opened)"

definition call_response :: "'u client_app \<Rightarrow> (ptr \<Rightarrow> bool) \<Rightarrow> nat \<Rightarrow> rpc_message \<Rightarrow> ('u, unit) client_eff" where
  "call_response A opened n m = (\<lambda>e.
     case app_response A n (client_user e) m of
       (u, acts) \<Rightarrow> perform_client_all A opened acts
                     (e\<lparr>client_user := u, answered := answered e @ [(msg_id m, n, m)]\<rparr>))"

definition call_push :: "'u client_app \<Rightarrow> (ptr \<Rightarrow> bool) \<Rightarrow> ptr \<Rightarrow> rpc_message \<Rightarrow> ('u, unit) client_eff" where
  "call_push A opened p m = (\<lambda>e.
     case client_message_cb e of
       None \<Rightarrow> ret () e
     | Some n \<Rightarrow> (case app_push A n (client_user e) p m of
                    (u, acts) \<Rightarrow> perform_client_all A opened acts (e\<lparr>client_user := u\<rparr>)))"

text \<open>The lookup under the lock; the handler may be empty.\<close>

definition take_pending :: "u64 \<Rightarrow> 'u client \<Rightarrow> nat option \<times> 'u client" where
  "take_pending i e =
     (case pending e i of
        None \<Rightarrow> (None, e)
      | Some handler \<Rightarrow> (handler, e\<lparr>pending := (pending e)(i := None)\<rparr>))"

definition dispatch_message ::
    "'u client_app \<Rightarrow> (ptr \<Rightarrow> bool) \<Rightarrow> ptr \<Rightarrow> rpc_message \<Rightarrow> ('u, unit) client_eff" where
  "dispatch_message A opened p m = (\<lambda>e.
     if kind m = Response then
       (case take_pending (msg_id m) e of
          (Some n, e') \<Rightarrow> call_response A opened n m e'
        | (None, e') \<Rightarrow> call_push A opened p m e')
     else call_push A opened p m e)"

text \<open>A handler of a session sees, of the sessions, that one.\<close>

definition client_on_message ::
    "'u client_app \<Rightarrow> message_handler \<Rightarrow> ptr \<Rightarrow> session \<Rightarrow> rpc_message \<Rightarrow> ('u, unit) client_eff" where
  "client_on_message A h p s m =
     (case h of
        DispatchMessage \<Rightarrow> dispatch_message A (\<lambda>q. q = p \<and> is_open s) p m
      | UserMessage _ \<Rightarrow> ret ())"

definition client_on_close :: "close_handler \<Rightarrow> ptr \<Rightarrow> session \<Rightarrow> ('u, unit) client_eff" where
  "client_on_close c p s =
     (case c of
        ResetClient \<Rightarrow> upd (\<lambda>e. e\<lparr>client_session := None, pending := Map.empty\<rparr>)
      | EraseSession \<Rightarrow> ret ())"

definition client_hooks :: "'u client_app \<Rightarrow> ('u, unit) client_ext hooks" where
  "client_hooks A =
     \<lparr>on_message = client_on_message A, on_close = client_on_close, on_write = client_on_write A\<rparr>"

section \<open>What the client's loop runs\<close>

fun client_run_handler :: "'u client_app \<Rightarrow> ev_handler \<Rightarrow> u32 \<Rightarrow> (objects \<times> 'u client, unit) eff" where
  "client_run_handler A DrainWakeup ev = on_snd drain_wakeup"
| "client_run_handler A (SessionEvents p) ev = with_session p (handle_events (client_hooks A) p ev)"
| "client_run_handler A AcceptEvents ev = ret ()"

definition client_run_task :: "'u client_app \<Rightarrow> task \<Rightarrow> (objects \<times> 'u client, unit) eff" where
  "client_run_task A = run_task (client_hooks A)"

definition client_run ::
    "'u client_app \<Rightarrow> task wait_answer list \<Rightarrow> objects \<times> 'u client \<Rightarrow> ((exn + unit) \<times> objects \<times> 'u client) option" where
  "client_run A = loop_run (client_run_task A) (client_run_handler A)"

end
