(* ===== verification/Client_Laws.thy ===== *)
theory Client_Laws
  imports Client
begin

text \<open>
  The client's closures meet the contracts of a session and of the loop; what every operation of
  the client, from whichever thread, keeps: each response handler is called at most once, with the
  response to its own call, and the client has at most one open session, the one it points to.
\<close>

section \<open>The contract of a session\<close>

definition reset_session :: "close_handler \<Rightarrow> u64 \<Rightarrow> ptr option \<Rightarrow> ptr option" where
  "reset_session c sid v = (case c of ResetClient \<Rightarrow> None | EraseSession \<Rightarrow> v)"

lemma client_view_more:
  fixes e e' :: "'u client"
  shows "event_loop.more e = event_loop.more e' \<Longrightarrow> client_session e = client_session e'"
  by (cases e; cases e') simp

lemma client_on_write_frame:
  "client_on_write A h err e = (r, e') \<Longrightarrow> r = Inr () \<and> trace e' = trace e \<and> undisturbed client_session e e'"
  by (auto simp: client_on_write_def undisturbed_def wake_inv_def split: write_handler.splits if_splits)

interpretation cli_writes: write_hooks "client_on_write A" client_session for A :: "'u client_app"
  by unfold_locales (auto dest: client_view_more client_on_write_frame)

text \<open>
  \<open>behaves\<close>: what a call that a message handler makes may do, by the contract of a session. Changes
  of the client's own members do not count.
\<close>

definition behaves :: "'u client \<Rightarrow> exn + 'a \<Rightarrow> 'u client \<Rightarrow> bool" where
  "behaves e r e' \<longleftrightarrow> posts_only client_session e e' \<and> ((\<exists>x. r = Inr x) \<longrightarrow> wake_inv e \<longrightarrow> wake_inv e')"

lemma behaves_members [simp]:
  "behaves (e\<lparr>next_request_id := n, pending := pe, calls := cs\<rparr>) = behaves e"
  "behaves (e\<lparr>pending := pe\<rparr>) = behaves e"
  "behaves (e\<lparr>client_user := u, answered := an\<rparr>) = behaves e"
  "behaves (e\<lparr>client_user := u\<rparr>) = behaves e"
  by (simp_all add: behaves_def posts_only_def posted_def wake_inv_def fun_eq_iff)

lemma behaves_refl [simp]: "behaves e r e"
  by (simp add: behaves_def posts_only_refl)

definition polite :: "('u client, 'a) eff \<Rightarrow> bool" where
  "polite m \<longleftrightarrow> (\<forall>e. behaves e (fst (m e)) (snd (m e)))"

lemma politeD: "polite m \<Longrightarrow> behaves e (fst (m e)) (snd (m e))"
  by (simp add: polite_def)

lemma behaves_after:
  fixes m :: "('u client, 'a) eff"
  shows "polite m \<Longrightarrow> (behaves e1 :: exn + 'a \<Rightarrow> _) = behaves e \<Longrightarrow> behaves e (fst (m e1)) (snd (m e1))"
  using politeD [of m e1] by simp

lemma polite_run: "polite m \<Longrightarrow> m e = (r, e') \<Longrightarrow> behaves e r e'"
  using politeD [of m e] by simp

lemma politeI:
  assumes "\<And>e r e'. m e = (r, e') \<Longrightarrow> posts_only client_session e e'" and "wakes_loop m"
  shows "polite m"
  unfolding polite_def
proof
  fix e
  obtain r e' where "m e = (r, e')" by (cases "m e")
  with assms show "behaves e (fst (m e)) (snd (m e))" by (auto simp: behaves_def wakes_loop_def)
qed

lemma polite_ret: "polite (ret x)"
  by (simp add: polite_def)

lemma polite_throw: "polite (throw ex)"
  by (simp add: polite_def)

lemma polite_bind:
  assumes "polite m" and "\<And>x. polite (f x)"
  shows "polite (bind m f)"
  unfolding polite_def
proof
  fix e
  obtain r1 e1 where m: "m e = (r1, e1)" by (cases "m e")
  note first = polite_run [OF assms(1) m]
  show "behaves e (fst (bind m f e)) (snd (bind m f e))"
  proof (cases r1)
    case (Inl ex)
    then show ?thesis using m first by (simp add: behaves_def)
  next
    case (Inr x)
    then show ?thesis
      using m first politeD [OF assms(2) [of x], of e1]
      by (auto simp: behaves_def intro: posts_only_trans)
  qed
qed

lemma polite_seq: "polite m \<Longrightarrow> polite k \<Longrightarrow> polite (seq m k)"
  unfolding seq_def by (rule polite_bind)

lemma polite_for_each: "(\<And>x. polite (f x)) \<Longrightarrow> polite (for_each f xs)"
  by (induction xs) (simp_all add: polite_ret polite_seq)

lemma polite_close: "polite client_close"
proof -
  have "polite (loop_post (CloseTask p))" for p
    by (intro politeI wakes_loop_post) (auto intro: cli_writes.loop_post_posts)
  then show ?thesis by (auto simp: polite_def client_close_def session_close_def split: option.splits)
qed

lemma polite_send: "polite (session_send (client_on_write A) p m h)"
  by (rule politeI) (auto intro: cli_writes.session_send_posts cli_writes.session_send_wakes)

lemma polite_call_async:
  fixes A :: "'u client_app"
  shows "polite (client_call_async A opened sv mt pl h)"
  unfolding polite_def
proof
  fix e :: "'u client"
  let ?i = "next_request_id e"
  let ?e = "e\<lparr>next_request_id := ?i + 1, pending := (pending e)(?i \<mapsto> h), calls := calls e @ [h]\<rparr>"
  have "polite (seq (session_send (client_on_write A) q m w) (ret ?i))" for q m w
    by (intro polite_seq polite_send polite_ret)
  then have "behaves e (fst (seq (session_send (client_on_write A) q m w) (ret ?i) ?e))
      (snd (seq (session_send (client_on_write A) q m w) (ret ?i) ?e))" for q m w
    by (rule behaves_after) simp
  then show "behaves e (fst (client_call_async A opened sv mt pl h e)) (snd (client_call_async A opened sv mt pl h e))"
    by (simp add: client_call_async_def Let_def split: option.splits)
qed

lemma polite_notify: "polite (client_notify A opened sv mt pl)"
  by (auto simp: polite_def client_notify_def intro!: behaves_after polite_send split: option.splits)

lemma polite_perform: "polite (perform_client A opened a)"
proof (cases a)
  case (OnSession b)
  then show ?thesis
    by (auto intro!: politeI cli_writes.perform_posts cli_writes.perform_wakes)
qed (auto intro: polite_close polite_bind polite_call_async polite_ret polite_notify)

lemma polite_perform_all: "polite (perform_client_all A opened acts)"
  unfolding perform_client_all_def by (rule polite_for_each) (rule polite_perform)

lemma polite_call_response: "polite (call_response A opened n m)"
  by (auto simp: polite_def call_response_def split: prod.splits intro!: behaves_after polite_perform_all)

lemma polite_call_push: "polite (call_push A opened p m)"
  by (auto simp: polite_def call_push_def split: prod.splits option.splits intro!: behaves_after polite_perform_all)

lemma polite_dispatch: "polite (dispatch_message A opened p m)"
  by (auto simp: polite_def dispatch_message_def take_pending_def split: prod.splits option.splits
      intro!: behaves_after polite_call_response polite_call_push)

interpretation cli: session_hooks "client_hooks A" client_session reset_session for A :: "'u client_app"
proof unfold_locales
  fix h err r p s s' m c mh and e e' :: "'u client" and t
  show "event_loop.more e = event_loop.more e' \<Longrightarrow> client_session e = client_session e'" by (rule client_view_more)
  show "client_session (e\<lparr>trace := t\<rparr>) = client_session e" by simp
  show "on_write (client_hooks A) h err e = (r, e') \<Longrightarrow>
      r = Inr () \<and> trace e' = trace e \<and> undisturbed client_session e e'"
    by (simp add: client_hooks_def client_on_write_frame)
  show "on_close (client_hooks A) c p s e = (r, e') \<Longrightarrow> r = Inr () \<and> trace e' = trace e \<and>
      tasks e' = tasks e \<and> handlers e' = handlers e \<and> syscalls e' = syscalls e \<and>
      client_session e' = reset_session c (session_id s) (client_session e) \<and> (wake_inv e \<longrightarrow> wake_inv e')"
    by (cases c) (auto simp: client_hooks_def client_on_close_def reset_session_def wake_inv_def)
  show "on_message (client_hooks A) mh p s m e = (r, e') \<Longrightarrow>
      posts_only client_session e e' \<and> (r = Inr () \<longrightarrow> wake_inv e \<longrightarrow> wake_inv e')"
    using polite_run [OF polite_dispatch, of A "\<lambda>q. q = p \<and> is_open s" p m e r e']
    by (cases mh) (auto simp: client_hooks_def client_on_message_def behaves_def posts_only_refl)
  show "same_view s s' \<Longrightarrow> on_message (client_hooks A) mh p s = on_message (client_hooks A) mh p s'"
    by (cases mh) (simp_all add: client_hooks_def client_on_message_def same_view_def fun_eq_iff)
qed

interpretation cli_loop: loop_tasks "client_run_task A" for A :: "'u client_app"
  by unfold_locales (simp add: client_run_task_def cli.run_task_wakes)

end
