(* ===== verification/Client_Calls.thy ===== *)
theory Client_Calls
  imports Client_Laws
begin

text \<open>
  The bookkeeping of calls, over every interleaving of the client's public interface with what its
  loop runs (\<open>client_step\<close>): ids are handed out in order, and a response handler is called at most
  once, with the response to its own call. The locale \<open>kept_by_client\<close> reduces an invariant to the changes
  that operations make; the table of calls is its first instance. The bound is that fewer than \<open>2 ^ 64 - 1\<close> calls were made.
\<close>

section \<open>The invariant of the table of calls\<close>

text \<open>The call with id \<open>i\<close> was made, with the handler \<open>h\<close>: ids count the calls from 1.\<close>

definition issued :: "nat option list \<Rightarrow> u64 \<Rightarrow> nat option \<Rightarrow> bool" where
  "issued cs i h \<longleftrightarrow> 0 < unat i \<and> unat i \<le> length cs \<and> cs ! (unat i - 1) = h"

definition answers_ok :: "nat option list \<Rightarrow> (u64 \<rightharpoonup> nat option) \<Rightarrow> (u64 \<times> nat \<times> rpc_message) list \<Rightarrow> bool" where
  "answers_ok cs pe an \<longleftrightarrow> distinct (map fst an) \<and>
     (\<forall>i h. pe i = Some h \<longrightarrow> issued cs i h \<and> i \<notin> fst ` set an) \<and>
     (\<forall>i n m. (i, n, m) \<in> set an \<longrightarrow> msg_id m = i \<and> kind m = Response \<and> issued cs i (Some n))"

definition calls_inv :: "'u client \<Rightarrow> bool" where
  "calls_inv e \<longleftrightarrow> next_request_id e = of_nat (Suc (length (calls e))) \<and>
     (Suc (length (calls e)) < 2 ^ 64 \<longrightarrow> answers_ok (calls e) (pending e) (answered e))"

lemma answers_ok_forget:
  "answers_ok cs pe an \<Longrightarrow> (\<And>i. pe' i = None \<or> pe' i = pe i) \<Longrightarrow> answers_ok cs pe' an"
  unfolding answers_ok_def by (metis option.distinct(1))

lemma answers_ok_answer:
  "answers_ok cs pe an \<Longrightarrow> pe i = Some (Some n) \<Longrightarrow> msg_id m = i \<Longrightarrow> kind m = Response \<Longrightarrow>
   answers_ok cs (pe(i := None)) (an @ [(i, n, m)])"
  unfolding answers_ok_def by auto

lemma issued_append: "issued cs i h \<Longrightarrow> issued (cs @ ds) i h"
  by (auto simp: issued_def nth_append)

lemma answers_ok_call:
  assumes "answers_ok cs pe an" and "unat i = Suc (length cs)"
  shows "answers_ok (cs @ [h]) (pe(i \<mapsto> h)) an"
proof -
  have new: "issued (cs @ [h]) i h" and fresh: "\<And>g. \<not> issued cs i g"
    using assms(2) by (simp_all add: issued_def nth_append)
  have "i \<notin> fst ` set an" using assms(1) fresh unfolding answers_ok_def by force
  with assms(1) new show ?thesis unfolding answers_ok_def by (simp add: issued_append)
qed

lemma calls_inv_members [simp]:
  "calls_inv (e\<lparr>client_user := u\<rparr>) = calls_inv e"
  "calls_inv (e\<lparr>trace := t\<rparr>) = calls_inv e"
  "calls_inv (e\<lparr>client_session := s\<rparr>) = calls_inv e"
  "calls_inv (e\<lparr>client_message_cb := c\<rparr>) = calls_inv e"
  by (simp_all add: calls_inv_def)

lemma calls_inv_more:
  fixes e e' :: "'u client"
  shows "event_loop.more e' = event_loop.more e \<Longrightarrow> calls_inv e \<Longrightarrow> calls_inv e'"
  by (cases e; cases e') (simp add: calls_inv_def)

lemma calls_inv_forget:
  fixes e :: "'u client"
  assumes "calls_inv e" and "\<And>i. pe i = None \<or> pe i = pending e i"
  shows "calls_inv (e\<lparr>pending := pe\<rparr>)"
  using assms(1) answers_ok_forget [OF _ assms(2)] by (simp add: calls_inv_def)

lemma calls_inv_answer:
  fixes e :: "'u client"
  shows "calls_inv e \<Longrightarrow> pending e i = Some (Some n) \<Longrightarrow> msg_id m = i \<Longrightarrow> kind m = Response \<Longrightarrow>
    calls_inv (e\<lparr>pending := (pending e)(i := None), client_user := u, answered := answered e @ [(i, n, m)]\<rparr>)"
  by (simp add: calls_inv_def answers_ok_answer)

lemma calls_inv_call:
  fixes e :: "'u client"
  assumes "calls_inv e" and "i = next_request_id e"
  shows "calls_inv (e\<lparr>next_request_id := i + 1, pending := (pending e)(i \<mapsto> h), calls := calls e @ [h]\<rparr>)"
proof (cases "Suc (Suc (length (calls e))) < 2 ^ 64")
  case True
  then have "unat i = Suc (length (calls e))"
    using assms by (simp only: calls_inv_def unat_of_nat) (simp add: take_bit_nat_eq_self)
  moreover have "answers_ok (calls e) (pending e) (answered e)"
    using True assms(1) by (simp add: calls_inv_def)
  ultimately show ?thesis
    using assms by (simp add: calls_inv_def answers_ok_call)
next
  case False
  then show ?thesis using assms by (simp add: calls_inv_def)
qed

section \<open>What every operation of a client keeps\<close>

text \<open>
  A predicate on the client and the state of the user's closures that survives each change an
  operation makes to them survives every operation, with the closures of the application \<open>A\<close>.
\<close>

locale kept_by_client =
  fixes J :: "'u client \<Rightarrow> bool" and A :: "'u client_app"
  assumes J_more: "event_loop.more e' = event_loop.more e \<Longrightarrow> J e \<Longrightarrow> J e'"
    and J_trace: "J e \<Longrightarrow> J (e\<lparr>trace := t\<rparr>)"
    and J_session: "J e \<Longrightarrow> J (e\<lparr>client_session := sn\<rparr>)"
    and J_install: "J e \<Longrightarrow> J (e\<lparr>client_message_cb := cb\<rparr>)"
    and J_forget: "J e \<Longrightarrow> (\<And>i. pe i = None \<or> pe i = pending e i) \<Longrightarrow> J (e\<lparr>pending := pe\<rparr>)"
    and J_call: "J e \<Longrightarrow> i = next_request_id e \<Longrightarrow>
      J (e\<lparr>next_request_id := i + 1, pending := (pending e)(i \<mapsto> h), calls := calls e @ [h]\<rparr>)"
    and J_answer: "J e \<Longrightarrow> pending e i = Some (Some n) \<Longrightarrow> msg_id m = i \<Longrightarrow> kind m = Response \<Longrightarrow>
      app_response A n (client_user e) m = (u, acts) \<Longrightarrow>
      J (e\<lparr>pending := (pending e)(i := None), client_user := u, answered := answered e @ [(i, n, m)]\<rparr>)"
    and J_push: "J e \<Longrightarrow> app_push A n (client_user e) p m = (u, acts) \<Longrightarrow> J (e\<lparr>client_user := u\<rparr>)"
    and J_written: "J e \<Longrightarrow> J (e\<lparr>client_user := app_written A n (client_user e) err\<rparr>)"

sublocale kept_by_client \<subseteq> loop: kept_by_loop J
  by unfold_locales (auto intro: J_more J_trace)

context kept_by_client
begin

lemma client_on_write_keeps: "keeps J (client_on_write A h err)"
  by (cases h) (auto simp: client_on_write_def keeps_def intro!: J_forget J_written)

lemma call_write_keeps: "keeps J (call_write (client_on_write A) h err)"
  unfolding call_write_def
  by (cases h) (auto intro!: keeps_intros loop.keeps_log_call client_on_write_keeps)

lemma session_send_keeps: "keeps J (session_send (client_on_write A) p m h)"
  unfolding session_send_def Let_def
  by (intro keeps_if call_write_keeps loop.keeps_loop)

lemma client_close_keeps: "keeps J client_close"
  using loop.keeps_loop(3) by (auto simp: keeps_def client_close_def session_close_def split: option.splits)

lemma client_call_async_keeps: "keeps J (client_call_async A opened sv mt pl h)"
proof (rule keepsI)
  fix e :: "'u client"
  let ?i = "next_request_id e"
  let ?e = "e\<lparr>next_request_id := ?i + 1, pending := (pending e)(?i \<mapsto> h), calls := calls e @ [h]\<rparr>"
  assume "J e"
  then have "J ?e" by (rule J_call) simp
  moreover have "keeps J (seq (session_send (client_on_write A) q m w) (ret ?i))" for q m w
    by (intro keeps_intros session_send_keeps)
  ultimately have "J (snd (seq (session_send (client_on_write A) q m w) (ret ?i) ?e))" for q m w
    by (rule keepsD [rotated])
  then show "J (snd (client_call_async A opened sv mt pl h e))"
    using \<open>J e\<close> by (simp add: client_call_async_def Let_def split: option.splits)
qed

lemma client_notify_keeps: "keeps J (client_notify A opened sv mt pl)"
  by (rule keepsI) (simp add: client_notify_def keepsD [OF session_send_keeps] split: option.splits)

lemma perform_client_keeps: "keeps J (perform_client A opened a)"
proof (cases a)
  case (OnSession b)
  then show ?thesis
    by (cases b) (simp_all add: session_send_keeps session_close_def loop.keeps_loop)
qed (auto intro!: keeps_intros client_close_keeps client_call_async_keeps client_notify_keeps)

lemma perform_client_all_keeps: "J e \<Longrightarrow> J (snd (perform_client_all A opened acts e))"
  unfolding perform_client_all_def by (rule keepsD [OF keeps_for_each [OF perform_client_keeps]])

lemma call_push_keeps: "J e \<Longrightarrow> J (snd (call_push A opened p m e))"
  by (auto simp: call_push_def intro!: perform_client_all_keeps J_push split: option.splits prod.splits)

lemma dispatch_message_keeps: "keeps J (dispatch_message A opened p m)"
proof (rule keepsI)
  fix e :: "'u client"
  assume inv: "J e"
  show "J (snd (dispatch_message A opened p m e))"
  proof (cases "kind m = Response \<and> (\<exists>n. pending e (msg_id m) = Some (Some n))")
    case True
    then obtain n where "pending e (msg_id m) = Some (Some n)" "kind m = Response" by blast
    then show ?thesis
      using perform_client_all_keeps [OF J_answer [OF inv]]
      by (simp add: dispatch_message_def take_pending_def call_response_def split: prod.splits)
  next
    case False
    have "J (e\<lparr>pending := (pending e)(msg_id m := None)\<rparr>)" by (rule J_forget [OF inv]) simp
    then show ?thesis
      using False inv call_push_keeps by (auto simp: dispatch_message_def take_pending_def split: option.splits)
  qed
qed

end

sublocale kept_by_client \<subseteq> hooks: kept_by_hooks J "client_hooks A"
proof unfold_locales
  fix h err mh p s m c
  show "keeps J (on_write (client_hooks A) h err)"
    by (simp add: client_hooks_def client_on_write_keeps)
  show "keeps J (on_message (client_hooks A) mh p s m)"
    by (cases mh) (simp_all add: client_hooks_def client_on_message_def dispatch_message_keeps keeps_ret)
  show "keeps J (on_close (client_hooks A) c p s)"
    by (cases c) (auto simp: client_hooks_def client_on_close_def keeps_ret keeps_def intro!: J_forget J_session
        dest: J_forget [where pe = Map.empty])
qed

interpretation calls_kept: kept_by_client calls_inv A for A :: "'u client_app"
  by unfold_locales (auto intro: calls_inv_more calls_inv_forget calls_inv_call calls_inv_answer)

end
