(* ===== verification/Client_Runs.thy ===== *)
theory Client_Runs
  imports Client_Calls
begin

text \<open>
  The client over time: the steps of a process that uses one client on a loop of its own. A step
  is a call of the public interface, from whichever thread and whatever its outcome, a task or an
  event that the loop runs to its end (an exception out of one leaves \<^verbatim>\<open>run\<close>), an answer of the
  kernel on a socket, or a change of the loop's own members.
\<close>

section \<open>Steps\<close>

inductive client_step :: "'u client_app \<Rightarrow> objects \<times> 'u client \<Rightarrow> objects \<times> 'u client \<Rightarrow> bool" for A where
  step_connect: "client_connect resolve as bs host port s = (r, s') \<Longrightarrow> client_step A s s'"
| step_close: "client_close e = (r, e') \<Longrightarrow> client_step A (ob, e) (ob, e')"
| step_call: "client_call_async A (session_open ob) sv mt pl h e = (r, e') \<Longrightarrow> client_step A (ob, e) (ob, e')"
| step_notify: "client_notify A (session_open ob) sv mt pl e = (r, e') \<Longrightarrow> client_step A (ob, e) (ob, e')"
| step_install: "client_step A (ob, e) (ob, client_set_message_handler c e)"
| step_task: "client_run_task A t s = (Inr (), s') \<Longrightarrow> task_ok t \<Longrightarrow> client_step A s s'"
| step_event: "client_run_handler A h ev s = (Inr (), s') \<Longrightarrow> client_step A s s'"
| step_kernel: "heap ob p = Some s \<Longrightarrow>
    client_step A (ob, e) (ob\<lparr>heap := (heap ob)(p \<mapsto> s\<lparr>rx := as, tx := bs\<rparr>)\<rparr>, e)"
| step_loop: "event_loop.more e' = event_loop.more e \<Longrightarrow> handlers e' = handlers e \<Longrightarrow>
    list_all task_ok (tasks e') \<Longrightarrow> client_step A (ob, e) (ob, e')"

abbreviation client_steps :: "'u client_app \<Rightarrow> objects \<times> 'u client \<Rightarrow> objects \<times> 'u client \<Rightarrow> bool" where
  "client_steps A \<equiv> (client_step A)\<^sup>*\<^sup>*"

section \<open>Connecting\<close>

lemma connect_addresses_frame:
  "connect_addresses items le e = (r, e') \<Longrightarrow>
   event_loop.more e' = event_loop.more e \<and> handlers e' = handlers e \<and> tasks e' = tasks e"
proof (induction items le arbitrary: e rule: connect_addresses.induct)
  case (4 fd err items le)
  obtain rc e1 where c: "sys (CloseFd fd) (e\<lparr>cerrno := err\<rparr>) = (Inr rc, e1)" using sys_returns by blast
  then have "connect_addresses items err e1 = (r, e')" using "4.prems" by (simp add: seq_run bind_run)
  with "4.IH" sys_frame [OF c] show ?case by simp
next
  case (2 err items le)
  then show ?case using "2.IH" [of "e\<lparr>cerrno := err\<rparr>"] by (simp add: seq_run)
qed auto

lemma connect_tcp_frame:
  assumes "connect_tcp resolved e = (r, e')"
  shows "event_loop.more e' = event_loop.more e \<and> handlers e' = handlers e \<and> tasks e' = tasks e"
proof (cases resolved)
  case (Inr items)
  obtain r1 e1 where c: "connect_addresses items 0 e = (r1, e1)" by fastforce
  then have "e' = e1" using assms Inr
    by (cases r1) (auto simp: connect_tcp_def bind_run split: prod.splits if_splits)
  then show ?thesis using connect_addresses_frame [OF c] by simp
qed (use assms in \<open>auto simp: connect_tcp_def\<close>)

lemma session_start_outcome:
  assumes "session_start p (s, e) = (r, (s', e'))"
  shows "tasks e' = tasks e \<and> event_loop.more e' = event_loop.more e \<and>
    (s' = s\<lparr>registered := True\<rparr> \<and> handlers e' = (handlers e)(socket_fd s \<mapsto> SessionEvents p) \<or>
     s' = s \<and> (\<exists>ex. r = Inl ex) \<and> (handlers e' = handlers e \<or> handlers e' = (handlers e)(socket_fd s := None)))"
proof -
  obtain r1 e1 where n: "set_non_blocking (socket_fd s) e = (r1, e1)" by fastforce
  obtain r2 e2 where a: "loop_add (socket_fd s) (EPOLLIN OR EPOLLRDHUP) (SessionEvents p) e1 = (r2, e2)" by fastforce
  note f = set_non_blocking_frame(1,2,7) [OF n] and g = loop_add_frame(1,2,8) [OF a]
  show ?thesis
  proof (cases r1)
    case (Inl ex)
    then show ?thesis using assms n f by (auto simp: session_start_def seq_run on_snd_run)
  next
    case (Inr u)
    then show ?thesis using assms n a f g
      by (cases r2) (auto simp: session_start_def seq_run on_snd_run)
  qed
qed

lemma client_connect_cases:
  assumes "client_connect resolve as bs host port (ob, e) = (r, (ob', e'))"
  obtains (already) "connected (session_open ob) e" "ob' = ob" "e' = e" "r = Inr ()"
  | (refused) ex where "\<not> connected (session_open ob) e" "connect_tcp (resolve host port) e = (Inl ex, e')" "ob' = ob" "r = Inl ex"
  | (made) fd e1 s' where "\<not> connected (session_open ob) e" "connect_tcp (resolve host port) e = (Inr fd, e1)"
      "session_start (next_ptr ob) (connected_session fd (next_id ob) as bs, e1\<lparr>client_session := Some (next_ptr ob)\<rparr>) = (r, (s', e'))"
      "ob' = ob\<lparr>next_ptr := Suc (next_ptr ob), next_id := next_id ob + 1, heap := (heap ob)(next_ptr ob \<mapsto> s')\<rparr>"
proof (cases "connected (session_open ob) e")
  case True
  then show thesis using already assms by (simp add: client_connect_def)
next
  case False
  obtain r1 e1 where c: "connect_tcp (resolve host port) e = (r1, e1)" by fastforce
  show thesis
  proof (cases r1)
    case (Inl ex)
    then show thesis using refused assms False c by (simp add: client_connect_def bind_run on_snd_run)
  next
    case (Inr fd)
    then show thesis
      using made assms False c
      by (auto simp: client_connect_def bind_run on_snd_run make_session_def with_session_def split: prod.splits)
  qed
qed

section \<open>The table of calls\<close>

context kept_by_client
begin

lemma client_connect_keeps: "keeps (\<lambda>(ob, e). J e) (client_connect resolve as bs host port)"
proof (rule keeps_pairI)
  fix ob :: objects and e :: "'u client"
  assume inv: "J e"
  obtain r ob' e' where c: "client_connect resolve as bs host port (ob, e) = (r, (ob', e'))" by (rule prod_cases3)
  then have "J e'"
  proof (cases rule: client_connect_cases)
    case already
    then show ?thesis using inv by simp
  next
    case (refused ex)
    then show ?thesis using connect_tcp_frame inv J_more by blast
  next
    case (made fd e1 s')
    have "J e1" using connect_tcp_frame [OF made(2)] inv J_more by blast
    then have "J (e1\<lparr>client_session := Some (next_ptr ob)\<rparr>)" by (rule J_session)
    then show ?thesis using session_start_outcome [OF made(3)] J_more by blast
  qed
  then show "J (snd (snd (client_connect resolve as bs host port (ob, e))))" using c by simp
qed

lemma client_step_keeps: "client_step A s s' \<Longrightarrow> J (snd s) \<Longrightarrow> J (snd s')"
proof (induction rule: client_step.induct)
  case (step_connect resolve as bs host port s r s')
  then show ?case using keeps_run [OF client_connect_keeps] by (fastforce simp: case_prod_beta)
next
  case (step_close e r e' ob)
  then show ?case using keeps_run [OF client_close_keeps] by auto
next
  case (step_call ob sv mt pl h e r e')
  then show ?case using keeps_run [OF client_call_async_keeps] by auto
next
  case (step_notify ob sv mt pl e r e')
  then show ?case using keeps_run [OF client_notify_keeps] by auto
next
  case (step_task t s s')
  have "keeps (beside J) (client_run_task A t)"
    by (simp add: client_run_task_def hooks.keeps_run_task)
  then show ?case using step_task keeps_run by (fastforce simp: case_prod_beta)
next
  case (step_event h ev s s')
  have "keeps (beside J) (client_run_handler A h ev)"
    by (cases h) (simp_all add: keeps_on_snd loop.keeps_loop keeps_ret
        hooks.keeps_with_session hooks.keeps_handle_events)
  then show ?case using step_event keeps_run by (fastforce simp: case_prod_beta)
next
  case (step_loop e' e ob)
  then show ?case using J_more by auto
qed (auto simp: client_set_message_handler_def intro: J_install)

lemma client_steps_keep: "client_steps A s s' \<Longrightarrow> J (snd s) \<Longrightarrow> J (snd s')"
  by (induction rule: rtranclp_induct) (auto intro: client_step_keeps)

end

lemma client_steps_calls: "client_steps A s s' \<Longrightarrow> calls_inv (snd s) \<Longrightarrow> calls_inv (snd s')"
  by (rule calls_kept.client_steps_keep)

lemma client_init_calls: "calls_inv (client_init e u)"
  by (simp add: calls_inv_def client_init_def env.extend_def answers_ok_def)

section \<open>One open session\<close>

text \<open>The client points to a session exactly while that session is open; no other one is.\<close>

definition client_inv :: "objects \<Rightarrow> 'u client \<Rightarrow> bool" where
  "client_inv ob e \<longleftrightarrow>
     (\<forall>p s. heap ob p = Some s \<longrightarrow> p < next_ptr ob \<and> queue_ok s \<and> close_cb s = Some ResetClient \<and>
        msg_handler s = Some DispatchMessage \<and> (is_open s \<longleftrightarrow> client_session e = Some p)) \<and>
     (\<forall>p. client_session e = Some p \<longrightarrow> heap ob p \<noteq> None) \<and>
     table_inv ob (handlers e) \<and> list_all task_ok (tasks e)"

lemma client_inv_queues: "client_inv ob e \<Longrightarrow> queues_ok ob"
  by (auto simp: client_inv_def queues_ok_def)

lemma client_inv_session: "client_inv ob e \<Longrightarrow> client_session e = Some p \<Longrightarrow> session_open ob p"
  by (auto simp: client_inv_def session_open_def)

lemma client_inv_env:
  "client_inv ob e \<Longrightarrow> handlers e' = handlers e \<Longrightarrow> client_session e' = client_session e \<Longrightarrow>
   list_all task_ok (tasks e') \<Longrightarrow> client_inv ob e'"
  by (simp add: client_inv_def)

lemma client_inv_polite: "client_inv ob e \<Longrightarrow> behaves e r e' \<Longrightarrow> client_inv ob e'"
  by (auto simp: behaves_def posts_only_def posted_def intro: client_inv_env simp: client_inv_def)

lemma client_inv_frames:
  assumes "client_inv ob e" "heap ob p = Some s" "op_frame client_session reset_session p s e s' e'"
  shows "client_inv (ob\<lparr>heap := (heap ob)(p \<mapsto> s')\<rparr>) e'"
proof -
  have s: "close_cb s = Some ResetClient" "is_open s \<longleftrightarrow> client_session e = Some p"
    using assms(1,2) by (simp_all add: client_inv_def)
  have view: "client_session e' = (if is_open s \<and> \<not> is_open s' then None else client_session e)"
    and closes: "is_open s' \<Longrightarrow> is_open s" and s': "close_cb s' = close_cb s" "msg_handler s' = msg_handler s"
    and tasks: "posted e e'" and q: "queue_ok s'"
    using assms s(1) by (auto simp: op_frame_def forgotten_def reset_session_def client_inv_def split: if_splits)
  have "table_inv (ob\<lparr>heap := (heap ob)(p \<mapsto> s')\<rparr>) (handlers e')"
    using table_inv_update [OF _ assms(2,3)] assms(1) by (simp add: client_inv_def)
  moreover have "list_all task_ok (tasks e')" using tasks assms(1) by (auto simp: posted_def client_inv_def)
  ultimately show ?thesis
    using assms(1,2) s view closes s' q by (auto simp: client_inv_def)
qed

lemma client_connect_inv:
  assumes "client_inv ob e" "client_connect resolve as bs host port (ob, e) = (r, (ob', e'))"
  shows "client_inv ob' e'"
  using assms(2)
proof (cases rule: client_connect_cases)
  case already
  then show ?thesis using assms(1) by simp
next
  case (refused ex)
  then show ?thesis
    using connect_tcp_frame [OF refused(2)] assms(1) client_view_more [of e' e]
    by (intro client_inv_env [OF assms(1), of e', folded refused(3)]) (simp_all add: client_inv_def)
next
  case (made fd e1 s')
  note c = connect_tcp_frame [OF made(2)] and o = session_start_outcome [OF made(3)]
  let ?p = "next_ptr ob"
  have none: "client_session e = None"
    using made(1) client_inv_session [OF assms(1)] by (cases "client_session e") (auto simp: connected_def)
  then have shut: "\<And>p s. heap ob p = Some s \<Longrightarrow> \<not> is_open s \<and> p < ?p"
    using assms(1) by (auto simp: client_inv_def)
  have s': "queue_ok s'" "close_cb s' = Some ResetClient" "msg_handler s' = Some DispatchMessage" "is_open s'"
    "socket_fd s' = fd"
    using o by (auto simp: connected_session_def set_close_handler_def set_message_handler_def new_session_def queue_ok_def)
  have view: "client_session e' = Some ?p" using o client_view_more [of e'] by fastforce
  have "table_inv ob (handlers e)" using assms(1) by (simp add: client_inv_def)
  then have old: "handlers e fd' \<noteq> Some (SessionEvents q)" for fd' q
    using shut by (auto simp: table_inv_def)
  have "socket_fd (connected_session fd (next_id ob) as bs) = fd"
    by (simp add: connected_session_def set_close_handler_def set_message_handler_def new_session_def)
  then have "q = ?p \<and> fd' = fd \<and> registered s'" if "handlers e' fd' = Some (SessionEvents q)" for fd' q
    using that o c old by (auto split: if_splits)
  then have "table_inv ob' (handlers e')"
    using made(4) s'(4,5) by (auto simp: table_inv_def)
  moreover have "list_all task_ok (tasks e')" using o c assms(1) by (simp add: client_inv_def)
  ultimately show ?thesis
    using assms(1) made(4) s' view none by (auto simp: client_inv_def dest: shut)
qed

lemma client_run_task_inv:
  assumes "client_inv ob e" "task_ok t" "client_run_task A t (ob, e) = (Inr (), (ob', e'))"
  shows "client_inv ob' e'"
  using assms(3) [unfolded client_run_task_def] assms(2) client_inv_queues [OF assms(1)]
  by (cases rule: cli.run_task_frames) (use assms(1) client_inv_frames in auto)

lemma client_run_handler_inv:
  assumes "client_inv ob e" "client_run_handler A h ev (ob, e) = (Inr (), (ob', e'))"
  shows "client_inv ob' e'"
proof (cases h)
  case DrainWakeup
  then have d: "drain_wakeup e = (Inr (), e')" and "ob' = ob"
    using assms(2) by (auto simp: on_snd_run split: prod.splits)
  note f = drain_wakeup_frame [OF d]
  have "client_inv ob e'"
    by (rule client_inv_env [OF assms(1) f(2) client_view_more [OF f(5)]])
       (use assms(1) f(3) in \<open>simp add: client_inv_def\<close>)
  then show ?thesis using \<open>ob' = ob\<close> by simp
next
  case (SessionEvents p)
  then have "with_session p (handle_events (client_hooks A) p ev) (ob, e) = (Inr (), (ob', e'))"
    using assms(2) by simp
  from this client_inv_queues [OF assms(1)] show ?thesis
    by (cases rule: cli.session_events_frames) (use assms(1) client_inv_frames in auto)
next
  case AcceptEvents
  then show ?thesis using assms by simp
qed

lemma client_step_inv: "client_step A s s' \<Longrightarrow> case s of (ob, e) \<Rightarrow> client_inv ob e \<Longrightarrow> case s' of (ob, e) \<Rightarrow> client_inv ob e"
proof (induction rule: client_step.induct)
  case (step_connect resolve as bs host port s r s')
  then show ?case using client_connect_inv by (cases s; cases s') auto
next
  case (step_close e r e' ob)
  then show ?case by (auto intro: client_inv_polite [OF _ polite_run [OF polite_close]])
next
  case (step_call ob sv mt pl h e r e')
  then show ?case by (auto intro: client_inv_polite [OF _ polite_run [OF polite_call_async]])
next
  case (step_notify ob sv mt pl e r e')
  then show ?case by (auto intro: client_inv_polite [OF _ polite_run [OF polite_notify]])
next
  case (step_install ob e c)
  then show ?case by (simp add: client_set_message_handler_def client_inv_def)
next
  case (step_task t s s')
  then show ?case using client_run_task_inv by (cases s; cases s') auto
next
  case (step_event h ev s s')
  then show ?case using client_run_handler_inv by (cases s; cases s') auto
next
  case (step_kernel ob p s e as bs)
  then show ?case by (fastforce simp: client_inv_def queue_ok_def table_inv_def)
next
  case (step_loop e' e ob)
  then show ?case using client_view_more [of e' e] by (auto intro: client_inv_env)
qed

lemma client_steps_inv: "client_steps A (ob, e) (ob', e') \<Longrightarrow> client_inv ob e \<Longrightarrow> client_inv ob' e'"
  by (induction rule: rtranclp_induct2) (use client_step_inv in fastforce)+

lemma client_init_inv:
  assumes "\<forall>fd p. handlers e fd \<noteq> Some (SessionEvents p)" and "tasks e = []"
  shows "client_inv no_objects (client_init e u)"
  using assms by (simp add: client_inv_def client_init_def env.extend_def no_objects_def table_inv_def)

end
