(* ===== verification/Client_Properties.thy ===== *)
theory Client_Properties
  imports Client_Runs Server_Properties
begin

text \<open>
  The properties of the client, each with a witness on a small run: a client whose server listens
  behind one address, connected on descriptor 7, with one call outstanding.
\<close>

section \<open>A small client\<close>

definition quiet_app :: "unit client_app" where
  "quiet_app = \<lparr>app_response = \<lambda>n u m. (u, []), app_push = \<lambda>n u p m. (u, []), app_written = \<lambda>n u err. u\<rparr>"

definition test_client :: "unit client" where
  "test_client = client_init (test_loop\<lparr>handlers := [4 \<mapsto> DrainWakeup]\<rparr>) ()"

definition test_connect :: "(objects \<times> unit client, unit) eff" where
  "test_connect = client_connect (\<lambda>h n. Inr [ConnectFails 6 111, Connects 7]) [] [] [] 5555"

definition test_connected :: "objects \<times> unit client" where
  "test_connected = snd (test_connect (no_objects, test_client))"

definition test_called :: "unit client" where
  "test_called = snd (client_call_async quiet_app (\<lambda>q. q = 0) [1] [2] [3] (Some 5) (snd test_connected))"

definition test_response :: rpc_message where
  "test_response = empty_message\<lparr>msg_id := 1, kind := Response\<rparr>"

lemmas client_eval = client_init_def test_loop_def env.extend_def no_objects_def quiet_app_def
  test_client_def test_connect_def test_connected_def test_called_def client_connect_def connect_tcp_def
  connected_def session_open_def connected_session_def client_call_async_def client_notify_def
  call_message_of_def notify_message_of_def Let_def

lemma sendable_response: "sendable test_response"
  using length_encode [of test_response]
  by (simp add: sendable_def test_response_def empty_message_def unat_kMaxFrameSize)

lemma sendable_call: "sendable (call_message_of i [1] [2] [3])"
  using length_encode [of "call_message_of i [1] [2] [3]"]
  by (simp add: sendable_def call_message_of_def empty_message_def unat_kMaxFrameSize)

lemma test_connected_run:
  "test_connect (no_objects, test_client) = (Inr (), test_connected)"
  "client_session (snd test_connected) = Some 0" "pending (snd test_connected) = Map.empty"
  "next_request_id (snd test_connected) = 1" "answers (snd test_connected) = []" "tasks (snd test_connected) = []"
  "heap (fst test_connected) 0 = Some ((connected_session 7 1 [] [])\<lparr>registered := True\<rparr>)"
  "answered (snd test_connected) = []"
  by (simp_all add: client_eval session_eval loop_eval)

section \<open>Connecting\<close>

fun failed_sockets :: "address_answer list \<Rightarrow> fd list" where
  "failed_sockets [] = []"
| "failed_sockets (ConnectFails fd err # items) = fd # failed_sockets items"
| "failed_sockets (_ # items) = failed_sockets items"

fun address_error :: "address_answer \<Rightarrow> errno option" where
  "address_error (SocketFails err) = Some err"
| "address_error (ConnectFails fd err) = Some err"
| "address_error (Connects fd) = None"

lemma connect_addresses_run:
  assumes "list_all (\<lambda>a. address_error a \<noteq> None) items"
  shows "\<exists>e'. connect_addresses (items @ rest) le e
      = connect_addresses rest (if items = [] then le else the (address_error (last items))) e' \<and>
    syscalls e' = syscalls e @ map CloseFd (failed_sockets items)"
  using assms
proof (induction items arbitrary: le e)
  case (Cons a items)
  show ?case
  proof (cases a)
    case (SocketFails err)
    with Cons.IH [of err "e\<lparr>cerrno := err\<rparr>"] Cons.prems show ?thesis by (auto simp: seq_run)
  next
    case (ConnectFails fd err)
    obtain rc e1 where c: "sys (CloseFd fd) (e\<lparr>cerrno := err\<rparr>) = (Inr rc, e1)" using sys_returns by blast
    with Cons.IH [of err e1] Cons.prems ConnectFails sys_frame(7) [OF c] show ?thesis
      by (auto simp: seq_run bind_run)
  next
    case (Connects fd)
    then show ?thesis using Cons.prems by simp
  qed
qed auto

text \<open>
  Connecting takes the first address that accepts, in the order of getaddrinfo, whatever
  failed before it, and closes exactly the sockets that failed to connect; later addresses are
  not tried.
\<close>

lemma connect_takes_first:
  assumes "list_all (\<lambda>a. address_error a \<noteq> None) items" and "fd \<noteq> -1"
  shows "\<exists>e'. connect_tcp (Inr (items @ Connects fd # rest)) e = (Inr fd, e') \<and>
    syscalls e' = syscalls e @ map CloseFd (failed_sockets items)"
proof -
  obtain e' le where "connect_addresses (items @ Connects fd # rest) 0 e = (Inr (fd, le), e')"
    "syscalls e' = syscalls e @ map CloseFd (failed_sockets items)"
    using connect_addresses_run [OF assms(1), of "Connects fd # rest" 0 e] by auto
  then show ?thesis using assms(2) by (simp add: connect_tcp_def bind_run)
qed

text \<open>
  When no address accepts, the exception carries the error of the last address tried, and
  every socket that was opened is closed.
\<close>

lemma connect_reports_last_error:
  assumes "list_all (\<lambda>a. address_error a \<noteq> None) items" and "items \<noteq> []"
    and "address_error (last items) = Some err" and "err \<noteq> 0"
  shows "\<exists>e'. connect_tcp (Inr items) e = (Inl (SystemError err ''connect''), e') \<and>
    syscalls e' = syscalls e @ map CloseFd (failed_sockets items)"
proof -
  obtain e' where "connect_addresses items 0 e = (Inr (-1, err), e')"
    "syscalls e' = syscalls e @ map CloseFd (failed_sockets items)"
    using connect_addresses_run [OF assms(1), of "[]" 0 e] assms(2,3) by auto
  then show ?thesis using assms(4) by (simp add: connect_tcp_def bind_run)
qed

text \<open>
  A connection whose registration fails leaves the client connected: the exception leaves
  \<^verbatim>\<open>connect\<close>, but \<^verbatim>\<open>connected()\<close> is true from then on, so a second \<^verbatim>\<open>connect\<close> does nothing
  and calls are accepted, though no handler will ever read a response or notice the end.
\<close>

lemma failed_connect_stays_connected:
  assumes "client_session e = None" and "resolve name n = Inr [Connects fd]" and "fd \<noteq> -1"
    and "answers e = 0 # 0 # err # as" and "err \<noteq> 0"
  shows "\<exists>ob' e'. client_connect resolve rs bs name n (ob, e) = (Inl (SystemError err ''epoll_ctl(ADD)''), (ob', e')) \<and>
    connected (session_open ob') e' \<and> handlers e' fd = None \<and>
    client_connect resolve2 rs2 bs2 name2 n2 (ob', e') = (Inr (), (ob', e'))"
  using assms
  by (simp add: client_connect_def connected_def connect_tcp_def connected_session_def session_open_def
      session_eval loop_eval)

section \<open>Calls\<close>

text \<open>
  A call on a connected client, when the loop can be woken: its handler is in the table under
  a fresh id before the request is posted, and exactly the frame of that request is posted.
\<close>

lemma call_async_posts:
  assumes "client_session e = Some p" and "opened p" and "answers e = []"
    and "length (encode (call_message_of (next_request_id e) sv mt pl)) \<le> unat kMaxFrameSize"
  shows "\<exists>e'. client_call_async A opened sv mt pl h e = (Inr (next_request_id e), e') \<and>
    next_request_id e' = next_request_id e + 1 \<and> pending e' = (pending e)(next_request_id e \<mapsto> h) \<and>
    tasks e' = tasks e @ [SendTask p (make_frame (encode (call_message_of (next_request_id e) sv mt pl)))
      (Some (ErasePending (next_request_id e)))]"
  using assms by (simp add: client_call_async_def session_send_def loop_eval Let_def)

text \<open>
  A call whose request is larger than a frame may be returns an id like any other, but nothing
  is sent and its handler is dropped: the caller is never told.
\<close>

lemma oversized_call_is_silent:
  assumes "client_session e = Some p" and "opened p"
    and "length (encode (call_message_of (next_request_id e) sv mt pl)) > unat kMaxFrameSize"
  shows "\<exists>e'. client_call_async A opened sv mt pl h e = (Inr (next_request_id e), e') \<and>
    pending e' (next_request_id e) = None \<and> tasks e' = tasks e \<and> answered e' = answered e"
  using assms
  by (simp add: client_call_async_def session_send_def call_write_def log_call_def client_on_write_def seq_run Let_def)

text \<open>
  Calls on a client that is not connected are refused with an exception and leave no trace:
  no id is used up, no handler stored, nothing posted.
\<close>

lemma unconnected_calls_throw:
  assumes "\<not> connected opened e"
  shows "client_call_async A opened sv mt pl h e = (Inl (RuntimeError ''RpcClient is not connected''), e) \<and>
    client_notify A opened sv mt pl e = (Inl (RuntimeError ''RpcClient is not connected''), e)"
  using assms by (auto simp: connected_def client_call_async_def client_notify_def split: option.splits)

section \<open>Responses\<close>

text \<open>
  C2. Over every interleaving of calls, notifications, connections and closes from any thread with
  what the loop runs: a response handler is called at most once per call, with a response that
  carries the id of its own call; a call that still waits has not been answered. The bound is that
  fewer than \<open>2 ^ 64 - 1\<close> calls were made.
\<close>

theorem responses_answer_calls_once:
  assumes "client_steps A (ob, client_init e0 u) (ob', e)" and "Suc (length (calls e)) < 2 ^ 64"
  shows "distinct (map fst (answered e)) \<and>
    (\<forall>i n m. (i, n, m) \<in> set (answered e) \<longrightarrow> msg_id m = i \<and> kind m = Response \<and> issued (calls e) i (Some n)) \<and>
    (\<forall>i h. pending e i = Some h \<longrightarrow> issued (calls e) i h \<and> i \<notin> fst ` set (answered e))"
proof -
  have "calls_inv e" using client_steps_calls [OF assms(1)] client_init_calls [of e0 u] by simp
  then show ?thesis using assms(2) by (simp add: calls_inv_def answers_ok_def)
qed

lemma test_called_run:
  "client_call_async quiet_app (\<lambda>q. q = 0) [1] [2] [3] (Some 5) (snd test_connected) = (Inr 1, test_called)"
  "client_session test_called = Some 0" "pending test_called = [1 \<mapsto> Some 5]" "answered test_called = []"
  "calls test_called = [Some 5]" "handlers test_called = handlers (snd test_connected)"
proof -
  have len: "length (encode (call_message_of 1 [1] [2] [3])) \<le> unat kMaxFrameSize"
    using sendable_call by (simp add: sendable_def)
  have "calls (snd test_connected) = []" by (simp add: client_eval session_eval loop_eval)
  then show "client_call_async quiet_app (\<lambda>q. q = 0) [1] [2] [3] (Some 5) (snd test_connected) = (Inr 1, test_called)"
    "client_session test_called = Some 0" "pending test_called = [1 \<mapsto> Some 5]" "answered test_called = []"
    "calls test_called = [Some 5]" "handlers test_called = handlers (snd test_connected)"
    using len test_connected_run(2,3,4,5,6,8)
    by (simp_all add: test_called_def client_call_async_def session_send_def loop_eval Let_def)
qed

lemma test_called_steps: "client_steps quiet_app (no_objects, test_client) (fst test_connected, test_called)"
proof -
  have 1: "client_step quiet_app (no_objects, test_client) (fst test_connected, snd test_connected)"
    using test_connected_run(1) unfolding test_connect_def by (intro step_connect) simp
  have "session_open (fst test_connected) = (\<lambda>q. q = 0)"
    by (rule ext) (simp add: client_eval session_eval loop_eval)
  then have 2: "client_step quiet_app (fst test_connected, snd test_connected) (fst test_connected, test_called)"
    using test_called_run(1) by (intro step_call [of quiet_app _ "[1]" "[2]" "[3]" "Some 5" _ "Inr 1"]) simp
  from 1 2 show ?thesis by simp
qed

theorem responses_answer_calls_once_witness:
  "distinct (map fst (answered test_called)) \<and> issued (calls test_called) 1 (Some 5)"
  using responses_answer_calls_once [OF test_called_steps [unfolded test_client_def]]
  by (simp add: test_called_run)

lemma client_receives:
  assumes "is_open s" "read_buffer s = []" "msg_handler s = Some DispatchMessage" "sendable m"
    and "kind m = Response" and "pending e (msg_id m) = Some (Some n)"
    and "app_response A n (client_user e) m = (u, [])"
  shows "\<exists>e'. async_read (client_hooks A) p (s\<lparr>rx := [RecvBytes (make_frame (encode m)), RecvError EAGAIN]\<rparr>, e)
      = (Inr (), (s\<lparr>rx := []\<rparr>, e')) \<and>
    pending e' = (pending e)(msg_id m := None) \<and> answered e' = answered e @ [(msg_id m, n, m)] \<and> client_user e' = u"
proof -
  let ?e = "e\<lparr>cerrno := EAGAIN, trace := trace e @ [MessageCalled p m]\<rparr>"
  let ?e' = "?e\<lparr>pending := (pending e)(msg_id m := None), client_user := u, answered := answered e @ [(msg_id m, n, m)]\<rparr>"
  have "on_message (client_hooks A) DispatchMessage p (s\<lparr>rx := []\<rparr>) m ?e = (Inr (), ?e')"
    using assms(5-7)
    by (simp add: client_hooks_def client_on_message_def dispatch_message_def take_pending_def
        call_response_def perform_client_all_def)
  from read_one_message [OF assms(1-4) this] show ?thesis by simp
qed

text \<open>
  A response that arrives for a call that waits is handed to that call's handler and to no
  one else: the entry is gone, the handler has been called once with exactly the message that the
  server encoded.
\<close>

lemma response_reaches_caller:
  assumes "is_open s" "read_buffer s = []" "msg_handler s = Some DispatchMessage" "sendable m"
    and "kind m = Response" and "pending e (msg_id m) = Some (Some n)"
    and "app_response A n (client_user e) m = (u, [])"
  shows "\<exists>e'. async_read (client_hooks A) p (s\<lparr>rx := [RecvBytes (make_frame (encode m)), RecvError EAGAIN]\<rparr>, e)
      = (Inr (), (s\<lparr>rx := []\<rparr>, e')) \<and>
    pending e' = (pending e)(msg_id m := None) \<and> answered e' = answered e @ [(msg_id m, n, m)] \<and> client_user e' = u"
  by (rule client_receives [OF assms])

section \<open>The session of the client\<close>

text \<open>
  C13. Over every interleaving, the client points to a session exactly while that session is open,
  it never has two open sessions, and a handler of its loop that belongs to a session belongs to
  that one, registered on its descriptor.
\<close>

theorem client_has_one_session:
  assumes "client_steps A (no_objects, client_init e0 u) (ob, e)"
    and "\<forall>fd p. handlers e0 fd \<noteq> Some (SessionEvents p)" and "tasks e0 = []"
  shows "(client_session e = Some p \<longleftrightarrow> (\<exists>s. heap ob p = Some s \<and> is_open s)) \<and>
    (handlers e fd = Some (SessionEvents q) \<longrightarrow>
       (\<exists>s. client_session e = Some q \<and> heap ob q = Some s \<and> is_open s \<and> registered s \<and> socket_fd s = fd))"
proof -
  have "client_inv ob e" by (rule client_steps_inv [OF assms(1) client_init_inv [OF assms(2,3)]])
  then show ?thesis by (fastforce simp: client_inv_def table_inv_def)
qed

theorem client_has_one_session_witness:
  "client_session test_called = Some 0 \<longleftrightarrow> (\<exists>s. heap (fst test_connected) 0 = Some s \<and> is_open s)"
  by (rule client_has_one_session [OF test_called_steps [unfolded test_client_def], THEN conjunct1])
     (simp_all add: test_loop_def)

text \<open>
  A handler sees the connection as it is: what \<open>connected\<close> shows inside a handler of the open
  session is what it shows outside.
\<close>

lemma handler_sees_connection:
  assumes "client_inv (ob\<lparr>heap := (heap ob)(p \<mapsto> s)\<rparr>) e" and "is_open s"
  shows "connected (\<lambda>q. q = p \<and> is_open s) e = connected (session_open (ob\<lparr>heap := (heap ob)(p \<mapsto> s)\<rparr>)) e"
proof -
  have "heap (ob\<lparr>heap := (heap ob)(p \<mapsto> s)\<rparr>) p = Some s" by simp
  with assms have "client_session e = Some p" unfolding client_inv_def by blast
  then show ?thesis using assms(2) by (simp add: connected_def session_open_def)
qed

section \<open>Failures\<close>

interpretation answers_kept: kept_by_closing "\<lambda>e. answered e = an \<and> calls e = cs" "client_hooks A"
  for A :: "'u client_app" and an cs
proof unfold_locales
  fix e e' :: "'u client" and t h err c p s
  show "event_loop.more e' = event_loop.more e \<Longrightarrow> answered e = an \<and> calls e = cs \<Longrightarrow> answered e' = an \<and> calls e' = cs"
    by (cases e; cases e') simp
  show "answered e = an \<and> calls e = cs \<Longrightarrow> answered (e\<lparr>trace := t\<rparr>) = an \<and> calls (e\<lparr>trace := t\<rparr>) = cs" by simp
  show "keeps (\<lambda>e :: 'u client. answered e = an \<and> calls e = cs) (on_write (client_hooks A) h err)"
    by (cases h) (auto simp: keeps_def client_hooks_def client_on_write_def)
  show "keeps (\<lambda>e :: 'u client. answered e = an \<and> calls e = cs) (on_close (client_hooks A) c p s)"
    by (cases c) (auto simp: keeps_def client_hooks_def client_on_close_def)
qed

text \<open>The close handler is the last thing that runs when a session closes.\<close>

lemma close_clears_pending:
  assumes "is_open s" and "close_cb s = Some ResetClient"
    and "close_from_loop (client_hooks A) p (s, e) = (Inr (), (s', e'))"
  shows "pending e' = Map.empty"
proof -
  let ?s = "s\<lparr>is_open := False, socket_fd := -1\<rparr>"
  obtain e1 where 1: "unregister (socket_fd s) (?s, e) = (Inr (), (?s\<lparr>registered := False\<rparr>, e1))"
    by (rule cli.unregister_run)
  obtain e2 where 2: "close_socket (socket_fd s) (?s\<lparr>registered := False\<rparr>, e1) = (Inr (), (?s\<lparr>registered := False\<rparr>, e2))"
    by (rule cli.close_socket_run)
  obtain e3 where 3: "flush_queue (client_hooks A) ENOTCONN (?s\<lparr>registered := False\<rparr>, e2)
      = (Inr (), (?s\<lparr>registered := False\<rparr>\<lparr>write_queue := []\<rparr>, e3))"
    by (rule cli.flush_queue_run)
  show ?thesis
    using assms 1 2 3
    by (simp add: close_from_loop_def Let_def on_snd_run call_close_def log_call_def client_hooks_def client_on_close_def)
       (auto simp: client_hooks_def)
qed

text \<open>
  When the session of the client closes, for whatever reason, the client forgets it and every
  call that still waits; no handler of such a call is ever called, with an error or otherwise.
\<close>

lemma close_drops_calls:
  assumes "client_inv ob e" and "client_session e = Some p"
    and "client_run_task A (CloseTask p) (ob, e) = (Inr (), (ob', e'))"
  shows "client_session e' = None \<and> pending e' = Map.empty \<and> answered e' = answered e \<and> \<not> session_open ob' p"
proof -
  obtain s where s: "heap ob p = Some s" "is_open s" "close_cb s = Some ResetClient"
    using assms(1,2) by (fastforce simp: client_inv_def)
  have "with_session p (close_from_loop (client_hooks A) p) (ob, e) = (Inr (), (ob', e'))"
    using assms(3) by (simp add: client_run_task_def)
  then obtain s' where run: "close_from_loop (client_hooks A) p (s, e) = (Inr (), (s', e'))"
    and ob': "ob' = ob\<lparr>heap := (heap ob)(p \<mapsto> s')\<rparr>"
    using s(1) by (cases rule: with_session_cases) auto
  have "\<not> is_open s'"
    using run cli.close_from_loop_run [OF s(2), of A p e] by (metis Pair_inject closed_simps(1))
  moreover have "client_session e' = None"
    using cli.close_from_loop_frames [OF run] s(2,3) calculation
    by (simp add: op_frame_def forgotten_def reset_session_def)
  moreover have "answered e' = answered e"
    using keeps_pair_run [OF answers_kept.keeps_close_from_loop run, of "answered e" "calls e"] by simp
  ultimately show ?thesis
    using close_clears_pending [OF s(2,3) run] ob' by (simp add: session_open_def)
qed

lemma test_called_inv: "client_inv (fst test_connected) test_called"
  by (rule client_steps_inv [OF test_called_steps])
     (simp add: test_client_def test_loop_def client_init_inv)

text \<open>
  When the queue of the client's session is given up with an error, exactly the calls whose
  frames were queued are taken out of the table; frames without a handler and calls that have
  been sent are left alone.
\<close>

lemma failed_frames_forget_calls:
  assumes "err \<noteq> 0" and "flush_queue (client_hooks A) err (s, e) = (Inr (), (s', e'))"
  shows "pending e' i = (if Some (ErasePending i) \<in> set (queued_cbs s) then None else pending e i)"
  using assms(2)
proof (induction "write_queue s" arbitrary: s e)
  case Nil
  then show ?case by (simp add: flush_queue.simps [of _ err s e])
next
  case (Cons f q)
  let ?s = "s\<lparr>write_queue := q\<rparr>"
  obtain e1 where w: "call_write (client_on_write A) (write_cb f) err e = (Inr (), e1)"
    and e1: "pending e1 i = (if write_cb f = Some (ErasePending i) then None else pending e i)"
    using assms(1)
    by (cases "write_cb f"; cases "the (write_cb f)")
       (auto simp: call_write_def log_call_def client_on_write_def)
  then have "flush_queue (client_hooks A) err (?s, e1) = (Inr (), (s', e'))"
    using Cons.prems Cons.hyps(2) [symmetric]
    by (simp add: flush_queue.simps [of _ err s e] Let_def) (simp add: client_hooks_def)
  from Cons.hyps(1) [OF _ this] e1 Cons.hyps(2) [symmetric] show ?case by auto
qed

text \<open>As on the server's side, every task that is queued while the loop waits has woken it.\<close>

lemma client_no_lost_wakeup:
  assumes "EBADF \<notin> set (answers e)" and "drain_tasks (client_run_task A) (ob, e) = (Inr (), (ob', e'))"
    and "tasks e' \<noteq> []"
  shows "0 < event_counter e'"
  using cli_loop.drain_tasks_wakes [OF assms(1,2)] assms(3) by (simp add: wake_inv_def)

end
