(* ===== verification/Demo_Client.thy ===== *)
theory Demo_Client
  imports Demo_Server Client_Properties
begin

text \<open>
  \<^verbatim>\<open>examples/client_main.cpp\<close>: a client that announces itself, makes three calls and ends when
  all are answered. Its closures are a \<open>client_app\<close> whose state is the counter of missing responses
  and what the program has printed. Two pieces of \<^verbatim>\<open>main\<close> are given as a whole, \<open>client_main_start\<close> and
  \<open>client_main_calls\<close>; \<open>Client_Process\<close> has the whole process, step by step.
\<close>

section \<open>The closures\<close>

record demo_client =
  remaining :: int
  console :: "printed list"

definition print_response :: "rpc_message \<Rightarrow> bytes" where
  "print_response m =
     (if status m = 0
      then bytes_of ''[client] response id='' @ decimal (unat (msg_id m)) @ bytes_of '' payload='' @ quoted (payload m)
      else bytes_of ''[client] response id='' @ decimal (unat (msg_id m)) @ bytes_of '' error='' @
        (if sint (status m) < 0 then [45] else []) @ decimal (nat \<bar>sint (status m)\<bar>) @
        bytes_of '' '' @ error m @ [10])"

definition on_response :: "demo_client \<Rightarrow> rpc_message \<Rightarrow> demo_client \<times> client_action list" where
  "on_response st m =
     (let st = st\<lparr>remaining := remaining st - 1, console := console st @ [Out (print_response m)]\<rparr>
      in (st, if remaining st = 0 then [ClientClose, OnSession StopLoop] else []))"

definition pushed_line :: "rpc_message \<Rightarrow> bytes" where
  "pushed_line m =
     bytes_of ''[client] recv '' @ bytes_of (to_string (kind m)) @ bytes_of '' '' @ service m @ bytes_of ''.'' @
     method m @ bytes_of '' payload='' @ quoted (payload m)"

definition on_push :: "demo_client \<Rightarrow> rpc_message \<Rightarrow> demo_client \<times> client_action list" where
  "on_push st m = (st\<lparr>console := console st @ [Out (pushed_line m)]\<rparr>, [])"

definition demo_client_app :: "demo_client client_app" where
  "demo_client_app =
     \<lparr>app_response = \<lambda>_ st m. on_response st m, app_push = \<lambda>_ st p m. on_push st m, app_written = \<lambda>_ st err. st\<rparr>"

section \<open>The program\<close>

definition host_argument :: "bytes option \<Rightarrow> bytes" where
  "host_argument arg = (case arg of None \<Rightarrow> bytes_of ''127.0.0.1'' | Some text \<Rightarrow> text)"

definition client_main_init :: "env \<Rightarrow> demo_client client" where
  "client_main_init e = client_init e \<lparr>remaining = 3, console = []\<rparr>"

definition client_main_start ::
    "(bytes \<Rightarrow> u16 \<Rightarrow> string + address_answer list) \<Rightarrow> recv_answer list \<Rightarrow> send_answer list \<Rightarrow> bytes \<Rightarrow> u16 \<Rightarrow>
     (objects \<times> demo_client client, unit) eff" where
  "client_main_start resolve rs bs name n =
     seq (client_connect resolve rs bs name n)
         (upd (\<lambda>(ob, e). (ob, client_set_message_handler (Some 0) e)))"

definition client_main_calls :: "(ptr \<Rightarrow> bool) \<Rightarrow> (demo_client client, unit) eff" where
  "client_main_calls opened =
     seq (client_notify demo_client_app opened (bytes_of ''Client'') (bytes_of ''ready'')
            (bytes_of ''client can also push messages''))
       (bind (client_call_async demo_client_app opened (bytes_of ''DemoService'') (bytes_of ''echo'')
                (bytes_of ''hello mini rpc'') (Some 0)) (\<lambda>_.
        bind (client_call_async demo_client_app opened (bytes_of ''DemoService'') (bytes_of ''upper'')
                (bytes_of ''full duplex protobuf'') (Some 0)) (\<lambda>_.
        bind (client_call_async demo_client_app opened (bytes_of ''DemoService'') (bytes_of ''time'')
                [] (Some 0)) (\<lambda>_. ret ()))))"

text \<open>The exit status, read once the loop's thread has been joined\<close>

definition client_main_status :: "demo_client client \<Rightarrow> int" where
  "client_main_status e = (if remaining (client_user e) = 0 then 0 else 1)"

end
