(* ===== verification/Demo_Properties.thy ===== *)
theory Demo_Properties
  imports Demo_Client
begin

text \<open>
  The example programs together: what the demo service answers, how a call travels from the client
  to the server and back, and what arrives at the other end of a connection.
\<close>

section \<open>The port\<close>

text \<open>
  The port of the command line is whatever \<^verbatim>\<open>std::stoi\<close> reads, cut to 16 bits without a check:
  a port from 0 to 65535 is taken as it is written, a larger number silently becomes another port.
\<close>

lemma port_argument_wraps:
  assumes "n < 2 ^ 31"
  shows "\<exists>w. port_argument (Some (decimal n)) = Inr w \<and> unat w = n mod 65536"
  using stoi_decimal [OF assms] by (simp add: port_argument_def unat_of_nat take_bit_nat_def)

section \<open>The service\<close>

text \<open>
  Every request is answered by a response to that very request (same id, service and method);
  the status is 404 exactly when the service or the method is not one of the demo's, with an error
  text and no payload, and 0 otherwise, with the payload the method computes and no error.
\<close>

lemma handle_demo_request_answers:
  "let r = handle_demo_request clock request in
    msg_id r = msg_id request \<and> kind r = Response \<and> service r = service request \<and> method r = method request \<and>
    (if service request = bytes_of ''DemoService'' \<and>
        method request \<in> {bytes_of ''echo'', bytes_of ''upper'', bytes_of ''time''}
     then status r = 0 \<and> error r = [] \<and>
       payload r = (if method request = bytes_of ''echo'' then payload request
                    else if method request = bytes_of ''upper'' then map toupper (payload request)
                    else now_text clock)
     else status r = 404 \<and> error r \<noteq> [] \<and> payload r = [])"
  by (simp add: handle_demo_request_def empty_message_def Let_def)

lemma answer_correlates:
  "msg_id (handle_demo_request clock m) = msg_id m" "kind (handle_demo_request clock m) = Response"
  by (simp_all add: handle_demo_request_def Let_def)

section \<open>One request at the server\<close>

text \<open>The messages the server's handler is called with, and what the handler then does.\<close>

lemma demo_reads:
  assumes "is_open s" "read_buffer s = []" "msg_handler s = Some (UserMessage k)" "sendable m" "kind m = Request"
    and "session_send (server_on_write (demo_app clock mo)) p (handle_demo_request clock m) (Some (UserWrite 0))
      (e\<lparr>cerrno := EAGAIN, trace := trace e @ [MessageCalled p m], user := user e @ [Out (received_line m)]\<rparr>) = (Inr (), e')"
  shows "async_read (server_hooks (demo_app clock mo)) p
      (s\<lparr>rx := [RecvBytes (make_frame (encode m)), RecvError EAGAIN]\<rparr>, e) = (Inr (), (s\<lparr>rx := []\<rparr>, e'))"
proof (rule read_one_message [OF assms(1-4)])
  show "on_message (server_hooks (demo_app clock mo)) (UserMessage k) p (s\<lparr>rx := []\<rparr>) m
      (e\<lparr>cerrno := EAGAIN, trace := trace e @ [MessageCalled p m]\<rparr>) = (Inr (), e')"
    using assms(5,6)
    by (simp add: server_hooks_def server_on_message_def demo_app_def demo_on_message_def perform_all_def seq_run)
qed

lemma demo_answers:
  assumes "is_open s" "read_buffer s = []" "msg_handler s = Some (UserMessage k)" "sendable m" "kind m = Request"
    and "length (encode (handle_demo_request clock m)) \<le> unat kMaxFrameSize" and "answers e = []"
  shows "\<exists>e'. async_read (server_hooks (demo_app clock mo)) p
      (s\<lparr>rx := [RecvBytes (make_frame (encode m)), RecvError EAGAIN]\<rparr>, e) = (Inr (), (s\<lparr>rx := []\<rparr>, e')) \<and>
    tasks e' = tasks e @ [SendTask p (make_frame (encode (handle_demo_request clock m))) (Some (UserWrite 0))] \<and>
    user e' = user e @ [Out (received_line m)]"
proof -
  have "\<exists>e'. session_send (server_on_write (demo_app clock mo)) p (handle_demo_request clock m) (Some (UserWrite 0))
      (e\<lparr>cerrno := EAGAIN, trace := trace e @ [MessageCalled p m], user := user e @ [Out (received_line m)]\<rparr>) = (Inr (), e') \<and>
    tasks e' = tasks e @ [SendTask p (make_frame (encode (handle_demo_request clock m))) (Some (UserWrite 0))] \<and>
    user e' = user e @ [Out (received_line m)]"
    using assms(6,7) by (simp add: session_send_def loop_eval)
  then show ?thesis using demo_reads [OF assms(1-5)] by blast
qed

text \<open>
  A request that arrives whole at a session of the demo server is printed and answered: exactly
  the frame of the service's answer is posted for that session.
\<close>

lemma demo_answers_request:
  assumes "is_open s" "read_buffer s = []" "msg_handler s = Some (UserMessage k)" "sendable m" "kind m = Request"
    and "length (encode (handle_demo_request clock m)) \<le> unat kMaxFrameSize" and "answers e = []"
  shows "\<exists>e'. async_read (server_hooks (demo_app clock mo)) p
      (s\<lparr>rx := [RecvBytes (make_frame (encode m)), RecvError EAGAIN]\<rparr>, e) = (Inr (), (s\<lparr>rx := []\<rparr>, e')) \<and>
    tasks e' = tasks e @ [SendTask p (make_frame (encode (handle_demo_request clock m))) (Some (UserWrite 0))] \<and>
    user e' = user e @ [Out (received_line m)]"
  by (rule demo_answers [OF assms])

text \<open>
  A request of a legal size can have an answer that is larger than a frame may be (an unknown
  service comes back twice, as service and in the error). The server then only prints the error:
  nothing is posted, the session stays open, and the client never hears of its call.
\<close>

lemma oversized_answer_is_dropped:
  assumes "is_open s" "read_buffer s = []" "msg_handler s = Some (UserMessage k)" "sendable m" "kind m = Request"
    and "unat kMaxFrameSize < length (encode (handle_demo_request clock m))"
  shows "\<exists>e'. async_read (server_hooks (demo_app clock mo)) p
      (s\<lparr>rx := [RecvBytes (make_frame (encode m)), RecvError EAGAIN]\<rparr>, e) = (Inr (), (s\<lparr>rx := []\<rparr>, e')) \<and>
    tasks e' = tasks e \<and> user e' = user e @ [Out (received_line m),
      Err (bytes_of ''[server] async write failed: '' @ mo EMSGSIZE @ [10])]"
proof -
  have "\<exists>e'. session_send (server_on_write (demo_app clock mo)) p (handle_demo_request clock m) (Some (UserWrite 0))
      (e\<lparr>cerrno := EAGAIN, trace := trace e @ [MessageCalled p m], user := user e @ [Out (received_line m)]\<rparr>) = (Inr (), e') \<and>
    tasks e' = tasks e \<and> user e' = user e @ [Out (received_line m),
      Err (bytes_of ''[server] async write failed: '' @ mo EMSGSIZE @ [10])]"
    using assms(6)
    by (simp add: session_send_def call_write_def log_call_def server_on_write_def demo_app_def demo_on_write_def seq_run)
  then show ?thesis using demo_reads [OF assms(1-5)] by blast
qed

definition serving_session :: session where
  "serving_session = accepted_session 7 1 [] [] test_server"

lemma serving: "is_open serving_session" "read_buffer serving_session = []"
  "msg_handler serving_session = Some (UserMessage 0)"
  by (simp_all add: serving_session_def accepted_session_def set_close_handler_def set_message_handler_def
      new_session_def test_server_trace)

definition demo_test_server :: "printed list server" where
  "demo_test_server = demo_server test_loop 5555"

definition echo_request :: rpc_message where
  "echo_request = call_message_of 1 (bytes_of ''DemoService'') (bytes_of ''echo'') [104, 105]"

lemma echo_response: "handle_demo_request clock echo_request
    = empty_message\<lparr>msg_id := 1, kind := Response, service := bytes_of ''DemoService'', method := bytes_of ''echo'', payload := [104, 105]\<rparr>"
  by (simp add: echo_request_def call_message_of_def handle_demo_request_def empty_message_def Let_def)

lemma echo_sendable: "sendable echo_request" "kind echo_request = Request"
    "length (encode (handle_demo_request clock echo_request)) \<le> unat kMaxFrameSize"
  using length_encode [of echo_request] length_encode [of "handle_demo_request clock echo_request"]
  by (simp_all add: sendable_def echo_response unat_kMaxFrameSize)
     (simp_all add: echo_request_def call_message_of_def empty_message_def)

lemma encode_two_strings: "length (service m) + length (error m) \<le> length (encode m)"
  by (simp add: encode_fields message_fields_def field_bytes_def)

definition huge_request :: rpc_message where
  "huge_request = call_message_of 1 (replicate 4000000 65) [] []"

end
