(* ===== verification/End_To_End.thy ===== *)
theory End_To_End
  imports Demo_Properties
begin

text \<open>
  Client and server at the two ends of a connection. The network is a hypothesis: the bytes one end
  has received are a prefix of the bytes the other end's kernel has accepted (TCP delivers in order and
  invents nothing). Then the connection is a queue of messages in both directions, but for the messages
  that come in one read with the end of the connection, and a call comes back with its answer.
\<close>

section \<open>A connection is a queue of messages\<close>

abbreviation frames_of :: "rpc_message list \<Rightarrow> bytes list" where
  "frames_of ms \<equiv> map (\<lambda>m. make_frame (encode m)) ms"

lemma parse_prefix:
  assumes "list_all sendable ms" and "prefix inp (concat (frames_of ms))"
  shows "prefix (fst (parse_stream decode inp)) ms"
proof -
  obtain rest where whole: "concat (frames_of ms) = inp @ rest" using assms(2) by (auto simp: prefix_def)
  obtain ns how left where p: "parse_stream decode inp = (ns, how, left)" by (rule prod_cases3)
  have "parse_stream decode (inp @ rest) = (ms, Pending, [])"
    using protobuf.parse_frames_only [OF assms(1)] whole by simp
  then show ?thesis
    using p by (auto simp: parse_stream_append [of decode inp rest] split: stream_end.splits prod.splits)
qed

lemma connected_inv:
  assumes "delivered p (trace e) = []" and "closings p (trace e) = 0"
  shows "history_inv p (connected_session fd sid as bs, e, [], [])"
proof -
  have "connected_session fd sid as bs
      = ((new_session fd sid)\<lparr>msg_handler := Some DispatchMessage, close_cb := Some ResetClient\<rparr>)\<lparr>rx := as, tx := bs\<rparr>"
    by (simp add: connected_session_def set_close_handler_def set_message_handler_def new_session_def)
  then show ?thesis using history_inv_kernel [OF history_inv_start [OF assms]] by simp
qed

lemma history_inv_wire: "history_inv p (s, e, acc, inp) \<Longrightarrow> prefix (wire s) (concat acc)"
  by (cases "is_open s") (auto simp: history_inv_def out_stream_def intro: prefixI [OF sym])

lemma history_inv_delivered:
  "history_inv p (s, e, acc, inp) \<Longrightarrow> delivered p (trace e) = fst (parse_stream decode (read_out inp))"
  by (auto simp: history_inv_def split: if_splits)

lemma whole_reads_prefix: "prefix (whole_reads as b) (b @ recv_bytes as)"
proof (induction as b rule: whole_reads.induct)
  case (3 err as b)
  then show ?case by (auto intro: prefix_order.trans)
qed (simp_all del: append_assoc add: append_assoc [symmetric])

text \<open>What one end has accepted for sending, what the other end has received.\<close>

lemma history_inv_queue:
  assumes "history_inv p (s, e, frames_of sent, i)" and "history_inv q (s', e', acc', got)"
    and "prefix (recv_bytes got) (wire s)" and "list_all sendable sent"
  shows "prefix (delivered q (trace e')) sent \<and> delivered q (trace e') = fst (parse_stream decode (read_out got)) \<and>
    (recv_bytes got = concat (frames_of sent) \<longrightarrow>
       delivered q (trace e') = sent \<or> \<not> is_open s' \<and> closing_answer (last got))"
proof -
  have "prefix (recv_bytes got) (concat (frames_of sent))"
    using assms(3) history_inv_wire [OF assms(1)] by (rule prefix_order.trans)
  then have "prefix (read_out got) (concat (frames_of sent))"
    using whole_reads_prefix [of got "[]"] by (auto intro: prefix_order.trans)
  then show ?thesis
    using parse_prefix [OF assms(4)] protobuf.parse_frames_only [OF assms(4)] history_inv_delivered [OF assms(2)]
      history_inv_read_out [OF assms(2)] by auto
qed

text \<open>
  C1. From the client to the server, for messages that fit a frame and have no negative status: whatever
  either side does in between, what the server's handler has been called with is a prefix of the messages
  the client's session accepted for sending, in order. Once every byte has been received they are all
  delivered, or the server's session has closed in a last read that ended in end of file or an error: then
  the messages that were complete before that read are delivered, and no other.
\<close>

theorem requests_arrive_in_order:
  assumes "session_run (client_hooks C) p (connected_session fd sid as bs, c0, [], []) (cs, ce, frames_of sent, cgot)"
    and "delivered p (trace c0) = []" and "closings p (trace c0) = 0"
    and "session_run (server_hooks A) q (accepted_session fd' sid' as' bs' e0, e0, [], []) (ss, se, acc, got)"
    and "message_cb e0 = Some h" and "delivered q (trace e0) = []" and "closings q (trace e0) = 0"
    and "prefix (recv_bytes got) (wire cs)" and "list_all sendable sent"
  shows "prefix (delivered q (trace se)) sent \<and> delivered q (trace se) = fst (parse_stream decode (read_out got)) \<and>
    (recv_bytes got = concat (frames_of sent) \<longrightarrow>
       delivered q (trace se) = sent \<or> \<not> is_open ss \<and> closing_answer (last got))"
  by (rule history_inv_queue [OF cli.session_run_inv [OF assms(1) connected_inv [OF assms(2,3)]]
      srv.session_run_inv [OF assms(4) accepted_inv [OF assms(5-7)]] assms(8,9)])

text \<open>
  C14. From the server to the client, alike: what the client dispatches is a prefix of the messages
  the server's session accepted for sending, in order; once every byte has been received they are all
  dispatched, or the client's session has closed in a last read that ended in end of file or an error.
\<close>

theorem responses_arrive_in_order:
  assumes "session_run (client_hooks C) p (connected_session fd sid as bs, c0, [], []) (cs, ce, acc, got)"
    and "delivered p (trace c0) = []" and "closings p (trace c0) = 0"
    and "session_run (server_hooks A) q (accepted_session fd' sid' as' bs' e0, e0, [], []) (ss, se, frames_of sent, sgot)"
    and "message_cb e0 = Some h" and "delivered q (trace e0) = []" and "closings q (trace e0) = 0"
    and "prefix (recv_bytes got) (wire ss)" and "list_all sendable sent"
  shows "prefix (delivered p (trace ce)) sent \<and> delivered p (trace ce) = fst (parse_stream decode (read_out got)) \<and>
    (recv_bytes got = concat (frames_of sent) \<longrightarrow>
       delivered p (trace ce) = sent \<or> \<not> is_open cs \<and> closing_answer (last got))"
  by (rule history_inv_queue [OF srv.session_run_inv [OF assms(4) accepted_inv [OF assms(5-7)]]
      cli.session_run_inv [OF assms(1) connected_inv [OF assms(2,3)]] assms(8,9)])

definition sending_session :: session where
  "sending_session = connected_session 7 1 [] [SendBytes 4]"

definition test_pushed :: "session \<times> unit client" where
  "test_pushed = snd (run_send (client_hooks quiet_app) 0 [0, 0, 0, 0] None (sending_session, test_client))"

lemma test_pushed_run:
  "session_run (client_hooks quiet_app) 0 (connected_session 7 1 [] [SendBytes 4], test_client, [], [])
     (fst test_pushed, snd test_pushed, [[0, 0, 0, 0]], [])"
  "wire (fst test_pushed) = [0, 0, 0, 0]"
proof -
  have "fst (run_send (client_hooks quiet_app) 0 [0, 0, 0, 0] None (sending_session, test_client)) = Inr ()"
    and "wire (fst test_pushed) = [0, 0, 0, 0]" and "is_open sending_session"
    by (simp_all add: client_eval session_eval loop_eval sending_session_def test_pushed_def)
  then show "wire (fst test_pushed) = [0, 0, 0, 0]"
    "session_run (client_hooks quiet_app) 0 (connected_session 7 1 [] [SendBytes 4], test_client, [], [])
     (fst test_pushed, snd test_pushed, [[0, 0, 0, 0]], [])"
    using session_send_step [of "client_hooks quiet_app" 0 "[0, 0, 0, 0]" None sending_session test_client "[]" "[]"]
    by (simp_all add: test_pushed_def sending_session_def)
qed

lemma test_client_trace: "trace test_client = []"
  by (simp add: client_eval)

lemma test_read_open: "is_open (fst test_read)"
  by (simp add: server_eval session_eval loop_eval test_session_def test_read_def)

theorem requests_arrive_in_order_witness:
  "delivered 0 (trace (snd test_read)) = [empty_message]"
proof -
  let ?got = "[RecvBytes [0, 0], RecvBytes [0, 0], RecvError EAGAIN]"
  have "recv_bytes ?got = concat (frames_of [empty_message]) \<longrightarrow>
      delivered 0 (trace (snd test_read)) = [empty_message] \<or> \<not> is_open (fst test_read) \<and> closing_answer (last ?got)"
  proof (rule requests_arrive_in_order [THEN conjunct2, THEN conjunct2])
    show "session_run (client_hooks quiet_app) 0 (connected_session 7 1 [] [SendBytes 4], test_client, [], [])
       (fst test_pushed, snd test_pushed, frames_of [empty_message], [])"
      using test_pushed_run(1) by (simp add: make_frame_Nil)
    show "session_run (server_hooks echo_app) 0 (accepted_session 7 1 [] [] test_server, test_server, [], [])
       (fst test_read, snd test_read, [], ?got)"
      using test_read_step by (simp add: test_session_def)
    show "prefix (recv_bytes ?got) (wire (fst test_pushed))" using test_pushed_run(2) by simp
  qed (simp_all add: test_client_trace test_server_trace sendable_empty)
  then show ?thesis using test_read_open by (simp add: make_frame_Nil)
qed

text \<open>The other way: the server sends an empty frame whole, and the client receives it in two pieces.\<close>

definition test_replied :: "session \<times> unit server" where
  "test_replied = snd (run_send (server_hooks echo_app) 0 [0, 0, 0, 0] None (test_session\<lparr>tx := [SendBytes 4]\<rparr>, test_server))"

definition test_informed :: "session \<times> unit client" where
  "test_informed = snd (handle_events (client_hooks quiet_app) 0 EPOLLIN
     ((connected_session 7 1 [] [])\<lparr>rx := [RecvBytes [0], RecvBytes [0, 0, 0], RecvError EAGAIN], tx := []\<rparr>, test_client))"

lemma test_replied_run:
  "session_run (server_hooks echo_app) 0 (accepted_session 7 1 [] [SendBytes 4] test_server, test_server, [], [])
     (fst test_replied, snd test_replied, [[0, 0, 0, 0]], [])"
  "wire (fst test_replied) = [0, 0, 0, 0]"
proof -
  let ?s = "accepted_session 7 1 [] [SendBytes 4] test_server"
  have s: "test_session\<lparr>tx := [SendBytes 4]\<rparr> = ?s" "is_open ?s"
    by (simp_all add: test_session_def accepted_session_def set_close_handler_def set_message_handler_def new_session_def)
  have "fst (run_send (server_hooks echo_app) 0 [0, 0, 0, 0] None (?s, test_server)) = Inr ()"
    by (simp add: server_eval session_eval loop_eval)
  from session_send_step [OF this _ s(2), of "[]" "[]"]
  show "session_run (server_hooks echo_app) 0 (?s, test_server, [], []) (fst test_replied, snd test_replied, [[0, 0, 0, 0]], [])"
    by (simp add: test_replied_def s(1))
  show "wire (fst test_replied) = [0, 0, 0, 0]"
    by (simp add: server_eval session_eval loop_eval test_session_def test_replied_def)
qed

lemma test_informed_run:
  "session_run (client_hooks quiet_app) 0 (connected_session 7 1 [] [], test_client, [], [])
     (fst test_informed, snd test_informed, [], [RecvBytes [0], RecvBytes [0, 0, 0], RecvError EAGAIN])"
  "is_open (fst test_informed)"
proof -
  let ?as = "[RecvBytes [0], RecvBytes [0, 0, 0], RecvError EAGAIN] :: recv_answer list"
  let ?s = "connected_session 7 1 [] []"
  have "fst (handle_events (client_hooks quiet_app) 0 EPOLLIN (?s\<lparr>rx := ?as, tx := []\<rparr>, test_client)) = Inr ()"
    and "is_open (fst test_informed)" and "is_open ?s"
    by (simp_all add: client_eval session_eval loop_eval test_informed_def client_hooks_def client_on_message_def
        dispatch_message_def call_push_def empty_message_def kind_defs)
  then show "session_run (client_hooks quiet_app) 0 (?s, test_client, [], []) (fst test_informed, snd test_informed, [], ?as)"
    and "is_open (fst test_informed)"
    using session_events_step [where H = "client_hooks quiet_app" and p = 0 and ev = EPOLLIN and s = ?s and as = ?as and bs = "[]"
        and e = test_client and acc = "[]" and inp = "[]"]
    by (simp_all add: test_informed_def input_of_def)
qed

theorem responses_arrive_in_order_witness:
  "delivered 0 (trace (snd test_informed)) = [empty_message]"
proof -
  let ?got = "[RecvBytes [0], RecvBytes [0, 0, 0], RecvError EAGAIN]"
  have "recv_bytes ?got = concat (frames_of [empty_message]) \<longrightarrow>
      delivered 0 (trace (snd test_informed)) = [empty_message] \<or> \<not> is_open (fst test_informed) \<and> closing_answer (last ?got)"
  proof (rule responses_arrive_in_order [THEN conjunct2, THEN conjunct2])
    show "session_run (server_hooks echo_app) 0 (accepted_session 7 1 [] [SendBytes 4] test_server, test_server, [], [])
       (fst test_replied, snd test_replied, frames_of [empty_message], [])"
      using test_replied_run(1) by (simp add: make_frame_Nil)
    show "prefix (recv_bytes ?got) (wire (fst test_replied))" using test_replied_run(2) by simp
  qed (rule test_informed_run(1), simp_all add: test_client_trace test_server_trace sendable_empty)
  then show ?thesis using test_informed_run(2) by (simp add: make_frame_Nil)
qed

section \<open>A call and its answer\<close>

lemma sendable_answer:
  "length (encode (handle_demo_request clock m)) \<le> unat kMaxFrameSize \<Longrightarrow> sendable (handle_demo_request clock m)"
  by (auto simp: sendable_def handle_demo_request_def empty_message_def Let_def)

text \<open>
  C8. A call comes back: when the frame of a request (as \<^verbatim>\<open>call_async\<close> made it) arrives at the demo
  server, the server posts one frame, and when that frame arrives at the client that waits for
  this id, the handler of the call is called once, with exactly the service's answer to it.
\<close>

theorem call_comes_back:
  assumes "is_open s" "read_buffer s = []" "msg_handler s = Some (UserMessage k)" and "answers e = []"
    and "is_open c" "read_buffer c = []" "msg_handler c = Some DispatchMessage"
    and "request = call_message_of i sv mt pl" and "response = handle_demo_request clock request"
    and "sendable request" and "length (encode response) \<le> unat kMaxFrameSize"
    and "pending ce i = Some (Some n)" and "app_response A n (client_user ce) response = (u, [])"
  shows "\<exists>e' frame ce'.
    async_read (server_hooks (demo_app clock mo)) p
      (s\<lparr>rx := [RecvBytes (make_frame (encode request)), RecvError EAGAIN]\<rparr>, e) = (Inr (), (s\<lparr>rx := []\<rparr>, e')) \<and>
    tasks e' = tasks e @ [SendTask p frame (Some (UserWrite 0))] \<and>
    async_read (client_hooks A) q (c\<lparr>rx := [RecvBytes frame, RecvError EAGAIN]\<rparr>, ce) = (Inr (), (c\<lparr>rx := []\<rparr>, ce')) \<and>
    answered ce' = answered ce @ [(i, n, response)] \<and> pending ce' = (pending ce)(i := None)"
proof -
  have request: "kind request = Request" "msg_id request = i"
    using assms(8) by (simp_all add: call_message_of_def)
  have response: "sendable response" "kind response = Response" "msg_id response = i"
    using assms(9,11) sendable_answer request(2) by (simp_all add: answer_correlates)
  obtain e' where "async_read (server_hooks (demo_app clock mo)) p
      (s\<lparr>rx := [RecvBytes (make_frame (encode request)), RecvError EAGAIN]\<rparr>, e) = (Inr (), (s\<lparr>rx := []\<rparr>, e'))"
    "tasks e' = tasks e @ [SendTask p (make_frame (encode response)) (Some (UserWrite 0))]"
    using demo_answers [OF assms(1-3,10) request(1), of clock e mo p] assms(4,9,11) by blast
  moreover have "\<exists>ce'. async_read (client_hooks A) q (c\<lparr>rx := [RecvBytes (make_frame (encode response)), RecvError EAGAIN]\<rparr>, ce)
      = (Inr (), (c\<lparr>rx := []\<rparr>, ce')) \<and>
    answered ce' = answered ce @ [(i, n, response)] \<and> pending ce' = (pending ce)(i := None)"
    using client_receives [OF assms(5-7) response(1,2) _ assms(13), of q] assms(12) response(3) by auto
  ultimately show ?thesis by blast
qed

theorem call_comes_back_witness:
  "\<exists>e' frame ce'.
    async_read (server_hooks (demo_app [] (\<lambda>_. []))) 0
      (serving_session\<lparr>rx := [RecvBytes (make_frame (encode echo_request)), RecvError EAGAIN]\<rparr>, demo_test_server)
      = (Inr (), (serving_session\<lparr>rx := []\<rparr>, e')) \<and>
    async_read (client_hooks quiet_app) 0 (sending_session\<lparr>rx := [RecvBytes frame, RecvError EAGAIN]\<rparr>, test_called)
      = (Inr (), (sending_session\<lparr>rx := []\<rparr>, ce')) \<and>
    answered ce' = [(1, 5, handle_demo_request [] echo_request)]"
proof -
  have server: "answers demo_test_server = []"
    by (simp add: demo_test_server_def demo_server_def server_set_message_handler_def
        server_set_session_handler_def server_init_def test_loop_def env.extend_def)
  have client: "is_open sending_session" "read_buffer sending_session = []" "msg_handler sending_session = Some DispatchMessage"
    by (simp_all add: sending_session_def connected_session_def set_close_handler_def set_message_handler_def new_session_def)
  have call: "pending test_called 1 = Some (Some 5)"
    "app_response quiet_app 5 (client_user test_called) (handle_demo_request [] echo_request) = ((), [])"
    by (simp_all add: test_called_run quiet_app_def)
  from call_comes_back [OF serving server client echo_request_def refl echo_sendable(1,3) call,
      where mo = "\<lambda>_. []" and p = 0 and q = 0]
  show ?thesis by (auto simp: test_called_run)
qed

section \<open>The demo client\<close>

lemma posted_call:
  assumes "client_session e = Some p" "opened p" "answers e = []"
    and "length (encode (call_message_of (next_request_id e) sv mt pl)) \<le> unat kMaxFrameSize"
    and "i = next_request_id e"
  shows "client_call_async A opened sv mt pl h e = (Inr i,
    e\<lparr>tasks := tasks e @ [SendTask p (make_frame (encode (call_message_of i sv mt pl))) (Some (ErasePending i))],
      event_counter := Suc (event_counter e), syscalls := syscalls e @ [EventfdWrite (event_fd e)],
      next_request_id := i + 1, pending := (pending e)(i \<mapsto> h), calls := calls e @ [h]\<rparr>)"
  using assms by (simp add: client_call_async_def session_send_def loop_eval Let_def)

lemma call_fits:
  "50 + length sv + length mt + length pl < 4194200 \<Longrightarrow>
   length (encode (call_message_of i sv mt pl)) \<le> unat kMaxFrameSize \<and>
   length (encode (notify_message_of sv mt pl)) \<le> unat kMaxFrameSize"
  using length_encode [of "call_message_of i sv mt pl"] length_encode [of "notify_message_of sv mt pl"]
  by (simp add: unat_kMaxFrameSize call_message_of_def notify_message_of_def empty_message_def)

text \<open>
  The demo client, once connected, posts its notification and its three requests in this order,
  under three consecutive ids, each with its handler in the table before its frame is queued.
\<close>

lemma client_main_posts:
  assumes "client_session e = Some p" and "opened p" and "answers e = []" and "i = next_request_id e"
  shows "\<exists>e'. client_main_calls opened e = (Inr (), e') \<and>
    tasks e' = tasks e @
      [SendTask p (make_frame (encode (notify_message_of (bytes_of ''Client'') (bytes_of ''ready'')
         (bytes_of ''client can also push messages'')))) None,
       SendTask p (make_frame (encode (call_message_of i (bytes_of ''DemoService'') (bytes_of ''echo'')
         (bytes_of ''hello mini rpc'')))) (Some (ErasePending i)),
       SendTask p (make_frame (encode (call_message_of (i + 1) (bytes_of ''DemoService'') (bytes_of ''upper'')
         (bytes_of ''full duplex protobuf'')))) (Some (ErasePending (i + 1))),
       SendTask p (make_frame (encode (call_message_of (i + 2) (bytes_of ''DemoService'') (bytes_of ''time'') [])))
         (Some (ErasePending (i + 2)))] \<and>
    pending e' = (pending e)(i \<mapsto> Some 0, i + 1 \<mapsto> Some 0, i + 2 \<mapsto> Some 0) \<and> next_request_id e' = i + 3"
proof -
  let ?n = "notify_message_of (bytes_of ''Client'') (bytes_of ''ready'') (bytes_of ''client can also push messages'')"
  have n: "length (encode ?n) \<le> unat kMaxFrameSize"
    by (rule call_fits [THEN conjunct2]) simp
  have c: "length (encode (call_message_of j (bytes_of ''DemoService'') mt pl)) \<le> unat kMaxFrameSize"
    if "length mt + length pl < 100" for j mt pl
    by (rule call_fits [THEN conjunct1]) (use that in simp)
  have "client_notify demo_client_app opened (bytes_of ''Client'') (bytes_of ''ready'') (bytes_of ''client can also push messages'') e
      = (Inr (), e\<lparr>tasks := tasks e @ [SendTask p (make_frame (encode ?n)) None],
          event_counter := Suc (event_counter e), syscalls := syscalls e @ [EventfdWrite (event_fd e)]\<rparr>)"
    using assms n by (simp add: client_notify_def session_send_def loop_eval del: bytes_of_simps)
  then show ?thesis
    using assms by (simp add: client_main_calls_def seq_run bind_run posted_call c add.commute [of 2] del: bytes_of_simps)
qed

definition demo_connected :: "objects \<times> demo_client client" where
  "demo_connected = snd (client_main_start (\<lambda>h n. Inr [Connects 7]) [] [] (host_argument None) 5555
     (no_objects, client_main_init (test_loop\<lparr>handlers := [4 \<mapsto> DrainWakeup]\<rparr>)))"

lemma demo_connected_run:
  "client_session (snd demo_connected) = Some 0" "answers (snd demo_connected) = []"
  "next_request_id (snd demo_connected) = 1" "tasks (snd demo_connected) = []"
  "client_user (snd demo_connected) = \<lparr>remaining = 3, console = []\<rparr>"
  by (simp_all add: demo_connected_def client_main_start_def client_main_init_def client_set_message_handler_def
      client_eval session_eval loop_eval)

text \<open>
  The last response ends the demo client: its handler posts the close of the session and
  requests the stop (which ends \<^verbatim>\<open>run\<close>, see \<open>stop_ends_run\<close>), and the exit status is then 0.
\<close>

lemma last_response_ends_client:
  assumes "is_open c" "read_buffer c = []" "msg_handler c = Some DispatchMessage" "sendable m" "kind m = Response"
    and "pending ce (msg_id m) = Some (Some k)" and "remaining (client_user ce) = 1"
    and "client_session ce = Some p" and "answers ce = []"
  shows "\<exists>ce'. async_read (client_hooks demo_client_app) p (c\<lparr>rx := [RecvBytes (make_frame (encode m)), RecvError EAGAIN]\<rparr>, ce)
      = (Inr (), (c\<lparr>rx := []\<rparr>, ce')) \<and>
    tasks ce' = tasks ce @ [CloseTask p] \<and> stopped ce' \<and> client_main_status ce' = 0 \<and>
    console (client_user ce') = console (client_user ce) @ [Out (print_response m)]"
proof -
  let ?e = "ce\<lparr>cerrno := EAGAIN, trace := trace ce @ [MessageCalled p m]\<rparr>"
  have "\<exists>ce'. on_message (client_hooks demo_client_app) DispatchMessage p (c\<lparr>rx := []\<rparr>) m ?e = (Inr (), ce') \<and>
    tasks ce' = tasks ce @ [CloseTask p] \<and> stopped ce' \<and> client_main_status ce' = 0 \<and>
    console (client_user ce') = console (client_user ce) @ [Out (print_response m)]"
    using assms(5-9)
    by (simp add: client_hooks_def client_on_message_def dispatch_message_def take_pending_def call_response_def
        perform_client_all_def demo_client_app_def on_response_def Let_def client_close_def session_close_def
        loop_eval client_main_status_def)
  then show ?thesis using read_one_message [OF assms(1-4)] by blast
qed

end
