(* ===== verification/Client_Races.thy ===== *)
theory Client_Races
  imports Client_Properties
begin

text \<open>
  The public operations of \<^verbatim>\<open>RpcClient\<close> one access at a time. \<^verbatim>\<open>session_\<close> is read several times in each,
  under no lock, and the thread that runs the loop resets it when the session closes; here its steps
  can come between any two accesses. Undisturbed, the accesses make up the operations of \<open>Client\<close>; disturbed
  by a close, the user's thread dereferences a null pointer.
\<close>

section \<open>The steps of the user's thread\<close>

datatype request = CloseClient | Call bytes bytes bytes "nat option" | Notification bytes bytes bytes

text \<open>
  \<open>CheckNull\<close> and \<open>CheckOpen\<close> are the two halves of \<^verbatim>\<open>session_ && session_->is_open()\<close> (\<^verbatim>\<open>close\<close> has only the
  first), then an id is taken, the handler registered, and \<^verbatim>\<open>session_\<close> used.
\<close>

datatype user_at =
    CheckNull request | CheckOpen request | FetchId request | Register u64 request | UseSession u64 request
  | Finished u64 | Raised exn | NullDereference

definition not_connected :: exn where
  "not_connected = RuntimeError ''RpcClient is not connected''"

text \<open>The call that uses the session at last, with the value that the operation returns\<close>

definition use_session :: "'u client_app \<Rightarrow> u64 \<Rightarrow> request \<Rightarrow> ptr \<Rightarrow> ('u, u64) client_eff" where
  "use_session A i r p =
     (case r of
        CloseClient \<Rightarrow> seq (session_close p) (ret 0)
      | Call sv mt pl h \<Rightarrow>
          seq (session_send (client_on_write A) p (call_message_of i sv mt pl) (Some (ErasePending i))) (ret i)
      | Notification sv mt pl \<Rightarrow> seq (session_send (client_on_write A) p (notify_message_of sv mt pl) None) (ret 0))"

fun user_step :: "'u client_app \<Rightarrow> (ptr \<Rightarrow> bool) \<Rightarrow> user_at \<times> 'u client \<Rightarrow> user_at \<times> 'u client" where
  "user_step A opened (CheckNull r, e) =
     (case client_session e of
        None \<Rightarrow> (if r = CloseClient then Finished 0 else Raised not_connected, e)
      | Some p \<Rightarrow> (if r = CloseClient then UseSession 0 r else CheckOpen r, e))"
| "user_step A opened (CheckOpen r, e) =
     (case client_session e of
        None \<Rightarrow> (NullDereference, e)
      | Some p \<Rightarrow> (if \<not> opened p then Raised not_connected
                   else case r of Call sv mt pl h \<Rightarrow> FetchId r | _ \<Rightarrow> UseSession 0 r, e))"
| "user_step A opened (FetchId r, e) =
     (Register (next_request_id e) r, e\<lparr>next_request_id := next_request_id e + 1\<rparr>)"
| "user_step A opened (Register i r, e) =
     (UseSession i r,
      case r of Call sv mt pl h \<Rightarrow> e\<lparr>pending := (pending e)(i \<mapsto> h), calls := calls e @ [h]\<rparr> | _ \<Rightarrow> e)"
| "user_step A opened (UseSession i r, e) =
     (case client_session e of
        None \<Rightarrow> (NullDereference, e)
      | Some p \<Rightarrow> (case use_session A i r p e of
            (Inl x, e') \<Rightarrow> (Raised x, e') | (Inr v, e') \<Rightarrow> (Finished v, e')))"
| "user_step A opened (at, e) = (at, e)"

text \<open>The operation as \<open>Client\<close> has it, in one step\<close>

definition whole_request :: "'u client_app \<Rightarrow> (ptr \<Rightarrow> bool) \<Rightarrow> request \<Rightarrow> ('u, u64) client_eff" where
  "whole_request A opened r =
     (case r of
        CloseClient \<Rightarrow> seq client_close (ret 0)
      | Call sv mt pl h \<Rightarrow> client_call_async A opened sv mt pl h
      | Notification sv mt pl \<Rightarrow> seq (client_notify A opened sv mt pl) (ret 0))"

section \<open>The steps of the loop's thread\<close>

text \<open>What the loop runs, an answer of the kernel, or a change of the loop's own members\<close>

inductive loop_work :: "'u client_app \<Rightarrow> objects \<times> 'u client \<Rightarrow> exn + unit \<Rightarrow> objects \<times> 'u client \<Rightarrow> bool" for A where
  work_task: "client_run_task A t s = (r, s') \<Longrightarrow> task_ok t \<Longrightarrow> loop_work A s r s'"
| work_event: "client_run_handler A h ev s = (r, s') \<Longrightarrow> loop_work A s r s'"
| work_kernel: "heap ob p = Some sn \<Longrightarrow> loop_work A (ob, e) (Inr ()) (ob\<lparr>heap := (heap ob)(p \<mapsto> sn\<lparr>rx := rs, tx := bs\<rparr>)\<rparr>, e)"
| work_loop: "event_loop.more e' = event_loop.more e \<Longrightarrow> handlers e' = handlers e \<Longrightarrow> stopped e' = stopped e \<Longrightarrow>
    list_all task_ok (tasks e') \<Longrightarrow> loop_work A (ob, e) (Inr ()) (ob, e')"

text \<open>Both threads; \<open>quietly\<close>: the loop's thread leaves \<^verbatim>\<open>session_\<close> alone.\<close>

inductive race_step :: "'u client_app \<Rightarrow> bool \<Rightarrow> user_at \<times> objects \<times> 'u client \<Rightarrow> user_at \<times> objects \<times> 'u client \<Rightarrow> bool"
  for A quietly where
  race_user: "user_step A (session_open ob) (at, e) = (at', e') \<Longrightarrow> race_step A quietly (at, ob, e) (at', ob, e')"
| race_loop: "loop_work A (ob, e) r (ob', e') \<Longrightarrow> (quietly \<Longrightarrow> client_session e' = client_session e) \<Longrightarrow>
    race_step A quietly (at, ob, e) (at, ob', e')"

inductive_cases race_stepE: "race_step A quietly (at, ob, e) st'"

section \<open>Undisturbed\<close>

text \<open>
  With no step of the loop in between, the accesses of a public operation, five at most, do exactly what the
  operation does in one step: same result, same exception, same state, and no null pointer.
\<close>

lemma user_steps_are_operation:
  "((user_step A opened) ^^ 5) (CheckNull r, e) =
     (case whole_request A opened r e of (Inl x, e') \<Rightarrow> (Raised x, e') | (Inr v, e') \<Rightarrow> (Finished v, e'))"
proof (cases r)
  case CloseClient
  then show ?thesis
    by (auto simp: eval_nat_numeral whole_request_def client_close_def use_session_def seq_run
        split: option.split prod.split sum.split)
next
  case (Call sv mt pl h)
  then show ?thesis
    by (auto simp: eval_nat_numeral whole_request_def client_call_async_def use_session_def not_connected_def Let_def
        seq_run split: option.split prod.split sum.split)
next
  case (Notification sv mt pl)
  then show ?thesis
    by (auto simp: eval_nat_numeral whole_request_def client_notify_def use_session_def not_connected_def
        seq_run split: option.split prod.split sum.split)
qed

section \<open>Disturbed\<close>

text \<open>Past its first check, the user's thread relies on a session.\<close>

fun relies :: "user_at \<Rightarrow> bool" where
  "relies (CheckNull r) = False"
| "relies (Finished v) = False"
| "relies (Raised x) = False"
| "relies pc = True"

lemma user_step_relies:
  "user_step A opened (pc, e) = (pc', e') \<Longrightarrow> relies pc \<longrightarrow> client_session e \<noteq> None \<Longrightarrow> pc \<noteq> NullDereference \<Longrightarrow>
    pc' \<noteq> NullDereference \<and> (relies pc' \<longrightarrow> client_session e' \<noteq> None)"
  by (cases pc) (auto split: option.splits prod.splits sum.splits if_splits request.splits)

text \<open>
  No operation dereferences a null pointer as long as the loop's thread, whatever else it does,
  leaves \<^verbatim>\<open>session_\<close> as it is.
\<close>

lemma quiet_loop_no_null:
  assumes "(race_step A True)\<^sup>*\<^sup>* (CheckNull r, ob, e) (pc, ob', e')"
  shows "pc \<noteq> NullDereference"
proof -
  have "fst st \<noteq> NullDereference \<and> (relies (fst st) \<longrightarrow> client_session (snd (snd st)) \<noteq> None)"
    if "(race_step A True)\<^sup>*\<^sup>* (CheckNull r, ob, e) st" for st
    using that
  proof (induction rule: rtranclp_induct)
    case (step st st')
    obtain pc ob e where st: "st = (pc, ob, e)" by (cases st)
    show ?case
      using step(2) step(3) unfolding st by (elim race_stepE) (auto dest: user_step_relies)
  qed simp
  from this [OF assms] show ?thesis by simp
qed

lemma loop_closes:
  assumes "client_inv ob e" and "client_session e = Some p"
  shows "\<exists>ob' e'. loop_work A (ob, e) (Inr ()) (ob', e') \<and> client_session e' = None"
proof -
  obtain s where s: "heap ob p = Some s" "is_open s" "close_cb s = Some ResetClient"
    using assms by (fastforce simp: client_inv_def)
  obtain e' where run: "close_from_loop (client_hooks A) p (s, e) = (Inr (), (closed s, e'))"
    using cli.close_from_loop_run [OF s(2)] by blast
  have "client_session e' = None"
    using cli.close_from_loop_frames [OF run] s(2,3) by (simp add: op_frame_def forgotten_def reset_session_def)
  moreover have "client_run_task A (CloseTask p) (ob, e) = (Inr (), (ob\<lparr>heap := (heap ob)(p \<mapsto> closed s)\<rparr>, e'))"
    using run s(1) by (simp add: client_run_task_def with_session_def)
  ultimately show ?thesis using work_task [of A "CloseTask p"] by fastforce
qed

text \<open>
  C24. And when it does not, they do: whatever the operation, if the loop closes the session after the
  first check, the user's thread dereferences the null pointer. (The demo client runs into this: the
  response handler and \<^verbatim>\<open>main\<close> both close, on different threads.)
\<close>

theorem close_races_with_request:
  assumes "client_inv ob e" and "client_session e = Some p"
  shows "\<exists>ob' e'. (race_step A False)\<^sup>*\<^sup>* (CheckNull r, ob, e) (NullDereference, ob', e')"
proof -
  obtain ob' e' where loop: "loop_work A (ob, e) (Inr ()) (ob', e')" and none: "client_session e' = None"
    using loop_closes [OF assms] by blast
  let ?next = "if r = CloseClient then UseSession 0 r else CheckOpen r"
  have "race_step A False (CheckNull r, ob, e) (?next, ob, e)"
    by (rule race_user) (use assms(2) in simp)
  moreover have "race_step A False (?next, ob, e) (?next, ob', e')"
    by (rule race_loop [OF loop]) simp
  moreover have "race_step A False (?next, ob', e') (NullDereference, ob', e')"
    by (rule race_user) (use none in simp)
  ultimately show ?thesis by (meson converse_rtranclp_into_rtranclp rtranclp.rtrancl_refl)
qed

theorem close_races_with_request_witness:
  "client_session test_called = Some 0 \<and>
   (\<exists>ob' e'. (race_step quiet_app False)\<^sup>*\<^sup>* (CheckNull CloseClient, fst test_connected, test_called) (NullDereference, ob', e'))"
  using close_races_with_request [OF test_called_inv test_called_run(2)] test_called_run(2) by simp

end
