(* ===== verification/Client_Process.thy ===== *)
theory Client_Process
  imports End_To_End Client_Races
begin

text \<open>
  \<^verbatim>\<open>examples/client_main.cpp\<close> as a process of two threads: the main thread, a program counter and a function
  that takes its next step, and the thread that runs the loop, whose steps are those of the client's
  tasks and events in any order. A call in which the main thread can block (\<^verbatim>\<open>getaddrinfo\<close>, \<^verbatim>\<open>connect\<close>,
  a mutex that the other thread holds, a sleep) is one step, taken when the call returns: for as long as it
  blocks the step has not been taken, and the other thread may take any number of steps. So the runs are those of the code,
  and nothing is said about how long a call takes, or that it returns. The join is a step once the loop has been left.
\<close>

section \<open>The main thread\<close>

datatype main_at =
    Connecting bytes u16 | Installing | Notifying | Calling nat | Waiting nat | Closing | Stopping | Joining
  | Exited int | Terminated   \<comment> \<open>\<^verbatim>\<open>std::terminate\<close>: no thread catches an exception\<close>

definition main_start :: "bytes option \<Rightarrow> bytes option \<Rightarrow> main_at" where
  "main_start name_arg port_arg =
     (case port_argument port_arg of Inl err \<Rightarrow> Terminated | Inr n \<Rightarrow> Connecting (host_argument name_arg) n)"

definition demo_calls :: "(bytes \<times> bytes) list" where
  "demo_calls = [(bytes_of ''echo'', bytes_of ''hello mini rpc''), (bytes_of ''upper'', bytes_of ''full duplex protobuf''),
     (bytes_of ''time'', [])]"

text \<open>Where the main thread is after a step that may have thrown\<close>

definition after :: "(exn + 'a) \<times> 's \<Rightarrow> main_at \<Rightarrow> main_at \<times> 's" where
  "after result next = (case result of (Inl x, s) \<Rightarrow> (Terminated, s) | (Inr v, s) \<Rightarrow> (next, s))"

fun main_step ::
  "(bytes \<Rightarrow> u16 \<Rightarrow> string + address_answer list) \<Rightarrow> recv_answer list \<Rightarrow> send_answer list
    \<Rightarrow> main_at \<times> objects \<times> demo_client client \<Rightarrow> main_at \<times> objects \<times> demo_client client" where
  "main_step resolve rs bs (Connecting name n, s) = after (client_connect resolve rs bs name n s) Installing"
| "main_step resolve rs bs (Installing, ob, e) = (Notifying, ob, client_set_message_handler (Some 0) e)"
| "main_step resolve rs bs (Notifying, ob, e) =
     after (on_snd (client_notify demo_client_app (session_open ob) (bytes_of ''Client'') (bytes_of ''ready'')
              (bytes_of ''client can also push messages'')) (ob, e)) (Calling 0)"
| "main_step resolve rs bs (Calling k, ob, e) =
     after (on_snd (client_call_async demo_client_app (session_open ob) (bytes_of ''DemoService'')
              (fst (demo_calls ! k)) (snd (demo_calls ! k)) (Some 0)) (ob, e))
       (if Suc k < length demo_calls then Calling (Suc k) else Waiting 0)"
| "main_step resolve rs bs (Waiting i, ob, e) =
     (if i < 30 \<and> remaining (client_user e) > 0 then (Waiting (Suc i), ob, e) else (Closing, ob, e))"
| "main_step resolve rs bs (Closing, ob, e) = after (on_snd client_close (ob, e)) Stopping"
| "main_step resolve rs bs (Stopping, ob, e) = after (on_snd loop_stop (ob, e)) Joining"
| "main_step resolve rs bs (Joining, ob, e) = (Exited (client_main_status e), ob, e)"
| "main_step resolve rs bs (Exited v, ob, e) = (Exited v, ob, e)"
| "main_step resolve rs bs (Terminated, ob, e) = (Terminated, ob, e)"

definition ended :: "main_at \<Rightarrow> bool" where
  "ended pc \<longleftrightarrow> (case pc of Exited v \<Rightarrow> True | Terminated \<Rightarrow> True | _ \<Rightarrow> False)"

section \<open>Both threads\<close>

datatype io_thread = NotCreated | Created | InLoop | Returned

type_synonym client_process = "main_at \<times> io_thread \<times> objects \<times> demo_client client"

text \<open>
  A step of the process; whether it is one of the main thread. \<^verbatim>\<open>run\<close> clears the stop flag when it begins.
\<close>

inductive process_step ::
  "(bytes \<Rightarrow> u16 \<Rightarrow> string + address_answer list) \<Rightarrow> recv_answer list \<Rightarrow> send_answer list
    \<Rightarrow> client_process \<Rightarrow> bool \<Rightarrow> client_process \<Rightarrow> bool" for resolve rs bs where
  step_main: "\<not> ended pc \<Longrightarrow> pc = Joining \<longrightarrow> th = Returned \<Longrightarrow> main_step resolve rs bs (pc, s) = (pc', s') \<Longrightarrow>
    process_step resolve rs bs (pc, th, s) True (pc', if pc = Installing then Created else th, s')"
| step_run: "\<not> ended pc \<Longrightarrow>
    process_step resolve rs bs (pc, Created, ob, e) False (pc, InLoop, ob, e\<lparr>stopped := False\<rparr>)"
| step_work: "\<not> ended pc \<Longrightarrow> loop_work demo_client_app s (Inr ()) s' \<Longrightarrow> process_step resolve rs bs (pc, InLoop, s) False (pc, InLoop, s')"
| step_uncaught: "\<not> ended pc \<Longrightarrow> loop_work demo_client_app s (Inl x) s' \<Longrightarrow>
    process_step resolve rs bs (pc, InLoop, s) False (Terminated, Returned, s')"
| step_return: "\<not> ended pc \<Longrightarrow> stopped e \<Longrightarrow> process_step resolve rs bs (pc, InLoop, ob, e) False (pc, Returned, ob, e)"

text \<open>A run with its number of steps of the main thread\<close>

inductive process_run ::
  "(bytes \<Rightarrow> u16 \<Rightarrow> string + address_answer list) \<Rightarrow> recv_answer list \<Rightarrow> send_answer list
    \<Rightarrow> client_process \<Rightarrow> nat \<Rightarrow> client_process \<Rightarrow> bool" for resolve rs bs start where
  run_start: "process_run resolve rs bs start 0 start"
| run_step: "process_run resolve rs bs start n st \<Longrightarrow> process_step resolve rs bs st main st' \<Longrightarrow>
    process_run resolve rs bs start (if main then Suc n else n) st'"

definition client_process_start :: "bytes option \<Rightarrow> bytes option \<Rightarrow> env \<Rightarrow> client_process" where
  "client_process_start name_arg port_arg e = (main_start name_arg port_arg, NotCreated, no_objects, client_main_init e)"

section \<open>The main thread comes to an end\<close>

fun steps_left :: "main_at \<Rightarrow> nat" where
  "steps_left (Connecting name n) = 40"
| "steps_left Installing = 39"
| "steps_left Notifying = 38"
| "steps_left (Calling k) = 35 + (2 - k)"
| "steps_left (Waiting i) = 4 + (30 - i)"
| "steps_left Closing = 3"
| "steps_left Stopping = 2"
| "steps_left Joining = 1"
| "steps_left (Exited v) = 0"
| "steps_left Terminated = 0"

lemma steps_left_after: "steps_left next < k \<Longrightarrow> steps_left (fst (after r next)) < k"
  by (auto simp: after_def split: prod.split sum.split)

lemma length_demo_calls [simp]: "length demo_calls = 3"
  by (simp add: demo_calls_def)

lemma main_step_decreases:
  assumes "main_step resolve rs bs (pc, s) = (pc', s')" and "\<not> ended pc"
  shows "steps_left pc' < steps_left pc"
proof -
  have "steps_left (fst (main_step resolve rs bs (pc, s))) < steps_left pc"
    using assms(2) by (cases s; cases pc) (auto simp: ended_def simp del: bytes_of_simps intro!: steps_left_after)
  then show ?thesis using assms(1) by simp
qed

lemma process_step_counts:
  "process_step resolve rs bs st main st' \<Longrightarrow>
    (if main then Suc (steps_left (fst st')) else steps_left (fst st')) \<le> steps_left (fst st)"
  by (induction rule: process_step.induct) (auto dest: main_step_decreases)

lemma process_run_counts:
  "process_run resolve rs bs start n st \<Longrightarrow> n + steps_left (fst st) \<le> steps_left (fst start)"
proof (induction rule: process_run.induct)
  case (run_step n st main st')
  then show ?case using process_step_counts [OF run_step(2)] by (auto split: if_splits)
qed simp

section \<open>The exit status\<close>

definition counts_answers :: "demo_client client \<Rightarrow> bool" where
  "counts_answers e \<longleftrightarrow> remaining (client_user e) = 3 - int (length (answered e))"

lemma more_members:
  fixes e e' :: "'u client"
  assumes "event_loop.more e' = event_loop.more e"
  shows "calls e' = calls e" and "client_user e' = client_user e" and "answered e' = answered e"
  using assms by (cases e; cases e'; simp)+

interpretation demo_answers: kept_by_client counts_answers demo_client_app
proof unfold_locales
  fix e e' :: "demo_client client"
  assume "event_loop.more e' = event_loop.more e" and "counts_answers e"
  then show "counts_answers e'" using more_members [of e' e] by (simp add: counts_answers_def)
qed (auto simp: counts_answers_def demo_client_app_def on_response_def on_push_def Let_def)

text \<open>The closures of the demo make no calls of their own.\<close>

interpretation calls_loop: kept_by_loop "\<lambda>e :: demo_client client. calls e = c" for c
proof unfold_locales
  fix e e' :: "demo_client client"
  assume "event_loop.more e' = event_loop.more e" and "calls e = c"
  then show "calls e' = c" using more_members(1) [of e' e] by simp
qed simp

lemma client_close_no_calls: "keeps (\<lambda>e :: demo_client client. calls e = c) client_close"
  using calls_loop.keeps_loop(3) by (auto simp: keeps_def client_close_def session_close_def split: option.splits)

lemma demo_actions_no_calls:
  "keeps (\<lambda>e :: demo_client client. calls e = c) (perform_client_all demo_client_app opened (snd (on_response st m)))"
proof -
  have "keeps (\<lambda>e :: demo_client client. calls e = c) (perform_client demo_client_app opened a)"
    if "a \<in> {ClientClose, OnSession StopLoop}" for a
    using that client_close_no_calls calls_loop.keeps_loop(6) by auto
  then show ?thesis
    unfolding perform_client_all_def by (intro keeps_for_each) (auto simp: on_response_def Let_def split: if_splits)
qed

lemma demo_response: "app_response demo_client_app n u m = on_response u m"
  by (simp add: demo_client_app_def)

lemma demo_dispatch_no_calls:
  "keeps (\<lambda>e :: demo_client client. calls e = c) (dispatch_message demo_client_app opened p m)"
proof (rule keepsI)
  fix e :: "demo_client client"
  assume c: "calls e = c"
  have respond: "calls (snd (call_response demo_client_app opened n m e')) = c"
    if "calls e' = c" for n and e' :: "demo_client client"
  proof (cases "on_response (client_user e') m")
    case (Pair u acts)
    then show ?thesis
      using that keepsD [OF demo_actions_no_calls [of c opened "client_user e'" m],
          of "e'\<lparr>client_user := u, answered := answered e' @ [(msg_id m, n, m)]\<rparr>"]
      by (simp add: call_response_def demo_response)
  qed
  have "calls (snd (call_push demo_client_app opened p m e')) = c" if "calls e' = c" for e' :: "demo_client client"
    using that by (simp add: call_push_def demo_client_app_def on_push_def perform_client_all_def split: option.split)
  with respond show "calls (snd (dispatch_message demo_client_app opened p m e)) = c"
    using c by (auto simp: dispatch_message_def take_pending_def split: option.splits)
qed

interpretation no_calls: kept_by_hooks "\<lambda>e :: demo_client client. calls e = c" "client_hooks demo_client_app" for c
proof unfold_locales
  fix h err mh p s m cl
  show "keeps (\<lambda>e :: demo_client client. calls e = c) (on_write (client_hooks demo_client_app) h err)"
    by (cases h) (auto simp: client_hooks_def client_on_write_def keeps_def)
  show "keeps (\<lambda>e :: demo_client client. calls e = c) (on_message (client_hooks demo_client_app) mh p s m)"
    by (cases mh) (simp_all add: client_hooks_def client_on_message_def demo_dispatch_no_calls keeps_ret)
  show "keeps (\<lambda>e :: demo_client client. calls e = c) (on_close (client_hooks demo_client_app) cl p s)"
    by (cases cl) (auto simp: client_hooks_def client_on_close_def keeps_ret keeps_def)
qed

text \<open>How many calls the main thread has made when it is at a place\<close>

fun calls_made :: "main_at \<Rightarrow> nat \<Rightarrow> bool" where
  "calls_made (Connecting name m) n \<longleftrightarrow> n = 0"
| "calls_made Installing n \<longleftrightarrow> n = 0"
| "calls_made Notifying n \<longleftrightarrow> n = 0"
| "calls_made (Calling k) n \<longleftrightarrow> k < 3 \<and> n = k"
| "calls_made Terminated n \<longleftrightarrow> n \<le> 3"
| "calls_made pc n \<longleftrightarrow> n = 3"

definition process_inv :: "main_at \<Rightarrow> demo_client client \<Rightarrow> bool" where
  "process_inv pc e \<longleftrightarrow> calls_inv e \<and> counts_answers e \<and> calls_made pc (length (calls e))"

lemma connect_no_calls:
  assumes "client_connect resolve rs bs name n (ob, e) = (r, (ob', e' :: demo_client client))"
  shows "calls e' = calls e"
  using assms
proof (cases rule: client_connect_cases)
  case (refused ex)
  then show ?thesis using connect_tcp_frame more_members(1) by blast
next
  case (made fd e1 s')
  then have "calls e1 = calls e" using connect_tcp_frame more_members(1) by blast
  moreover have "event_loop.more e' = event_loop.more (e1\<lparr>client_session := Some (next_ptr ob)\<rparr>)"
    using session_start_outcome [OF made(3)] by simp
  ultimately show ?thesis using more_members(1) [of e' "e1\<lparr>client_session := Some (next_ptr ob)\<rparr>"] by simp
qed simp

lemma session_send_no_calls:
  "keeps (\<lambda>e :: demo_client client. calls e = c) (session_send (client_on_write demo_client_app) p m h)"
proof -
  have "on_write (client_hooks demo_client_app) = client_on_write demo_client_app" by (simp add: client_hooks_def)
  then show ?thesis
    using no_calls.keeps_call_write unfolding session_send_def Let_def by (intro keeps_if calls_loop.keeps_loop) metis
qed

lemma notify_no_calls:
  "keeps (\<lambda>e :: demo_client client. calls e = c) (client_notify demo_client_app opened sv mt pl)"
  by (rule keepsI) (simp add: client_notify_def keepsD [OF session_send_no_calls] split: option.splits)

lemma call_async_calls:
  assumes "client_call_async demo_client_app opened sv mt pl h e = (r, e')"
  shows "if isl r then calls e' = calls e \<or> calls e' = calls e @ [h] else calls e' = calls e @ [h]"
proof -
  let ?i = "next_request_id e"
  let ?e = "e\<lparr>next_request_id := ?i + 1, pending := (pending e)(?i \<mapsto> h), calls := calls e @ [h]\<rparr>"
  have "keeps (\<lambda>e :: demo_client client. calls e = calls ?e)
      (seq (session_send (client_on_write demo_client_app) q m w) (ret ?i))" for q m w
    by (intro keeps_intros session_send_no_calls)
  from keepsD [OF this, of ?e] show ?thesis
    using assms by (auto simp: client_call_async_def Let_def split: option.splits if_splits)
      (metis snd_conv)+
qed

lemma process_inv_after:
  assumes "calls_inv e'" and "counts_answers e'" and "length (calls e') \<le> 3"
    and "\<not> isl r \<Longrightarrow> calls_made next (length (calls e'))"
  shows "case after (r, ob', e') next of (pc, ob, e) \<Rightarrow> process_inv pc e"
  using assms by (cases r) (simp_all add: after_def process_inv_def)

text \<open>A step that makes no call and keeps both invariants leads to the next place, or ends the thread.\<close>

lemma process_inv_quiet:
  assumes "keeps calls_inv m" and "keeps counts_answers m" and "\<And>c. keeps (\<lambda>e. calls e = c) m"
    and "process_inv pc e" and "calls_made pc (length (calls e)) \<Longrightarrow> length (calls e) \<le> 3"
    and "calls_made pc (length (calls e)) \<Longrightarrow> calls_made dest (length (calls e))"
  shows "case after (on_snd m (ob, e)) dest of (pc, ob, e) \<Rightarrow> process_inv pc e"
proof -
  obtain r e1 where run: "m e = (r, e1)" by (rule prod.exhaust)
  have "calls_inv e1" "counts_answers e1" "calls e1 = calls e"
    using keeps_run [OF assms(1) run] keeps_run [OF assms(2) run] keeps_run [OF assms(3) run] assms(4)
    by (auto simp: process_inv_def)
  then show ?thesis using assms(4-6) process_inv_after [of e1 r dest ob] by (simp add: on_snd_run run process_inv_def)
qed

lemma main_step_inv:
  assumes "main_step resolve rs bs (pc, ob, e) = (pc', ob', e')" and "process_inv pc e"
  shows "process_inv pc' e'"
proof -
  have inv: "calls_inv e" "counts_answers e" "calls_made pc (length (calls e))"
    using assms(2) by (simp_all add: process_inv_def)
  have "case main_step resolve rs bs (pc, ob, e) of (pc, ob, e) \<Rightarrow> process_inv pc e"
  proof (cases pc)
    case (Connecting name n)
    obtain r ob1 e1 where c: "client_connect resolve rs bs name n (ob, e) = (r, (ob1, e1))" by (rule prod_cases3)
    have "calls_inv e1" "counts_answers e1" "calls e1 = calls e"
      using keeps_pair_run [OF calls_kept.client_connect_keeps c] keeps_pair_run [OF demo_answers.client_connect_keeps c]
        connect_no_calls [OF c] inv by auto
    then show ?thesis using inv Connecting process_inv_after [of e1 r Installing ob1] by (simp add: c)
  next
    case Installing
    then show ?thesis
      using inv by (simp add: client_set_message_handler_def process_inv_def counts_answers_def)
  next
    case Notifying
    then show ?thesis
      using process_inv_quiet [OF calls_kept.client_notify_keeps demo_answers.client_notify_keeps notify_no_calls assms(2),
          where dest = "Calling 0"] by (simp del: bytes_of_simps)
  next
    case (Calling k)
    let ?next = "if Suc k < length demo_calls then Calling (Suc k) else Waiting 0"
    obtain r e1 where c: "client_call_async demo_client_app (session_open ob) (bytes_of ''DemoService'')
      (fst (demo_calls ! k)) (snd (demo_calls ! k)) (Some 0) e = (r, e1)" by fastforce
    have "calls_inv e1" "counts_answers e1"
      using keeps_run [OF calls_kept.client_call_async_keeps c] keeps_run [OF demo_answers.client_call_async_keeps c] inv by auto
    moreover have "length (calls e1) \<le> 3" "\<not> isl r \<Longrightarrow> calls_made ?next (length (calls e1))"
      using call_async_calls [OF c] inv(3) Calling by (auto split: if_splits)
    ultimately show ?thesis
      using Calling process_inv_after [of e1 r ?next ob] by (simp add: on_snd_run c del: bytes_of_simps)
  next
    case Closing
    then show ?thesis
      using process_inv_quiet [OF calls_kept.client_close_keeps demo_answers.client_close_keeps client_close_no_calls assms(2),
          where dest = Stopping] by simp
  next
    case Stopping
    then show ?thesis
      using process_inv_quiet [OF calls_kept.loop.keeps_loop(6) demo_answers.loop.keeps_loop(6) calls_loop.keeps_loop(6) assms(2),
          where dest = Joining] by simp
  qed (use inv in \<open>auto simp: process_inv_def\<close>)
  then show ?thesis using assms(1) by simp
qed

lemma loop_work_keeps:
  fixes J :: "demo_client client \<Rightarrow> bool"
  assumes "loop_work demo_client_app s r s'" and "kept_by_hooks J (client_hooks demo_client_app)" and "kept_by_loop J" and "J (snd s)"
  shows "J (snd s')"
  using assms(1,4)
proof (induction rule: loop_work.induct)
  case (work_task t s r s')
  have "keeps (beside J) (client_run_task demo_client_app t)"
    unfolding client_run_task_def by (rule kept_by_hooks.keeps_run_task [OF assms(2)])
  then show ?case using work_task keeps_run by (fastforce simp: case_prod_beta)
next
  case (work_event h ev s r s')
  have "keeps (beside J) (client_run_handler demo_client_app h ev)"
    by (cases h) (simp_all add: keeps_on_snd kept_by_loop.keeps_loop [OF assms(3)] keeps_ret
        kept_by_hooks.keeps_with_session [OF assms(2)] kept_by_hooks.keeps_handle_events [OF assms(2)])
  then show ?case using work_event keeps_run by (fastforce simp: case_prod_beta)
next
  case (work_loop e' e ob)
  then show ?case using kept_by_loop.J_more [OF assms(3)] by auto
qed simp

lemma loop_work_inv:
  assumes "loop_work demo_client_app s r s'" and "process_inv pc (snd s)"
  shows "process_inv pc (snd s')"
proof -
  have "calls_inv (snd s')"
    using loop_work_keeps [OF assms(1) calls_kept.hooks.kept_by_hooks_axioms calls_kept.loop.kept_by_loop_axioms] assms(2)
    by (simp add: process_inv_def)
  moreover have "counts_answers (snd s')"
    using loop_work_keeps [OF assms(1) demo_answers.hooks.kept_by_hooks_axioms demo_answers.loop.kept_by_loop_axioms] assms(2)
    by (simp add: process_inv_def)
  moreover have "calls (snd s') = calls (snd s)"
    by (rule loop_work_keeps [OF assms(1) no_calls.kept_by_hooks_axioms calls_loop.kept_by_loop_axioms]) simp
  ultimately show ?thesis using assms(2) by (simp add: process_inv_def)
qed

lemma process_inv_terminated: "process_inv pc e \<Longrightarrow> process_inv Terminated e"
  by (cases pc) (auto simp: process_inv_def)

lemma process_step_inv:
  "process_step resolve rs bs st main st' \<Longrightarrow> process_inv (fst st) (snd (snd (snd st)))
    \<Longrightarrow> process_inv (fst st') (snd (snd (snd st')))"
proof (induction rule: process_step.induct)
  case (step_main pc th s pc' s')
  then show ?case using main_step_inv by (cases s; cases s') auto
next
  case (step_run pc ob e)
  then show ?case
    using calls_inv_more [of "e\<lparr>stopped := False\<rparr>" e] by (simp add: process_inv_def counts_answers_def)
next
  case (step_work pc s s')
  then show ?case using loop_work_inv [OF step_work(2)] by simp
next
  case (step_uncaught pc s x s')
  then show ?case using loop_work_inv [OF step_uncaught(2)] process_inv_terminated by simp
qed simp

lemma process_run_inv:
  "process_run resolve rs bs start n st \<Longrightarrow> process_inv (fst start) (snd (snd (snd start)))
    \<Longrightarrow> process_inv (fst st) (snd (snd (snd st)))"
  by (induction rule: process_run.induct) (simp_all add: process_step_inv)

lemma process_start_inv:
  "process_inv (main_start name_arg port_arg) (client_main_init e)"
  using client_init_calls [of e "\<lparr>remaining = 3, console = []\<rparr>"]
  by (auto simp: process_inv_def main_start_def client_main_init_def counts_answers_def
      client_init_def env.extend_def split: sum.split)

lemma main_step_exits:
  assumes "main_step resolve rs bs (pc, ob, e) = (Exited v, ob', e')" and "\<not> ended pc"
  shows "v = client_main_status e'"
proof -
  have "fst (after r next) \<noteq> Exited v" if "\<forall>v. next \<noteq> Exited v" for r :: "(exn + 'a) \<times> 's" and "next"
    using that by (auto simp: after_def split: prod.split sum.split)
  then have not: "after r next \<noteq> (Exited v, s)" if "\<forall>v. next \<noteq> Exited v" for r :: "(exn + 'a) \<times> 's" and "next" s
    using that by (metis fst_conv)
  show ?thesis
    using assms by (cases pc) (auto simp: ended_def after_def simp del: bytes_of_simps split: prod.splits sum.splits if_splits)
qed

lemma process_step_exits:
  "process_step resolve rs bs st main st' \<Longrightarrow> fst st' = Exited v \<Longrightarrow> v = client_main_status (snd (snd (snd st')))"
proof (induction rule: process_step.induct)
  case (step_main pc th s pc' s')
  then show ?case using main_step_exits by (cases s; cases s') auto
qed (auto simp: ended_def)

lemma process_run_exits:
  "process_run resolve rs bs start n st \<Longrightarrow> fst st = Exited v \<Longrightarrow> \<forall>v. fst start \<noteq> Exited v
    \<Longrightarrow> v = client_main_status (snd (snd (snd st)))"
  by (induction rule: process_run.induct) (auto dest: process_step_exits)

section \<open>A run without an answer\<close>

text \<open>A client that is connected and whose server says nothing\<close>

definition unanswered :: "objects \<Rightarrow> demo_client client \<Rightarrow> bool" where
  "unanswered ob e \<longleftrightarrow> client_session e = Some 0 \<and> session_open ob 0 \<and> answers e = [] \<and> remaining (client_user e) = 3"

lemma demo_call_lengths: "k < 3 \<Longrightarrow> length (fst (demo_calls ! k)) + length (snd (demo_calls ! k)) \<le> 100"
  by (auto simp: demo_calls_def less_Suc_eq numeral_3_eq_3)

lemma unanswered_step:
  assumes "unanswered ob e" and "k < 3"
  shows "\<exists>e'. main_step resolve rs bs (Notifying, ob, e) = (Calling 0, ob, e') \<and> unanswered ob e'"
    and "\<exists>e'. main_step resolve rs bs (Calling k, ob, e) = (if k < 2 then Calling (Suc k) else Waiting 0, ob, e') \<and> unanswered ob e'"
    and "\<exists>e'. main_step resolve rs bs (Closing, ob, e) = (Stopping, ob, e') \<and> unanswered ob e'"
    and "\<exists>e'. main_step resolve rs bs (Stopping, ob, e) = (Joining, ob, e') \<and> unanswered ob e' \<and> stopped e'"
proof -
  have "length (encode (notify_message_of (bytes_of ''Client'') (bytes_of ''ready'') (bytes_of ''client can also push messages'')))
      \<le> unat kMaxFrameSize" by (rule call_fits [THEN conjunct2]) simp
  then show "\<exists>e'. main_step resolve rs bs (Notifying, ob, e) = (Calling 0, ob, e') \<and> unanswered ob e'"
    using assms(1)
    by (simp add: unanswered_def on_snd_run client_notify_def session_send_def loop_eval after_def del: bytes_of_simps)
  have "length (encode (call_message_of i (bytes_of ''DemoService'') (fst (demo_calls ! k)) (snd (demo_calls ! k))))
      \<le> unat kMaxFrameSize" for i
    by (rule call_fits [THEN conjunct1]) (use demo_call_lengths [OF assms(2)] in simp)
  then show "\<exists>e'. main_step resolve rs bs (Calling k, ob, e) = (if k < 2 then Calling (Suc k) else Waiting 0, ob, e') \<and> unanswered ob e'"
    using assms by (simp add: unanswered_def on_snd_run posted_call after_def del: bytes_of_simps)
  show "\<exists>e'. main_step resolve rs bs (Closing, ob, e) = (Stopping, ob, e') \<and> unanswered ob e'"
    "\<exists>e'. main_step resolve rs bs (Stopping, ob, e) = (Joining, ob, e') \<and> unanswered ob e' \<and> stopped e'"
    using assms(1)
    by (simp_all add: unanswered_def on_snd_run client_close_def session_close_def loop_eval after_def)
qed

lemma run_main:
  assumes "process_run resolve rs bs start n (pc, InLoop, s)" and "main_step resolve rs bs (pc, s) = (pc', s')"
    and "\<not> ended pc" and "pc \<noteq> Joining" and "pc \<noteq> Installing"
  shows "process_run resolve rs bs start (Suc n) (pc', InLoop, s')"
  using run_step [OF assms(1) step_main [OF assms(3) _ assms(2)]] assms(4,5) by simp

lemma run_sleeps:
  assumes "process_run resolve rs bs start n (Waiting 0, InLoop, ob, e)" and "unanswered ob e" and "i \<le> 30"
  shows "process_run resolve rs bs start (n + i) (Waiting i, InLoop, ob, e)"
  using assms(3)
proof (induction i)
  case (Suc i)
  then show ?case using run_main [of resolve rs bs start "n + i" "Waiting i" "(ob, e)"] assms(2)
    by (simp add: unanswered_def ended_def)
qed (use assms(1) in simp)

lemma run_to:
  assumes "process_run resolve rs bs start n (pc, InLoop, ob, e)"
    and "\<exists>e'. main_step resolve rs bs (pc, ob, e) = (pc', ob, e') \<and> P e'"
    and "\<not> ended pc" and "pc \<noteq> Joining" and "pc \<noteq> Installing"
  obtains e' where "process_run resolve rs bs start (Suc n) (pc', InLoop, ob, e')" and "P e'"
  using assms run_main by blast

lemma run_unanswered:
  assumes "process_run resolve rs bs start n (Notifying, InLoop, ob, e)" and "unanswered ob e"
  shows "\<exists>e. process_run resolve rs bs start (n + 38) (Exited 1, Returned, ob, e)"
proof -
  have call: "\<exists>e'. main_step resolve rs bs (Calling k, ob, e) = (if k < 2 then Calling (Suc k) else Waiting 0, ob, e') \<and> unanswered ob e'"
    if "unanswered ob e" and "k < 3" for k e
    by (rule unanswered_step(2) [OF that])
  obtain e1 where e1: "process_run resolve rs bs start (Suc n) (Calling 0, InLoop, ob, e1)" "unanswered ob e1"
    by (rule run_to [OF assms(1) unanswered_step(1) [OF assms(2), of 0]]) (simp_all add: ended_def)
  obtain e2 where e2: "process_run resolve rs bs start (Suc (Suc n)) (Calling 1, InLoop, ob, e2)" "unanswered ob e2"
    by (rule run_to [OF e1(1) call [OF e1(2)]]) (simp_all add: ended_def)
  obtain e3 where e3: "process_run resolve rs bs start (Suc (Suc (Suc n))) (Calling 2, InLoop, ob, e3)" "unanswered ob e3"
    by (rule run_to [OF e2(1) call [OF e2(2)]]) (simp_all add: ended_def numeral_2_eq_2)
  obtain e4 where e4: "process_run resolve rs bs start (n + 4) (Waiting 0, InLoop, ob, e4)" "unanswered ob e4"
    by (rule run_to [OF e3(1) call [OF e3(2)]]) (simp_all add: ended_def eval_nat_numeral)
  have "process_run resolve rs bs start (n + 4 + 30) (Waiting 30, InLoop, ob, e4)"
    by (rule run_sleeps [OF e4]) simp
  then have "process_run resolve rs bs start (Suc (n + 4 + 30)) (Closing, InLoop, ob, e4)"
    by (rule run_main) (simp_all add: ended_def)
  then obtain e5 where e5: "process_run resolve rs bs start (n + 36) (Stopping, InLoop, ob, e5)" "unanswered ob e5"
    by (rule run_to [OF _ unanswered_step(3) [OF e4(2), of 0]]) (simp_all add: ended_def add.commute [of 36])
  obtain e6 where e6': "process_run resolve rs bs start (Suc (n + 36)) (Joining, InLoop, ob, e6)" and e6: "unanswered ob e6 \<and> stopped e6"
    by (rule run_to [OF e5(1) unanswered_step(4) [OF e5(2), of 0]]) (simp_all add: ended_def)
  from run_step [OF e6' step_return [of Joining e6]] e6
  have "process_run resolve rs bs start (Suc (n + 36)) (Joining, Returned, ob, e6)" by (simp add: ended_def)
  from run_step [OF this step_main [where pc = Joining]] e6
  have "process_run resolve rs bs start (Suc (Suc (n + 36))) (Exited 1, Returned, ob, e6)"
    by (simp add: ended_def client_main_status_def unanswered_def)
  then show ?thesis by (auto simp: add.commute [of n])
qed

definition silent_start :: client_process where
  "silent_start = client_process_start None None (test_loop\<lparr>handlers := [4 \<mapsto> DrainWakeup]\<rparr>)"

definition silent_connected :: "(exn + unit) \<times> objects \<times> demo_client client" where
  "silent_connected = client_connect (\<lambda>_ _. Inr [Connects 7]) [] [] (host_argument None) 5555
     (no_objects, client_main_init (test_loop\<lparr>handlers := [4 \<mapsto> DrainWakeup]\<rparr>))"

lemma silent_connected_run:
  "fst silent_connected = Inr ()" "client_session (snd (snd silent_connected)) = Some 0"
  "answers (snd (snd silent_connected)) = []" "session_open (fst (snd silent_connected)) 0"
  "client_user (snd (snd silent_connected)) = \<lparr>remaining = 3, console = []\<rparr>"
  by (simp_all add: silent_connected_def client_main_init_def client_eval session_eval loop_eval)

lemma silent_connects:
  "\<exists>ob e. main_step (\<lambda>_ _. Inr [Connects 7]) [] [] (Connecting (host_argument None) 5555, no_objects,
       client_main_init (test_loop\<lparr>handlers := [4 \<mapsto> DrainWakeup]\<rparr>)) = (Installing, ob, e) \<and> unanswered ob e"
proof -
  obtain r ob e where c: "silent_connected = (r, ob, e)" by (rule prod_cases3)
  then have "unanswered ob e" and "r = Inr ()" using silent_connected_run unfolding c by (simp_all add: unanswered_def)
  then have "after silent_connected Installing = (Installing, ob, e)" by (simp only: after_def c prod.case sum.case)
  then show ?thesis using \<open>unanswered ob e\<close> unfolding main_step.simps silent_connected_def by blast
qed

lemma silent_run: "\<exists>ob e. process_run (\<lambda>_ _. Inr [Connects 7]) [] [] silent_start 40 (Exited 1, Returned, ob, e)"
proof -
  let ?r = "\<lambda>_ _. Inr [Connects 7]"
  obtain ob e where e: "unanswered ob e" and c: "main_step ?r [] [] (Connecting (host_argument None) 5555, no_objects,
      client_main_init (test_loop\<lparr>handlers := [4 \<mapsto> DrainWakeup]\<rparr>)) = (Installing, ob, e)"
    using silent_connects by blast
  have "process_run ?r [] [] silent_start 1 (Installing, NotCreated, ob, e)"
    using run_step [OF run_start step_main [OF _ _ c]]
    by (fastforce simp: silent_start_def client_process_start_def main_start_def port_argument_def ended_def)
  from run_step [OF this step_main [where pc = Installing]]
  have "process_run ?r [] [] silent_start 2 (Notifying, Created, ob, client_set_message_handler (Some 0) e)"
    by (simp add: ended_def numeral_2_eq_2)
  from run_step [OF this step_run]
  have "process_run ?r [] [] silent_start 2
      (Notifying, InLoop, ob, (client_set_message_handler (Some 0) e)\<lparr>stopped := False\<rparr>)"
    by (simp add: ended_def)
  moreover have "unanswered ob ((client_set_message_handler (Some 0) e)\<lparr>stopped := False\<rparr>)"
    using e by (simp add: unanswered_def client_set_message_handler_def)
  ultimately show ?thesis using run_unanswered by fastforce
qed

text \<open>
  Whatever the kernel answers and whatever the loop's thread does, and however often it gets its
  turn: the main thread of the demo client takes at most forty steps, thirty of them sleeps. How long a
  call of the kernel takes is not modelled.
\<close>

lemma client_process_steps:
  assumes "process_run resolve rs bs (client_process_start name_arg port_arg e) n (pc, th, s)"
  shows "n + steps_left pc \<le> 40"
proof -
  have "steps_left (main_start name_arg port_arg) \<le> 40" by (simp add: main_start_def split: sum.split)
  then show ?thesis
    using process_run_counts [OF assms] by (simp add: client_process_start_def)
qed

text \<open>
  C23. When the process of the demo client ends by returning from \<^verbatim>\<open>main\<close>, it has made its three calls, no
  call was answered twice or by another call's response, and the exit status is 0 exactly when all three
  were answered.
\<close>

theorem client_process_status:
  assumes "process_run resolve rs bs (client_process_start name_arg port_arg e0) n (Exited v, th, ob, e)"
  shows "length (calls e) = 3 \<and> answers_ok (calls e) (pending e) (answered e)
    \<and> v = (if length (answered e) = 3 then 0 else 1)"
proof -
  have start: "\<forall>v. main_start name_arg port_arg \<noteq> Exited v" by (simp add: main_start_def split: sum.split)
  have inv: "process_inv (Exited v) e"
    using process_run_inv [OF assms] process_start_inv by (simp add: client_process_start_def)
  moreover have "v = client_main_status e"
    using process_run_exits [OF assms] start by (simp add: client_process_start_def)
  ultimately show ?thesis
    by (auto simp: process_inv_def calls_inv_def counts_answers_def client_main_status_def)
qed

theorem client_process_status_witness:
  "\<exists>ob e. process_run (\<lambda>_ _. Inr [Connects 7]) [] [] silent_start 40 (Exited 1, Returned, ob, e)
    \<and> length (calls e) = 3 \<and> length (answered e) \<noteq> 3"
proof -
  obtain ob e where run: "process_run (\<lambda>_ _. Inr [Connects 7]) [] [] silent_start 40 (Exited 1, Returned, ob, e)"
    using silent_run by blast
  then show ?thesis using client_process_status [OF run [unfolded silent_start_def]] by (auto split: if_splits)
qed

end
