(* ===== verification/Server_Interleaved.thy ===== *)
theory Server_Interleaved
  imports Server_Lifecycle Session_Keeps
begin

text \<open>
  The server under threads: at every moment of every interleaved run its map is the set of its open
  sessions, and each session it ever accepted has delivered the messages of what its peer sent and
  closed at most once.
\<close>

section \<open>The registry, at every moment\<close>

abbreviation server_steps where
  "server_steps A \<equiv> run_steps task_ok (server_run_task A) (server_run_handler A)"

text \<open>A server that has been started and has accepted nothing\<close>

definition server_begins :: "'u server \<Rightarrow> bool" where
  "server_begins e \<longleftrightarrow> sessions e = Map.empty \<and> tasks e = [] \<and> trace e = [] \<and>
     (\<forall>fd p. handlers e fd \<noteq> Some (SessionEvents p))"

lemma server_begins_inv: "server_begins e \<Longrightarrow> server_inv no_objects e"
  by (simp add: server_begins_def server_inv_def heap_inv_def map_inv_def table_inv_def no_objects_def)

text \<open>
  C3. At every moment of a run of the server's loop, with other threads posting and stopping between any two
  steps, whatever connections came, sent, failed and closed in whatever order: the map holds exactly the
  open sessions, each under its id, and a handler of the loop that belongs to a session belongs to an
  open one, registered on that descriptor. (Unless an exception has ended the run. The bound is on the
  number of sessions ever made: their ids are 64 bits.)
\<close>

theorem server_registry_throughout:
  assumes "server_steps A (Entering, no_objects, e) (pc, ob', e')" and "\<nexists>x. pc = Left (Some x)"
    and "server_begins e" and "Suc (next_ptr ob') < 2 ^ 64"
  shows "(sessions e' sid = Some p \<longleftrightarrow> (\<exists>s. heap ob' p = Some s \<and> is_open s \<and> session_id s = sid)) \<and>
    (handlers e' fd = Some (SessionEvents q) \<longrightarrow>
       (\<exists>s. heap ob' q = Some s \<and> is_open s \<and> registered s \<and> socket_fd s = fd))"
proof -
  have "server_inv ob' e'"
    by (rule srv_run.run_steps_inv [OF assms(1) _ server_begins_inv [OF assms(3)] assms(2)])
       simp
  then have m: "map_inv ob' (sessions e')" and t: "table_inv ob' (handlers e')" by (simp_all add: server_inv_def)
  from m assms(4) have "sessions e' sid = Some p \<longleftrightarrow> (\<exists>s. heap ob' p = Some s \<and> is_open s \<and> session_id s = sid)"
    by (auto simp: map_inv_def)
  with t show ?thesis by (simp add: table_inv_def)
qed

lemma test_begins: "server_begins test_server"
  by (simp add: server_begins_def test_server_def server_init_def test_loop_def env.extend_def)

lemma test_steps:
  obtains ob' e' s where "server_steps echo_app (Entering, no_objects, test_server) (Left None, ob', e')"
    and "next_ptr ob' = 1" and "heap ob' 0 = Some s"
proof -
  let ?r = "the (server_run echo_app test_waits (no_objects, test_server))"
  have run: "loop_run (server_run_task echo_app) (server_run_handler echo_app) test_waits (no_objects, test_server)
      = Some (Inr (), (fst (snd ?r), snd (snd ?r)))"
    using run_outcome test_run(1,2) unfolding server_run_def by blast
  have "list_all (wait_ok task_ok) test_waits" by (simp add: test_waits_def)
  from runs_are_interleaved [OF run this]
  have "server_steps echo_app (Entering, no_objects, test_server) (Left None, fst (snd ?r), snd (snd ?r))"
    by (simp only: left_with_def sum.case)
  then show thesis using that [of "fst (snd ?r)" "snd (snd ?r)"] test_run(3,4) by blast
qed

theorem server_registry_throughout_witness:
  "\<exists>ob' e'. server_steps echo_app (Entering, no_objects, test_server) (Left None, ob', e') \<and>
     (sessions e' 1 = Some 0 \<longleftrightarrow> (\<exists>s. heap ob' 0 = Some s \<and> is_open s \<and> session_id s = 1))"
proof -
  obtain ob' e' s where run: "server_steps echo_app (Entering, no_objects, test_server) (Left None, ob', e')"
    and "next_ptr ob' = 1" by (rule test_steps)
  then have "sessions e' 1 = Some 0 \<longleftrightarrow> (\<exists>s. heap ob' 0 = Some s \<and> is_open s \<and> session_id s = 1)"
    by (intro server_registry_throughout [OF run _ test_begins, THEN conjunct1]) simp_all
  then show ?thesis using run by blast
qed

section \<open>The history of every session\<close>

fun connections :: "accept_answer list \<Rightarrow> (fd \<times> recv_answer list \<times> send_answer list) list" where
  "connections [] = []"
| "connections (AcceptFd fd as bs # rest) = (fd, as, bs) # connections rest"
| "connections (AcceptError err # rest) = connections rest"

text \<open>
  The sessions made are those of the first connections, in order; each has a history whose input is what
  its peer sent; a session not yet made has none.
\<close>

definition histories :: "(fd \<times> recv_answer list \<times> send_answer list) list \<Rightarrow> objects \<Rightarrow> 'u server \<Rightarrow> bool" where
  "histories cs ob e \<longleftrightarrow> server_inv ob e \<and> message_cb e \<noteq> None \<and>
     (\<exists>made. cs = made @ connections (accepts e) \<and> length made = next_ptr ob) \<and>
     (\<forall>q s. heap ob q = Some s \<longrightarrow> (\<exists>acc inp. history_inv q (s, e, acc, inp) \<and> fed (fst (snd (cs ! q))) s inp)) \<and>
     (\<forall>q. heap ob q = None \<longrightarrow> delivered q (trace e) = [] \<and> closings q (trace e) = 0)"

lemma historiesD:
  assumes "histories cs ob e"
  shows "server_inv ob e"
    and "\<exists>h. message_cb e = Some h"
    and "\<exists>made. cs = made @ connections (accepts e) \<and> length made = next_ptr ob"
    and "heap ob q = Some s \<Longrightarrow> \<exists>acc inp. history_inv q (s, e, acc, inp) \<and> fed (fst (snd (cs ! q))) s inp"
    and "heap ob q = None \<Longrightarrow> delivered q (trace e) = [] \<and> closings q (trace e) = 0"
  using assms unfolding histories_def by blast+

lemma server_members_more:
  fixes e e' :: "'u server"
  assumes "event_loop.more e' = event_loop.more e"
  shows "message_cb e' = message_cb e" "accepts e' = accepts e"
  using assms by (cases e; cases e'; simp)+

interpretation installed_closing: kept_by_closing "\<lambda>e :: 'u server. message_cb e = cb \<and> accepts e = as" "server_hooks A" for cb as A
proof
  fix e e' :: "'u server" and t h err c p s
  let ?J = "\<lambda>e :: 'u server. message_cb e = cb \<and> accepts e = as"
  show "event_loop.more e' = event_loop.more e \<Longrightarrow> ?J e \<Longrightarrow> ?J e'" by (simp add: server_members_more [of e' e])
  show "?J e \<Longrightarrow> ?J (e\<lparr>trace := t\<rparr>)" by simp
  show "keeps ?J (on_write (server_hooks A) h err)"
    by (auto simp: server_hooks_def server_on_write_def keeps_def split: write_handler.split)
  show "keeps ?J (on_close (server_hooks A) c p s)"
    by (auto simp: server_hooks_def server_on_close_def keeps_def split: close_handler.split)
qed

lemma perform_all_installed:
  "perform_all (server_on_write A) acts e = (r, e') \<Longrightarrow> message_cb e' = message_cb e \<and> accepts e' = accepts e"
  using keeps_run [OF installed_closing.keeps_perform_all [of "message_cb e" "accepts e" A acts]]
  by (simp add: server_hooks_def)

interpretation installed: kept_by_hooks "\<lambda>e :: 'u server. message_cb e = cb \<and> accepts e = as" "server_hooks A" for cb as A
proof
  fix mh p s m
  show "keeps (\<lambda>e :: 'u server. message_cb e = cb \<and> accepts e = as) (on_message (server_hooks A) mh p s m)"
  proof (rule keepsI)
    fix e :: "'u server"
    assume e: "message_cb e = cb \<and> accepts e = as"
    obtain r e' where run: "on_message (server_hooks A) mh p s m e = (r, e')" by fastforce
    then have "message_cb e' = cb \<and> accepts e' = as"
      using e by (cases mh)
        (auto simp: server_hooks_def server_on_message_def split: prod.splits dest: perform_all_installed)
    then show "message_cb (snd (on_message (server_hooks A) mh p s m e)) = cb \<and>
        accepts (snd (on_message (server_hooks A) mh p s m e)) = as" by (simp add: run)
  qed
qed

section \<open>Accepting\<close>

text \<open>A change that leaves alone what \<open>histories\<close> looks at\<close>

lemma history_inv_trace:
  "delivered q (trace e') = delivered q (trace e) \<Longrightarrow> closings q (trace e') = closings q (trace e) \<Longrightarrow>
    history_inv q (s, e', acc, inp) = history_inv q (s, e, acc, inp)"
  by (simp add: history_inv_def)

lemma histories_env:
  assumes "histories cs ob e" and "server_inv ob e'" and "message_cb e' = message_cb e"
    and "connections (accepts e') = connections (accepts e)"
    and "\<And>q. delivered q (trace e') = delivered q (trace e)" "\<And>q. closings q (trace e') = closings q (trace e)"
  shows "histories cs ob e'"
  using assms history_inv_trace [OF assms(5,6)] unfolding histories_def by simp

lemma accept_one_installed:
  assumes "accept_one A fd as bs (ob, e) = (Inr (), (ob', e'))"
  shows "message_cb e' = message_cb e" and "accepts e' = accepts e"
proof -
  have "message_cb e' = message_cb e \<and> accepts e' = accepts e"
    using assms
  proof (cases rule: accept_one_run)
    case (1 e1)
    have "message_cb e1 = message_cb e" "accepts e1 = accepts e"
      using server_members_more [OF session_start_run(4) [OF 1(2)]] by simp_all
    moreover have "message_cb e' = message_cb e1 \<and> accepts e' = accepts e1"
      using 1(3) by (auto simp: call_session_handler_def split: option.splits prod.splits dest: perform_all_installed)
    ultimately show ?thesis by simp
  qed
  then show "message_cb e' = message_cb e" and "accepts e' = accepts e" by simp_all
qed

lemma accept_one_histories:
  assumes "histories cs ob e" and "accepts e = AcceptFd fd as bs # rest"
    and "accept_one A fd as bs (ob, e\<lparr>accepts := rest\<rparr>) = (Inr (), (ob', e'))"
  shows "histories cs ob' e'"
proof -
  let ?e = "e\<lparr>accepts := rest\<rparr>" and ?p = "next_ptr ob"
  let ?s = "(accepted_session fd (next_id ob) as bs ?e)\<lparr>registered := True\<rparr>"
  note H = historiesD [OF assms(1)]
  have inv: "server_inv ob ?e" using H(1) by (simp add: server_inv_def)
  obtain made where made: "cs = made @ connections (accepts e)" "length made = ?p" using H(3) by blast
  have trace: "delivered q (trace e') = delivered q (trace e)" "closings q (trace e') = closings q (trace e)" for q
    using accept_one_trace [OF assms(3)] by simp_all
  have ob': "ob' = ob\<lparr>next_ptr := Suc ?p, next_id := next_id ob + 1, heap := (heap ob)(?p \<mapsto> ?s)\<rparr>"
    using assms(3) by (cases rule: accept_one_run) simp
  have new: "heap ob ?p = None"
    using inv by (cases "heap ob ?p") (auto simp: server_inv_def heap_inv_def)
  obtain h where h: "message_cb ?e = Some h" using H(2) by auto
  have "history_inv ?p (accepted_session fd (next_id ob) as bs ?e, e', [], [])"
    by (rule accepted_inv [OF h]) (use H(5) [OF new] trace in simp_all)
  then have first: "history_inv ?p (?s, e', [], [])"
    by (simp add: history_inv_def accepted_session_def set_close_handler_def set_message_handler_def new_session_def
        queue_ok_def out_stream_def unsent_def)
  have fed: "fed (fst (snd (cs ! ?p))) ?s []"
    using made assms(2) by (auto simp: fed_def nth_append accepted_session_def set_close_handler_def
        set_message_handler_def intro!: exI [of _ 0])
  have "\<exists>acc inp. history_inv q (s, e', acc, inp) \<and> fed (fst (snd (cs ! q))) s inp" if "heap ob' q = Some s" for q s
  proof (cases "q = ?p")
    case True
    then have "s = ?s" using that by (simp add: ob')
    then show ?thesis using True first fed by blast
  next
    case False
    then have "heap ob q = Some s" using that by (simp add: ob')
    from H(4) [OF this] obtain acc inp where "history_inv q (s, e, acc, inp)" "fed (fst (snd (cs ! q))) s inp" by blast
    then show ?thesis using history_inv_trace [OF trace] by blast
  qed
  moreover have "cs = (made @ [(fd, as, bs)]) @ connections (accepts e')"
    using made(1) assms(2) accept_one_installed(2) [OF assms(3)] by simp
  moreover have "length (made @ [(fd, as, bs)]) = next_ptr ob'" using made(2) by (simp add: ob')
  moreover have "delivered q (trace e') = [] \<and> closings q (trace e') = 0" if "heap ob' q = None" for q
    using H(5) [of q] that trace by (auto simp: ob' split: if_splits)
  moreover have "message_cb e' \<noteq> None" using accept_one_installed(1) [OF assms(3)] H(2) by auto
  ultimately show ?thesis
    unfolding histories_def using accept_one_inv [OF inv assms(3)] by blast
qed

lemma accept_from_histories:
  "histories cs ob e \<Longrightarrow> accepts e = as \<Longrightarrow> accept_from A as (ob, e) = (Inr (), (ob', e')) \<Longrightarrow> histories cs ob' e'"
proof (induction A as "(ob, e)" arbitrary: ob e rule: accept_from.induct)
  case (1 A ob e)
  then show ?case
    using histories_env [OF "1.prems"(1), of "e\<lparr>cerrno := EAGAIN\<rparr>"] by (auto simp: histories_def server_inv_def)
next
  case (2 A err rest ob e)
  let ?e = "e\<lparr>accepts := rest, cerrno := err\<rparr>"
  have "histories cs ob ?e"
    by (rule histories_env [OF "2.prems"(1)]) (use "2.prems"(1,2) in \<open>simp_all add: histories_def server_inv_def\<close>)
  then show ?case
    using "2.hyps" "2.prems"(3) by (auto simp: Let_def on_snd_run throw_system_error_def split: if_splits)
next
  case (3 A fd as bs rest ob e)
  obtain ob1 e1 where one: "accept_one A fd as bs (ob, e\<lparr>accepts := rest\<rparr>) = (Inr (), (ob1, e1))"
    and rest: "accept_from A rest (ob1, e1) = (Inr (), (ob', e'))"
    using "3.prems"(3) by (auto simp: seq_run split: prod.splits sum.splits)
  show ?case
    by (rule "3.hyps" [OF accept_one_histories [OF "3.prems"(1,2) one] _ rest])
       (simp add: accept_one_installed(2) [OF one])
qed

section \<open>What the loop runs\<close>

text \<open>An operation on one session, which leaves the others alone\<close>

lemma with_session_histories:
  assumes "histories cs ob e" and "with_session p m (ob, e) = (Inr (), (ob', e'))" and "server_inv ob' e'"
    and "\<And>s s'. heap ob p = Some s \<Longrightarrow> m (s, e) = (Inr (), (s', e')) \<Longrightarrow> op_frame sessions erase_closed p s e s' e'"
    and "\<And>s s' acc inp. heap ob p = Some s \<Longrightarrow> m (s, e) = (Inr (), (s', e')) \<Longrightarrow>
      \<exists>acc' inp'. advances (server_hooks A) p (s, e, acc, inp) (s', e', acc', inp')"
    and "message_cb e' = message_cb e" and "accepts e' = accepts e"
  shows "histories cs ob' e'"
  using assms(2)
proof (cases rule: with_session_cases)
  case absent
  then show ?thesis using assms(1) by simp
next
  case (present s s')
  note H = historiesD [OF assms(1)]
  have others: "delivered q (trace e') = delivered q (trace e)" "closings q (trace e') = closings q (trace e)" if "q \<noteq> p" for q
    using assms(4) [OF present(1,2)] that by (simp_all add: op_frame_def)
  have "\<exists>acc inp. history_inv q (t, e', acc, inp) \<and> fed (fst (snd (cs ! q))) t inp" if "heap ob' q = Some t" for q t
  proof (cases "q = p")
    case True
    obtain acc inp where acc: "history_inv p (s, e, acc, inp)" "fed (fst (snd (cs ! p))) s inp"
      using H(4) [OF present(1)] by blast
    obtain acc' inp' where "advances (server_hooks A) p (s, e, acc, inp) (s', e', acc', inp')"
      using assms(5) [OF present(1,2)] by blast
    then have "history_inv p (s', e', acc', inp')" "fed (fst (snd (cs ! p))) s' inp'"
      using acc srv.session_step_inv by (auto simp: advances_def)
    then show ?thesis using that True present(3) by auto
  next
    case False
    then have "heap ob q = Some t" using that present(3) by simp
    from H(4) [OF this] obtain acc inp where "history_inv q (t, e, acc, inp)" "fed (fst (snd (cs ! q))) t inp" by blast
    then show ?thesis using history_inv_trace [OF others [OF False]] by blast
  qed
  moreover have "delivered q (trace e') = [] \<and> closings q (trace e') = 0" if "heap ob' q = None" for q
    using that H(5) [of q] others [of q] present(3) by (auto split: if_splits)
  moreover have "\<exists>made. cs = made @ connections (accepts e') \<and> length made = next_ptr ob'"
    using H(3) assms(7) present(3) by simp
  moreover have "message_cb e' \<noteq> None" using H(2) assms(6) by auto
  ultimately show ?thesis unfolding histories_def using assms(3) by blast
qed

lemma handler_histories:
  assumes "histories cs ob e" and "server_run_handler A h ev (ob, e) = (Inr (), (ob', e'))"
  shows "histories cs ob' e'"
proof (cases h)
  case DrainWakeup
  then have d: "drain_wakeup e = (Inr (), e')" "ob' = ob" using assms(2) by (auto simp: on_snd_run split: prod.splits)
  note f = drain_wakeup_frame [OF d(1)]
  have "server_inv ob' e'" by (rule server_run_handler_inv [OF _ assms(2)]) (use assms(1) in \<open>simp add: histories_def\<close>)
  then show ?thesis
    using histories_env [OF assms(1), of e'] server_members_more [OF f(5)] event_loop_more_trace [OF f(5)] d(2) by simp
next
  case (SessionEvents p)
  then have w: "with_session p (handle_events (server_hooks A) p ev) (ob, e) = (Inr (), (ob', e'))" using assms(2) by simp
  have keep: "message_cb e' = message_cb e \<and> accepts e' = accepts e"
    using keeps_pair_run [OF installed.keeps_with_session [OF installed.keeps_handle_events] w] by blast
  have queues: "queue_ok s" if "heap ob p = Some s" for s
    using server_inv_queues [OF historiesD(1) [OF assms(1)]] that by (simp add: queues_ok_def)
  show ?thesis
  proof (rule with_session_histories [OF assms(1) w server_run_handler_inv [OF historiesD(1) [OF assms(1)] assms(2)]])
    fix s s' acc inp
    assume s: "heap ob p = Some s" and run: "handle_events (server_hooks A) p ev (s, e) = (Inr (), (s', e'))"
    show "op_frame sessions erase_closed p s e s' e'" by (rule srv.handle_events_frames [OF run queues [OF s]])
    show "\<exists>acc' inp'. advances (server_hooks A) p (s, e, acc, inp) (s', e', acc', inp')"
      using srv.advances_events [OF run] by blast
  qed (use keep in simp_all)
next
  case AcceptEvents
  then show ?thesis
    using assms accept_from_histories [OF assms(1) refl] by (auto simp: accept_loop_def split: if_splits)
qed

lemma task_histories:
  assumes "histories cs ob e" and "task_ok t" and "server_run_task A t (ob, e) = (Inr (), (ob', e'))"
  shows "histories cs ob' e'"
proof -
  have queues: "queue_ok s" if "heap ob p = Some s" for p s
    using server_inv_queues [OF historiesD(1) [OF assms(1)]] that by (simp add: queues_ok_def)
  have keep: "message_cb e' = message_cb e \<and> accepts e' = accepts e"
    using keeps_pair_run [OF installed.keeps_run_task] assms(3) unfolding server_run_task_def by blast
  have inv: "server_inv ob' e'" by (rule server_run_task_inv [OF historiesD(1) [OF assms(1)] assms(2,3)])
  show ?thesis
  proof (cases t)
    case (SendTask p frame cb)
    then have w: "with_session p (run_send (server_hooks A) p frame cb) (ob, e) = (Inr (), (ob', e'))" and f: "frame \<noteq> []"
      using assms(2,3) by (simp_all add: server_run_task_def)
    show ?thesis
    proof (rule with_session_histories [OF assms(1) w inv])
      fix s s' acc inp
      assume s: "heap ob p = Some s" and run: "run_send (server_hooks A) p frame cb (s, e) = (Inr (), (s', e'))"
      show "op_frame sessions erase_closed p s e s' e'" by (rule srv.run_send_frames [OF run queues [OF s] f])
      show "\<exists>acc' inp'. advances (server_hooks A) p (s, e, acc, inp) (s', e', acc', inp')"
        using srv.advances_sends [OF run f] by blast
    qed (use keep in simp_all)
  next
    case (CloseTask p)
    then have w: "with_session p (close_from_loop (server_hooks A) p) (ob, e) = (Inr (), (ob', e'))"
      using assms(3) by (simp add: server_run_task_def)
    show ?thesis
    proof (rule with_session_histories [OF assms(1) w inv])
      fix s s' acc inp
      assume s: "heap ob p = Some s" and run: "close_from_loop (server_hooks A) p (s, e) = (Inr (), (s', e'))"
      show "op_frame sessions erase_closed p s e s' e'" by (rule srv.close_from_loop_frames [OF run])
      show "\<exists>acc' inp'. advances (server_hooks A) p (s, e, acc, inp) (s', e', acc', inp')"
        using srv.advances_closes [OF run] by blast
    qed (use keep in simp_all)
  qed
qed

interpretation srv_histories: loop_invariant "server_run_task A" "server_run_handler A" "histories cs" task_ok
  for A :: "'u app" and cs
proof unfold_locales
  fix ob ob' t h ev and e e' :: "'u server"
  show "histories cs ob e \<Longrightarrow> task_ok t \<Longrightarrow> server_run_task A t (ob, e) = (Inr (), (ob', e')) \<Longrightarrow> histories cs ob' e'"
    by (rule task_histories)
  show "histories cs ob e \<Longrightarrow> server_run_handler A h ev (ob, e) = (Inr (), (ob', e')) \<Longrightarrow> histories cs ob' e'"
    by (rule handler_histories)
  show "histories cs ob e \<Longrightarrow> list_all task_ok (tasks e)" using historiesD(1) srv_run.inv_queue by blast
  show "histories cs ob e'" if "histories cs ob e" "handlers e' = handlers e" "list_all task_ok (tasks e')"
    "event_loop.more e' = event_loop.more e"
    using histories_env [OF that(1) srv_run.inv_loop [OF historiesD(1) [OF that(1)] that(2-4)]]
      server_members_more [OF that(4)] event_loop_more_trace [OF that(4)] by simp
qed

text \<open>
  C6. Every session of the server, at every moment of every interleaved run: it is the next connection
  that accept4 answered; the messages handed to its handler are exactly those of the bytes that recv has
  answered so far, in order and each once, but for the bytes of a last read that ended in end of file or an error:
  those are dropped, and the session is then closed; and its close handler has been called once if it is closed,
  else never.
\<close>

theorem server_sessions_throughout:
  assumes "server_steps A (Entering, no_objects, e) (pc, ob', e')" and "\<nexists>x. pc = Left (Some x)"
    and "server_begins e" and "message_cb e \<noteq> None" and "heap ob' q = Some s"
  shows "\<exists>fd as bs n. connections (accepts e) ! q = (fd, as, bs) \<and> q < length (connections (accepts e)) \<and>
    rx s = drop n as \<and> delivered q (trace e') = fst (parse_stream decode (read_out (take n as))) \<and>
    (read_out (take n as) = recv_bytes (take n as) \<or> \<not> is_open s \<and> closing_answer (last (take n as))) \<and>
    closings q (trace e') = (if is_open s then 0 else 1)"
proof -
  have "histories (connections (accepts e)) no_objects e"
    using server_begins_inv [OF assms(3)] assms(3,4)
    by (auto simp: histories_def server_begins_def no_objects_def closings_def)
  then have H: "histories (connections (accepts e)) ob' e'"
    using srv_histories.run_steps_inv [OF assms(1) _ _ assms(2)] by simp
  obtain made where made: "connections (accepts e) = made @ connections (accepts e')" "length made = next_ptr ob'"
    using historiesD(3) [OF H] by blast
  moreover have "q < next_ptr ob'" using historiesD(1) [OF H] assms(5) by (auto simp: server_inv_def heap_inv_def)
  ultimately have "q < length (connections (accepts e))" by simp
  moreover obtain fd as bs where "connections (accepts e) ! q = (fd, as, bs)" by (rule prod_cases3)
  moreover obtain acc inp where h: "history_inv q (s, e', acc, inp)" and fed: "fed (fst (snd (connections (accepts e) ! q))) s inp"
    using historiesD(4) [OF H assms(5)] by blast
  moreover from fed obtain n where n: "rx s = drop n (fst (snd (connections (accepts e) ! q)))"
    "recv_bytes (take n (fst (snd (connections (accepts e) ! q)))) = recv_bytes inp"
    "read_out (take n (fst (snd (connections (accepts e) ! q)))) = read_out inp"
    "settled inp \<or> closing_answer (last (take n (fst (snd (connections (accepts e) ! q)))))"
    unfolding fed_def by blast
  moreover have "delivered q (trace e') = fst (parse_stream decode (read_out inp))" "is_open s \<Longrightarrow> settled inp"
    "closings q (trace e') = (if is_open s then 0 else 1)"
    using h by (simp_all add: history_inv_def split: if_splits)
  moreover have "settled inp \<Longrightarrow> read_out inp = recv_bytes inp" by (rule settled_read_out)
  ultimately show ?thesis by (intro exI [of _ fd] exI [of _ as] exI [of _ bs] exI [of _ n]) auto
qed

theorem server_sessions_throughout_witness:
  "\<exists>ob' e' s n. server_steps echo_app (Entering, no_objects, test_server) (Left None, ob', e') \<and> heap ob' 0 = Some s \<and>
     rx s = drop n [RecvBytes [0, 0, 0, 0], RecvError EAGAIN] \<and>
     delivered 0 (trace e') = fst (parse_stream decode (read_out (take n [RecvBytes [0, 0, 0, 0], RecvError EAGAIN])))"
proof -
  obtain ob' e' s where run: "server_steps echo_app (Entering, no_objects, test_server) (Left None, ob', e')"
    and s: "heap ob' 0 = Some s" by (rule test_steps)
  have "connections (accepts test_server) = [(7, [RecvBytes [0, 0, 0, 0], RecvError EAGAIN], [SendBytes 100])]"
    by (simp add: test_server_def)
  with server_sessions_throughout [OF run _ test_begins _ s] test_server_trace(1) run s show ?thesis by fastforce
qed

end
