(* ===== verification/Cuda_Runtime.thy ===== *)
theory Cuda_Runtime
  imports Prelude
begin

text \<open>
  What the benchmark programs use of the CUDA runtime: device memory, launches, the two kinds of
  error a launch can leave behind, events and the clock; and \<^verbatim>\<open>CHECK_CUDA\<close>, which ends the process at
  the first call that fails. A program is a \<open>prog\<close> on the state of the device.

  The runtime belongs to CUDA C++; a call that succeeds does what its documentation says. Whether it
  does is a parameter: \<open>api_errors\<close> holds the results of the next calls (0 is
  \<^verbatim>\<open>cudaSuccess\<close>; when none is left, calls succeed), \<open>event_ms\<close> and \<open>clock_ms\<close> the times that will be
  measured, \<open>garbage\<close> what fresh memory holds. What a device does when a kernel leaves its buffers is not
  specified, and a parameter too: \<open>overruns\<close> holds what becomes of the next such launches, either a
  fault (\<open>None\<close>; also when none is left), or nothing that anyone notices, with any numbers in the
  buffers (\<open>Some\<close>); \<open>strayed\<close> records that it has happened. What is printed on standard output is logged in
  \<open>printed\<close>; the messages on standard error are not modelled.
\<close>

section \<open>The device\<close>

datatype ending = Exit int | Killed  \<comment> \<open>\<^verbatim>\<open>std::exit\<close>; a signal or \<^verbatim>\<open>std::terminate\<close>\<close>

record ('d, 'l) device =
  api_errors :: "nat list"
  memory :: "nat \<rightharpoonup> 'd list"
  next_pointer :: nat
  live_events :: "nat set"
  next_event :: nat
  launch_error :: nat
  fault :: nat
  strayed :: bool
  overruns :: "(nat \<Rightarrow> nat \<Rightarrow> 'd) option list"
  event_ms :: "'d list"
  clock_ms :: "'d list"
  garbage :: "nat \<Rightarrow> 'd"
  launches :: nat
  printed :: "'l list"

text \<open>Pointers and events that were never handed out are not in use.\<close>

definition device_ok :: "('d, 'l) device \<Rightarrow> bool" where
  "device_ok d \<longleftrightarrow> (\<forall>p \<ge> next_pointer d. memory d p = None) \<and> (\<forall>e \<ge> next_event d. e \<notin> live_events d)"

text \<open>A device on which nothing has happened yet, every call will succeed, and every time is \<open>t\<close>\<close>

definition fresh_device :: "'d \<Rightarrow> nat \<Rightarrow> ('d::zero, 'l) device" where
  "fresh_device t n =
     \<lparr>api_errors = [], memory = Map.empty, next_pointer = 1, live_events = {}, next_event = 1, launch_error = 0,
      fault = 0, strayed = False, overruns = [], event_ms = replicate n t, clock_ms = replicate n t, garbage = (\<lambda>_. 0), launches = 0, printed = []\<rparr>"

lemma fresh_device_simps [simp]:
  "memory (fresh_device t n) = Map.empty" "live_events (fresh_device t n) = {}" "fault (fresh_device t n) = 0"
  "strayed (fresh_device t n) = False" "overruns (fresh_device t n) = []"
  "event_ms (fresh_device t n) = replicate n t" "clock_ms (fresh_device t n) = replicate n t"
  "launches (fresh_device t n) = 0" "printed (fresh_device t n) = []"
  by (simp_all add: fresh_device_def)

section \<open>Calls\<close>

text \<open>
  \<^verbatim>\<open>CHECK_CUDA(call)\<close>, where \<open>m\<close> is what a successful call does. After a fault of a kernel every call
  fails.
\<close>

definition checked :: "(ending, ('d, 'l) device, 'a) prog \<Rightarrow> (ending, ('d, 'l) device, 'a) prog" where
  "checked m = (\<lambda>d.
     if fault d \<noteq> 0 then throw (Exit 1) d
     else case api_errors d of
            [] \<Rightarrow> m d
          | err # errs \<Rightarrow>
              (let d = d\<lparr>api_errors := errs\<rparr> in if err \<noteq> 0 then throw (Exit 1) d else m d))"

definition cudaMalloc :: "u64 \<Rightarrow> (ending, ('d, 'l) device, nat) prog" where
  "cudaMalloc bytes = (\<lambda>d.
     (Inr (next_pointer d), d\<lparr>memory := (memory d)(next_pointer d \<mapsto> map (garbage d) [0..<unat bytes div 4]),
                              next_pointer := next_pointer d + 1\<rparr>))"

definition cudaFree :: "nat \<Rightarrow> (ending, ('d, 'l) device, unit) prog" where
  "cudaFree p = upd (\<lambda>d. d\<lparr>memory := (memory d)(p := None)\<rparr>)"

text \<open>\<^verbatim>\<open>cudaMemset\<close> of a whole buffer; \<open>v\<close> is the number whose bytes all have the given value.\<close>

definition cudaMemset :: "nat \<Rightarrow> 'd \<Rightarrow> (ending, ('d, 'l) device, unit) prog" where
  "cudaMemset p v = upd (\<lambda>d. d\<lparr>memory := (memory d)(p := map_option (map (\<lambda>_. v)) (memory d p))\<rparr>)"

text \<open>A copy from the host that fills the buffer\<close>

definition cudaMemcpy :: "nat \<Rightarrow> (nat \<Rightarrow> 'd) \<Rightarrow> (ending, ('d, 'l) device, unit) prog" where
  "cudaMemcpy p host =
     upd (\<lambda>d. d\<lparr>memory := (memory d)(p := map_option (\<lambda>xs. map host [0..<length xs]) (memory d p))\<rparr>)"

definition cudaDeviceSynchronize :: "(ending, ('d, 'l) device, unit) prog" where
  "cudaDeviceSynchronize = ret ()"

text \<open>\<^verbatim>\<open>CHECK_CUDA(cudaGetLastError())\<close>\<close>

definition checked_last_error :: "(ending, ('d, 'l) device, unit) prog" where
  "checked_last_error =
     checked (\<lambda>d. if launch_error d \<noteq> 0 then throw (Exit 1) (d\<lparr>launch_error := 0\<rparr>) else ret () d)"

definition cudaEventCreate :: "(ending, ('d, 'l) device, nat) prog" where
  "cudaEventCreate = (\<lambda>d.
     (Inr (next_event d), d\<lparr>live_events := insert (next_event d) (live_events d), next_event := next_event d + 1\<rparr>))"

definition cudaEventDestroy :: "nat \<Rightarrow> (ending, ('d, 'l) device, unit) prog" where
  "cudaEventDestroy e = upd (\<lambda>d. d\<lparr>live_events := live_events d - {e}\<rparr>)"

definition cudaEventRecord :: "nat \<Rightarrow> (ending, ('d, 'l) device, unit) prog" where
  "cudaEventRecord e = ret ()"

definition cudaEventElapsedTime :: "nat \<Rightarrow> nat \<Rightarrow> (ending, ('d::zero, 'l) device, 'd) prog" where
  "cudaEventElapsedTime start stop = (\<lambda>d.
     case event_ms d of [] \<Rightarrow> (Inr 0, d) | t # ts \<Rightarrow> (Inr t, d\<lparr>event_ms := ts\<rparr>))"

text \<open>The difference of two readings of \<^verbatim>\<open>steady_clock\<close>\<close>

definition clock_difference :: "(ending, ('d::zero, 'l) device, 'd) prog" where
  "clock_difference = (\<lambda>d.
     case clock_ms d of [] \<Rightarrow> (Inr 0, d) | t # ts \<Rightarrow> (Inr t, d\<lparr>clock_ms := ts\<rparr>))"

text \<open>What a kernel that left the buffers it was given may do\<close>

definition stray :: "nat list \<Rightarrow> ('d, 'l) device \<Rightarrow> ('d, 'l) device" where
  "stray buffers d =
     (case overruns d of
        [] \<Rightarrow> d\<lparr>strayed := True, fault := 700\<rparr>
      | None # rest \<Rightarrow> d\<lparr>strayed := True, fault := 700, overruns := rest\<rparr>
      | Some w # rest \<Rightarrow>
          d\<lparr>memory := (\<lambda>p. if p \<in> set buffers then map_option (\<lambda>xs. map (w p) [0..<length xs]) (memory d p) else memory d p),
            strayed := True, overruns := rest\<rparr>)"

text \<open>
  A launch, which itself never fails: a refused one (\<open>accepted\<close> is false) leaves an error for
  \<^verbatim>\<open>cudaGetLastError\<close>. \<open>ker\<close> computes what the memory becomes (which may depend on the launch, given by its
  number), \<open>None\<close> for an access outside.
\<close>

definition launch ::
  "bool \<Rightarrow> nat list \<Rightarrow> (nat \<Rightarrow> (nat \<rightharpoonup> 'd list) \<Rightarrow> (nat \<rightharpoonup> 'd list) option) \<Rightarrow> (ending, ('d, 'l) device, unit) prog" where
  "launch accepted buffers ker = upd (\<lambda>d.
     if \<not> accepted then d\<lparr>launch_error := 9\<rparr>
     else if fault d \<noteq> 0 then d
     else case ker (launches d) (memory d) of
            None \<Rightarrow> stray buffers (d\<lparr>launches := launches d + 1\<rparr>)
          | Some mem \<Rightarrow> d\<lparr>memory := mem, launches := launches d + 1\<rparr>)"

definition print :: "'l \<Rightarrow> (ending, ('d, 'l) device, unit) prog" where
  "print line = upd (\<lambda>d. d\<lparr>printed := printed d @ [line]\<rparr>)"

text \<open>\<^verbatim>\<open>for (int i = 0; i < n; ++i)\<close> with a body that does not look at \<^verbatim>\<open>i\<close>; \<open>a\<close> is what it updates.\<close>

fun iterate :: "nat \<Rightarrow> ('a \<Rightarrow> ('x, 's, 'a) prog) \<Rightarrow> 'a \<Rightarrow> ('x, 's, 'a) prog" where
  "iterate 0 f a = ret a"
| "iterate (Suc n) f a = bind (f a) (iterate n f)"

section \<open>What a program ends in\<close>

text \<open>\<open>ends m X Q s\<close>: run from \<open>s\<close>, \<open>m\<close> returns with \<open>Q\<close> or ends the process with \<open>X\<close>.\<close>

definition ends :: "('x, 's, 'a) prog \<Rightarrow> ('x \<Rightarrow> 's \<Rightarrow> bool) \<Rightarrow> ('a \<Rightarrow> 's \<Rightarrow> bool) \<Rightarrow> 's \<Rightarrow> bool" where
  "ends m X Q s = (case m s of (Inl x, s') \<Rightarrow> X x s' | (Inr v, s') \<Rightarrow> Q v s')"

named_theorems ends_simps "the rules that take a program apart under ends"

lemma ends_ret [ends_simps]: "ends (ret v) X Q s \<longleftrightarrow> Q v s"
  by (simp add: ends_def)

lemma ends_throw [ends_simps]: "ends (throw x) X Q s \<longleftrightarrow> X x s"
  by (simp add: ends_def)

lemma ends_upd [ends_simps]: "ends (upd g) X Q s \<longleftrightarrow> Q () (g s)"
  by (simp add: ends_def)

lemma ends_bind [ends_simps]: "ends (bind m f) X Q s \<longleftrightarrow> ends m X (\<lambda>v. ends (f v) X Q) s"
  by (simp add: ends_def bind_run split: prod.split sum.split)

lemma ends_seq [ends_simps]: "ends (seq m k) X Q s \<longleftrightarrow> ends m X (\<lambda>_. ends k X Q) s"
  by (simp add: seq_def ends_bind)

lemma ends_mono: "ends m X Q s \<Longrightarrow> (\<And>v s. Q v s \<Longrightarrow> Q' v s) \<Longrightarrow> (\<And>x s. X x s \<Longrightarrow> X' x s) \<Longrightarrow> ends m X' Q' s"
  by (auto simp: ends_def split: prod.splits sum.splits)

lemma ends_iterate:
  assumes "I 0 a s" and "\<And>i a s. i < n \<Longrightarrow> I i a s \<Longrightarrow> ends (f a) X (I (Suc i)) s"
  shows "ends (iterate n f a) X (I n) s"
  using assms
proof (induction n arbitrary: I a s)
  case (Suc n)
  have "ends (f a) X (I (Suc 0)) s" using Suc.prems by simp
  then have "ends (f a) X (\<lambda>a. ends (iterate n f a) X (I (Suc n))) s"
    by (rule ends_mono) (use Suc.prems(2) in \<open>auto intro: Suc.IH [where I = "\<lambda>i. I (Suc i)"]\<close>)
  then show ?case by (simp add: ends_bind)
qed (simp add: ends_ret)

text \<open>
  Every answer still to come is a success, and so was every launch.
\<close>

definition calm :: "('d, 'l) device \<Rightarrow> bool" where
  "calm d \<longleftrightarrow> (\<forall>err \<in> set (api_errors d). err = 0) \<and> fault d = 0 \<and> launch_error d = 0"

lemma fresh_device_ok [simp]: "device_ok (fresh_device t n)" and fresh_calm [simp]: "calm (fresh_device t n)"
  by (simp_all add: fresh_device_def device_ok_def calm_def)

section \<open>What a program owns\<close>

text \<open>
  A program started on the device \<open>d0\<close> owns buffers, with their lengths (\<open>sz\<close>), and events; all the
  rest is as it was.
\<close>

definition owns :: "('d, 'l) device \<Rightarrow> (nat \<rightharpoonup> nat) \<Rightarrow> nat set \<Rightarrow> ('d, 'l) device \<Rightarrow> bool" where
  "owns d0 sz es d \<longleftrightarrow>
     device_ok d0 \<and> device_ok d \<and> next_pointer d0 \<le> next_pointer d \<and> next_event d0 \<le> next_event d
     \<and> (\<forall>p \<in> dom sz. next_pointer d0 \<le> p \<and> p < next_pointer d) \<and> (\<forall>e \<in> es. next_event d0 \<le> e)
     \<and> (\<forall>p. sz p = None \<longrightarrow> memory d p = memory d0 p)
     \<and> (\<forall>p n. sz p = Some n \<longrightarrow> map_option length (memory d p) = Some n)
     \<and> live_events d = live_events d0 \<union> es"

lemma owns_start: "device_ok d0 \<Longrightarrow> owns d0 Map.empty {} d0"
  by (simp add: owns_def)

lemma owns_nothing: "owns d0 Map.empty {} d \<Longrightarrow> device_ok d \<and> memory d = memory d0 \<and> live_events d = live_events d0"
  by (auto simp: owns_def)

lemma owns_update [simp]:
  "owns d0 sz es (d\<lparr>api_errors := errs\<rparr>) = owns d0 sz es d"
  "owns d0 sz es (d\<lparr>launch_error := err\<rparr>) = owns d0 sz es d"
  "owns d0 sz es (d\<lparr>event_ms := ts\<rparr>) = owns d0 sz es d"
  "owns d0 sz es (d\<lparr>clock_ms := ts\<rparr>) = owns d0 sz es d"
  "owns d0 sz es (d\<lparr>printed := out\<rparr>) = owns d0 sz es d"
  "owns d0 sz es (d\<lparr>fault := err\<rparr>) = owns d0 sz es d"
  "owns d0 sz es (d\<lparr>launches := k\<rparr>) = owns d0 sz es d"
  "owns d0 sz es (d\<lparr>strayed := s\<rparr>) = owns d0 sz es d"
  "owns d0 sz es (d\<lparr>overruns := rest\<rparr>) = owns d0 sz es d"
  by (simp_all add: owns_def device_ok_def)

lemma owns_malloc:
  assumes "owns d0 sz es d" and "length xs = n"
  shows "owns d0 (sz(next_pointer d \<mapsto> n)) es
    (d\<lparr>memory := (memory d)(next_pointer d \<mapsto> xs), next_pointer := Suc (next_pointer d)\<rparr>)"
  using assms by (auto simp: owns_def device_ok_def less_Suc_eq)

text \<open>What keeps the lengths of the buffers and leaves the others alone\<close>

definition same_shape :: "(nat \<rightharpoonup> nat) \<Rightarrow> (nat \<rightharpoonup> 'd list) \<Rightarrow> (nat \<rightharpoonup> 'd list) \<Rightarrow> bool" where
  "same_shape sz mem mem' \<longleftrightarrow> (\<forall>p. map_option length (mem' p) = map_option length (mem p))
     \<and> (\<forall>p. sz p = None \<longrightarrow> mem' p = mem p)"

lemma owns_same_shape:
  assumes "owns d0 sz es d" and "same_shape sz (memory d) mem"
  shows "owns d0 sz es (d\<lparr>memory := mem\<rparr>)"
proof -
  have "mem p = None \<longleftrightarrow> memory d p = None" for p
    using assms(2) unfolding same_shape_def by (metis map_option_is_None)
  then show ?thesis using assms by (auto simp: owns_def device_ok_def same_shape_def)
qed

text \<open>A kernel that strays may fill its buffers with anything, no more.\<close>

lemma owns_stray:
  assumes "owns d0 sz es d" and "set buffers \<subseteq> dom sz"
  shows "owns d0 sz es (stray buffers d)"
proof -
  have "same_shape sz (memory d)
      (\<lambda>p. if p \<in> set buffers then map_option (\<lambda>xs. map (w p) [0..<length xs]) (memory d p) else memory d p)" for w
    using assms(2) by (auto simp: same_shape_def option.map_comp comp_def)
  from owns_same_shape [OF assms(1) this] show ?thesis
    using assms(1) by (auto simp: stray_def split: list.split option.split)
qed

lemma stray_simps [simp]:
  "strayed (stray buffers d)" "launches (stray buffers d) = launches d" "printed (stray buffers d) = printed d"
  "event_ms (stray buffers d) = event_ms d" "clock_ms (stray buffers d) = clock_ms d"
  "api_errors (stray buffers d) = api_errors d" "launch_error (stray buffers d) = launch_error d"
  by (simp_all add: stray_def split: list.split option.split)

lemma owns_free:
  assumes "owns d0 sz es d" and "p \<in> dom sz"
  shows "owns d0 (sz(p := None)) es (d\<lparr>memory := (memory d)(p := None)\<rparr>)"
  using assms by (auto simp: owns_def device_ok_def)

lemma owns_event_create:
  assumes "owns d0 sz es d"
  shows "owns d0 sz (insert (next_event d) es)
    (d\<lparr>live_events := insert (next_event d) (live_events d), next_event := Suc (next_event d)\<rparr>)"
  using assms by (auto simp: owns_def device_ok_def)

lemma owns_event_destroy:
  assumes "owns d0 sz es d" and "e \<in> es"
  shows "owns d0 sz (es - {e}) (d\<lparr>live_events := live_events d - {e}\<rparr>)"
  using assms by (auto simp: owns_def device_ok_def)

end
