(* ===== verification/Strided_Loop.thy ===== *)
theory Strided_Loop
  imports Main Prelude "HOL-Library.Multiset"
begin

text \<open>
  The loop that the CUDA kernels share out work with, \<^verbatim>\<open>for (int c = tid; c < n; c += blockDim.x)\<close>: the
  threads of a block together visit every index below \<^verbatim>\<open>n\<close> exactly once. The block is not empty
  (such a launch is refused), so the loop ends.
\<close>

function strided :: "nat \<Rightarrow> nat \<Rightarrow> nat \<Rightarrow> nat list" where
  "strided c step n = (if c < n \<and> 0 < step then c # strided (c + step) step n else [])"
  by pat_completeness auto
termination
  by (relation "measure (\<lambda>(c, step, n). n - c)") auto

declare strided.simps [simp del]

lemma strided_step: "c < n \<Longrightarrow> 0 < step \<Longrightarrow> strided c step n = c # strided (c + step) step n"
  by (subst strided.simps) simp

lemma strided_end: "n \<le> c \<Longrightarrow> strided c step n = []"
  by (subst strided.simps) simp

lemma next_congruent: "(c :: nat) \<le> i \<Longrightarrow> i mod step = c mod step \<Longrightarrow> i = c \<or> c + step \<le> i"
proof -
  assume "c \<le> i" and "i mod step = c mod step"
  then obtain k where "i = c + step * k" by (metis mod_eq_nat1E)
  then show ?thesis by (cases k) simp_all
qed

lemma set_strided:
  "0 < step \<Longrightarrow> set (strided c step n) = {i. c \<le> i \<and> i < n \<and> i mod step = c mod step}"
proof (induction c step n rule: strided.induct)
  case (1 c step n)
  show ?case
  proof (cases "c < n")
    case True
    then have "set (strided c step n) = insert c {i. c + step \<le> i \<and> i < n \<and> i mod step = c mod step}"
      using 1 by (simp add: strided_step)
    then show ?thesis using True next_congruent by fastforce
  qed (auto simp: strided_end)
qed

lemma set_strided_thread: "tid < step \<Longrightarrow> set (strided tid step n) = {i. i < n \<and> i mod step = tid}"
  using mod_less_eq_dividend [of _ step] by (auto simp: set_strided)

lemma distinct_strided: "distinct (strided c step n)"
proof (induction c step n rule: strided.induct)
  case (1 c step n)
  show ?case
  proof (cases "c < n \<and> 0 < step")
    case True
    then show ?thesis using 1 by (simp add: strided_step set_strided)
  next
    case False
    then have "strided c step n = []" by (subst strided.simps) simp
    then show ?thesis by simp
  qed
qed

lemma strided_one: "strided c 1 n = [c..<n]"
  by (induction c "1 :: nat" n rule: strided.induct) (metis strided_step strided_end upt_rec Suc_eq_plus1 zero_less_one not_less upt_conv_Nil)

text \<open>All the visits of a block, thread after thread.\<close>

definition visits :: "nat \<Rightarrow> nat \<Rightarrow> nat list" where
  "visits step n = concat (map (\<lambda>tid. strided tid step n) [0..<step])"

lemma set_visits: "0 < step \<Longrightarrow> set (visits step n) = {..<n}"
  by (auto simp: visits_def set_strided_thread)

lemma distinct_visits: "distinct (visits step n)"
proof -
  have "distinct (concat (map (\<lambda>tid. strided tid step n) [0..<m]))" if "m \<le> step" for m
    using that by (induction m) (auto simp: distinct_strided set_strided_thread)
  then show ?thesis by (simp add: visits_def)
qed

lemma mset_visits: "0 < step \<Longrightarrow> mset (visits step n) = mset [0..<n]"
  by (subst set_eq_iff_mset_eq_distinct [symmetric]) (simp_all add: distinct_visits set_visits atLeast0LessThan)

lemma fold_threads:
  "fold (\<lambda>tid. fold g (strided tid step n)) [0..<step] s = fold g (visits step n) s"
proof -
  have "fold (\<lambda>tid. fold g (strided tid step n)) [0..<m] s
      = fold g (concat (map (\<lambda>tid. strided tid step n) [0..<m])) s" for m
    by (induction m) simp_all
  then show ?thesis by (simp add: visits_def)
qed

text \<open>The writes of such a loop, when the value depends on the index only and when it is the old value changed.\<close>

lemma length_fold_update [simp]: "length (fold (\<lambda>c y. y[f c := e c y]) cs y) = length y"
  by (induction cs arbitrary: y) simp_all

lemma fold_write_nth:
  assumes "i < length y"
  shows "fold (\<lambda>c y. y[base + c := e c]) cs y ! i
    = (if base \<le> i \<and> i - base \<in> set cs then e (i - base) else y ! i)"
  using assms by (induction cs arbitrary: y) (auto simp: nth_list_update)

lemma fold_change_nth:
  assumes "i < length y" and "distinct cs"
  shows "fold (\<lambda>c y. y[base + c := h (y ! (base + c))]) cs y ! i
    = (if base \<le> i \<and> i - base \<in> set cs then h (y ! i) else y ! i)"
  using assms
proof (induction cs arbitrary: y)
  case (Cons c cs)
  then show ?case by (cases "base \<le> i \<and> i - base = c") (auto simp: nth_list_update)
qed simp

section \<open>Blocks of equal size\<close>

lemma index_bound: "i < m \<Longrightarrow> j < n \<Longrightarrow> i * n + j < m * n" for i j m n :: nat
proof -
  assume "i < m" and "j < n"
  then have "i * n + j < Suc i * n" by simp
  also have "\<dots> \<le> m * n" using \<open>i < m\<close> by (intro mult_le_mono1) simp
  finally show ?thesis .
qed

lemma concat_upt: "concat (map (\<lambda>i. map (f i) [0..<n]) [0..<m]) = map (\<lambda>r. f (r div n) (r mod n)) [0..<m * n]"
proof (induction m)
  case (Suc m)
  have "map (f m) [0..<n] = map (\<lambda>r. f (r div n) (r mod n)) [m * n..<m * n + n]"
    by (intro nth_equalityI) simp_all
  moreover have "[0..<Suc m * n] = [0..<m * n] @ [m * n..<m * n + n]"
    using upt_add_eq_append [of 0 "m * n" n] by (simp add: add.commute)
  ultimately show ?case using Suc by simp
qed simp

lemma fold_if_filter: "fold (\<lambda>k st. if P k then g k st else st) ks st = fold g (filter P ks) st"
  by (induction ks arbitrary: st) simp_all

lemma fold_blocks: "fold (\<lambda>x. fold (\<lambda>w. g (x * n + w)) [0..<n]) [0..<m] st = fold g [0..<m * n] st"
proof -
  have "fold (\<lambda>x. fold (\<lambda>w. g (x * n + w)) [0..<n]) xs st
      = fold g (concat (map (\<lambda>x. map (\<lambda>w. x * n + w) [0..<n]) xs)) st" for xs
    by (induction xs arbitrary: st) (simp_all only: fold_append fold_map comp_def fold_simps list.map concat.simps)
  then show ?thesis by (simp only: concat_upt div_mult_mod_eq map_ident)
qed

end
