(* ===== verification/Checked_Arrays.thy ===== *)
theory Checked_Arrays
  imports Prelude
begin

text \<open>
  Accesses to an array that check the index: a read or write outside is \<open>None\<close>, and so is what depends
  on it. The kernels of the benchmarks use no other accesses, so that a run that ends in \<open>Some\<close> has
  stayed in its arrays.
\<close>

section \<open>Reads and writes\<close>

definition peek :: "'a list \<Rightarrow> nat \<Rightarrow> 'a option" where
  "peek xs i = (if i < length xs then Some (xs ! i) else None)"

definition poke :: "nat \<Rightarrow> 'a \<Rightarrow> 'a list \<Rightarrow> 'a list option" where
  "poke i v xs = (if i < length xs then Some (xs[i := v]) else None)"

lemma peek_inside [simp]: "i < length xs \<Longrightarrow> peek xs i = Some (xs ! i)"
  and poke_inside [simp]: "i < length xs \<Longrightarrow> poke i v xs = Some (xs[i := v])"
  by (simp_all add: peek_def poke_def)

lemma peek_outside [simp]: "length xs \<le> i \<Longrightarrow> peek xs i = None"
  and poke_outside [simp]: "length xs \<le> i \<Longrightarrow> poke i v xs = None"
  by (simp_all add: peek_def poke_def)

lemma length_poke: "poke i v xs = Some ys \<Longrightarrow> length ys = length xs"
  by (auto simp: poke_def split: if_splits)

lemma peek_SomeD: "peek xs i = Some v \<Longrightarrow> i < length xs \<and> v = xs ! i"
  by (auto simp: peek_def split: if_splits)

section \<open>Loops of steps that can fail\<close>

declare option_fold.simps(2) [simp del]

lemma option_fold_Cons [simp]: "option_fold f (x # xs) s = Option.bind (f x s) (option_fold f xs)"
  by (simp add: option_fold.simps(2) split: option.split)

lemma option_fold_app: "option_fold f (xs @ ys) s = Option.bind (option_fold f xs s) (option_fold f ys)"
proof (induction xs arbitrary: s)
  case (Cons x xs)
  then show ?case by (cases "f x s") simp_all
qed simp

lemma option_fold_concat: "option_fold (\<lambda>x. option_fold g (f x)) xs s = option_fold g (concat (map f xs)) s"
proof (induction xs arbitrary: s)
  case (Cons x xs)
  then show ?case by (cases "option_fold g (f x) s") (simp_all add: option_fold_app)
qed simp

lemma option_fold_map: "option_fold g (map h xs) s = option_fold (\<lambda>x. g (h x)) xs s"
proof (induction xs arbitrary: s)
  case (Cons x xs)
  then show ?case by (cases "g (h x) s") simp_all
qed simp

text \<open>A loop no step of which fails is the fold of what the steps do.\<close>

lemma option_fold_pure:
  assumes "I s" and "\<And>x s. x \<in> set xs \<Longrightarrow> I s \<Longrightarrow> f x s = Some (g x s) \<and> I (g x s)"
  shows "option_fold f xs s = Some (fold g xs s)" and "I (fold g xs s)"
  using assms by (induction xs arbitrary: s) simp_all

lemma option_fold_total:
  assumes "I s" and "\<And>x s. x \<in> set xs \<Longrightarrow> I s \<Longrightarrow> \<exists>s'. f x s = Some s' \<and> I s'"
  shows "\<exists>s'. option_fold f xs s = Some s' \<and> I s'"
  using assms
proof (induction xs arbitrary: s)
  case (Cons x xs)
  then obtain s1 where "f x s = Some s1" "I s1" by fastforce
  then show ?case using Cons.IH [of s1] Cons.prems(2) by simp
qed simp

lemma option_fold_keeps:
  assumes "option_fold f xs s = Some s'" and "I s" and "\<And>x s s'. x \<in> set xs \<Longrightarrow> f x s = Some s' \<Longrightarrow> I s \<Longrightarrow> I s'"
  shows "I s'"
  using assms
proof (induction xs arbitrary: s)
  case (Cons x xs)
  obtain s1 where s1: "f x s = Some s1" "option_fold f xs s1 = Some s'" using Cons.prems(1) by (cases "f x s") simp_all
  have "I s1" by (rule Cons.prems(3) [OF _ s1(1) Cons.prems(2)]) simp
  from Cons.IH [OF s1(2) this] show ?case by (meson Cons.prems(3) list.set_intros(2))
qed simp

text \<open>A step that fails in every state that comes up makes the loop fail.\<close>

lemma option_fold_fails:
  assumes "x \<in> set xs" and "I s" and "\<And>y s s'. f y s = Some s' \<Longrightarrow> I s \<Longrightarrow> I s'" and "\<And>s. I s \<Longrightarrow> f x s = None"
  shows "option_fold f xs s = None"
  using assms(1,2)
proof (induction xs arbitrary: s)
  case (Cons y ys)
  show ?case
  proof (cases "f y s")
    case (Some s1)
    then have "I s1" using assms(3) Cons.prems(2) by blast
    moreover have "x \<in> set ys" using Cons.prems Some assms(4) by auto
    ultimately show ?thesis using Cons.IH Some by simp
  qed simp
qed simp

lemma those_map_Some [simp]: "those (map (\<lambda>x. Some (f x)) xs) = Some (map f xs)"
  by (induction xs) simp_all

lemma those_map_all: "(\<And>x. x \<in> set xs \<Longrightarrow> f x = Some (g x)) \<Longrightarrow> those (map f xs) = Some (map g xs)"
  by (induction xs) simp_all

lemma length_those: "those xs = Some ys \<Longrightarrow> length ys = length xs"
  by (induction xs arbitrary: ys) (auto split: option.splits)

end
