(* ===== verification/Block_Reduction.thy ===== *)
theory Block_Reduction
  imports Complex_Main Checked_Arrays
begin

text \<open>
  \<^verbatim>\<open>bandwidth-roofline-mini/src/reduction.cu\<close>: the kernel \<^verbatim>\<open>reduce_sum_stage1_kernel\<close>, and the tree
  reduction in shared memory that it shares with the softmax kernel. A thread block between two
  \<^verbatim>\<open>__syncthreads()\<close> is one step of its shared memory, a list indexed by the thread: no thread writes
  what another reads in the same step, so the order of the threads does not matter. The last 32
  elements are reduced without a barrier: there the order in which the threads of the warp make their
  additions is a parameter of the model, and lock step one value of it. Every access is checked; \<open>None\<close> is an
  access outside of a buffer or of the shared memory, which has one element for each thread of the block.

  Elements are of any type with an addition and a zero, so the definitions cover floats; the
  theorems about the sum are for a commutative monoid, that is, without rounding.
\<close>

section \<open>Tree reduction in shared memory\<close>

text \<open>\<^verbatim>\<open>if (tid < stride) smem[tid] = f(smem[tid], smem[tid + stride]);\<close> for all threads of the block\<close>

definition halve :: "('a \<Rightarrow> 'a \<Rightarrow> 'a) \<Rightarrow> nat \<Rightarrow> 'a list \<Rightarrow> 'a list option" where
  "halve f stride smem =
     those (map (\<lambda>tid. if tid < stride
         then Option.bind (peek smem tid) (\<lambda>u. map_option (f u) (peek smem (tid + stride)))
         else Some (smem ! tid)) [0..<length smem])"

text \<open>\<^verbatim>\<open>for (stride = ...; stride > limit; stride >>= 1)\<close>\<close>

function reduce_loop :: "('a \<Rightarrow> 'a \<Rightarrow> 'a) \<Rightarrow> nat \<Rightarrow> nat \<Rightarrow> 'a list \<Rightarrow> 'a list option" where
  "reduce_loop f limit stride smem =
     (if stride > limit then Option.bind (halve f stride smem) (reduce_loop f limit (stride div 2)) else Some smem)"
  by pat_completeness auto
termination
  by (relation "measure (\<lambda>(f, limit, stride, smem). stride)") auto

declare reduce_loop.simps [simp del]

text \<open>What they compute where every access is inside\<close>

definition halved :: "('a \<Rightarrow> 'a \<Rightarrow> 'a) \<Rightarrow> nat \<Rightarrow> 'a list \<Rightarrow> 'a list" where
  "halved f stride smem =
     map (\<lambda>tid. if tid < stride then f (smem ! tid) (smem ! (tid + stride)) else smem ! tid) [0..<length smem]"

function reduced :: "('a \<Rightarrow> 'a \<Rightarrow> 'a) \<Rightarrow> nat \<Rightarrow> nat \<Rightarrow> 'a list \<Rightarrow> 'a list" where
  "reduced f limit stride smem =
     (if stride > limit then reduced f limit (stride div 2) (halved f stride smem) else smem)"
  by pat_completeness auto
termination
  by (relation "measure (\<lambda>(f, limit, stride, smem). stride)") auto

declare reduced.simps [simp del]

lemma length_halved [simp]: "length (halved f stride smem) = length smem"
  by (simp add: halved_def)

lemma length_reduced [simp]: "length (reduced f limit stride smem) = length smem"
  by (induction f limit stride smem rule: reduced.induct) (simp add: reduced.simps)

lemma halve_inside: "2 * stride \<le> length smem \<Longrightarrow> halve f stride smem = Some (halved f stride smem)"
  unfolding halve_def halved_def by (rule those_map_all) simp

lemma reduce_loop_inside:
  "2 * stride \<le> length smem \<Longrightarrow> reduce_loop f limit stride smem = Some (reduced f limit stride smem)"
proof (induction f limit stride smem rule: reduced.induct)
  case (1 f limit stride smem)
  then show ?case
    by (simp add: reduce_loop.simps [of f limit stride] reduced.simps [of f limit stride] halve_inside)
qed

locale reduction =
  fixes f :: "'a \<Rightarrow> 'a \<Rightarrow> 'a" and z :: 'a
  assumes assoc: "f (f a b) c = f a (f b c)" and comm: "f a b = f b a" and unit: "f z a = a"
begin

abbreviation total :: "'a list \<Rightarrow> 'a" where
  "total xs \<equiv> foldr f xs z"

lemma total_append: "total (xs @ ys) = f (total xs) (total ys)"
  by (induction xs) (simp_all add: unit assoc)

lemma total_map2: "length xs = length ys \<Longrightarrow> total (map2 f xs ys) = f (total xs) (total ys)"
proof (induction xs ys rule: list_induct2)
  case (Cons x xs y ys)
  have "f (f x y) (f (total xs) (total ys)) = f (f x (total xs)) (f y (total ys))"
    by (metis assoc comm)
  then show ?case using Cons by simp
qed (simp add: unit)

text \<open>Any step that combines the elements at distance \<open>stride\<close> halves what is left to add up.\<close>

lemma halving_total:
  assumes "2 * stride \<le> length smem" and "length smem' = length smem"
    and "\<And>i. i < stride \<Longrightarrow> smem' ! i = f (smem ! i) (smem ! (i + stride))"
  shows "total (take stride smem') = total (take (2 * stride) smem)"
proof -
  have "take stride smem' = map2 f (take stride smem) (take stride (drop stride smem))"
    using assms by (intro nth_equalityI) (simp_all add: add.commute)
  moreover have "take (2 * stride) smem = take stride smem @ take stride (drop stride smem)"
    by (simp add: mult_2 take_add)
  ultimately show ?thesis using assms(1) by (simp add: total_map2 total_append del: foldr_append)
qed

lemma halved_total:
  "2 * stride \<le> length smem \<Longrightarrow> total (take stride (halved f stride smem)) = total (take (2 * stride) smem)"
  by (rule halving_total) (simp_all add: halved_def)

lemma reduced_total:
  assumes "2 * 2 ^ k \<le> length smem" and "j \<le> k" and "limit < 2 ^ j" and "2 ^ j \<le> 2 * limit + 1"
  shows "total (take (2 ^ j) (reduced f limit (2 ^ k) smem)) = total (take (2 * 2 ^ k) smem)"
  using assms(1,2)
proof (induction k arbitrary: smem)
  case 0
  then have "reduced f limit (2 ^ 0) smem = halved f 1 smem"
    using assms(3) by (simp add: reduced.simps [of _ _ "Suc 0"] reduced.simps [of _ _ 0])
  then show ?case using 0 halved_total [of 1 smem] by simp
next
  case (Suc k)
  have "2 ^ j \<le> (2 :: nat) ^ Suc k" using Suc.prems(2) by (simp only: power_increasing_iff)
  then have unfold: "reduced f limit (2 ^ Suc k) smem = reduced f limit (2 ^ k) (halved f (2 ^ Suc k) smem)"
    using assms(3) by (subst reduced.simps) simp
  have step: "total (take (2 ^ Suc k) (halved f (2 ^ Suc k) smem)) = total (take (2 * 2 ^ Suc k) smem)"
    by (rule halved_total) (rule Suc.prems(1))
  show ?case
  proof (cases "j = Suc k")
    case True
    then have "2 ^ k \<le> limit" using assms(4) by simp
    then have "reduced f limit (2 ^ k) (halved f (2 ^ Suc k) smem) = halved f (2 ^ Suc k) smem"
      by (subst reduced.simps) simp
    then show ?thesis using unfold step True by simp
  next
    case False
    then have "total (take (2 ^ j) (reduced f limit (2 ^ k) (halved f (2 ^ Suc k) smem)))
        = total (take (2 * 2 ^ k) (halved f (2 ^ Suc k) smem))"
      using Suc.prems by (intro Suc.IH) simp_all
    then show ?thesis using unfold step by simp
  qed
qed

end

section \<open>The kernel\<close>

text \<open>What a thread of the block \<open>b\<close> loads: up to two elements of the first \<^verbatim>\<open>n\<close>, a block size apart.\<close>

definition load_two :: "'a::{zero,plus} list \<Rightarrow> nat \<Rightarrow> nat \<Rightarrow> nat \<Rightarrow> nat \<Rightarrow> 'a option" where
  "load_two x n block b tid =
     (let global = b * block * 2 + tid
      in Option.bind (if global < n then map_option ((+) 0) (peek x global) else Some 0) (\<lambda>sum.
         if global + block < n then map_option ((+) sum) (peek x (global + block)) else Some sum))"

text \<open>
  The last six additions \<^verbatim>\<open>vsmem[tid] += vsmem[tid + offset]\<close>. A thread of the warp knows how many of them
  it has done; the next one reads and writes the shared memory as it then is.
\<close>

definition warp_offsets :: "nat list" where
  "warp_offsets = [32, 16, 8, 4, 2, 1]"

definition lane_step :: "nat \<Rightarrow> 'a::plus list \<times> (nat \<Rightarrow> nat) \<Rightarrow> ('a list \<times> (nat \<Rightarrow> nat)) option" where
  "lane_step lane st =
     (case st of (smem, done_of) \<Rightarrow>
        if lane < 32 \<and> lane < length smem \<and> done_of lane < length warp_offsets
        then Option.bind (peek smem lane) (\<lambda>u.
             Option.bind (peek smem (lane + warp_offsets ! done_of lane)) (\<lambda>v.
             map_option (\<lambda>smem. (smem, done_of(lane := done_of lane + 1))) (poke lane (u + v) smem)))
        else Some st)"

text \<open>The threads in the order of a schedule; one that is not below 32, or done, does nothing.\<close>

definition run_lanes :: "nat list \<Rightarrow> 'a::plus list \<Rightarrow> 'a list option" where
  "run_lanes schedule smem = map_option fst (option_fold lane_step schedule (smem, \<lambda>_. 0))"

text \<open>
  The 32 threads taking turns, one addition each, in the order of their indices. It is the lock step in which
  all threads read before any writes (\<open>lock_step_adds\<close>), because every thread reads behind itself.
\<close>

definition lock_step :: "nat list" where
  "lock_step = concat (replicate (length warp_offsets) [0..<32])"

text \<open>Additions that a schedule leaves out are made at its end: so every list is a schedule of the whole.\<close>

definition warp_tail :: "nat list \<Rightarrow> 'a::plus list \<Rightarrow> 'a list option" where
  "warp_tail schedule = run_lanes (schedule @ lock_step)"

definition reduce_block :: "nat list \<Rightarrow> 'a::{zero,plus} list \<Rightarrow> nat \<Rightarrow> nat \<Rightarrow> nat \<Rightarrow> 'a option" where
  "reduce_block schedule x n block b =
     Option.bind (those (map (load_two x n block b) [0..<block])) (\<lambda>smem.
     Option.bind (reduce_loop (+) 32 (block div 2) smem) (\<lambda>smem.
     Option.bind (warp_tail schedule smem) (\<lambda>smem. peek smem 0)))"

text \<open>
  A launch with \<^verbatim>\<open><<<grid, block>>>\<close> (both \<^verbatim>\<open>int\<close>) is refused when the grid is empty or negative or a
  block has more than 1024 threads.
\<close>

definition launchable :: "i32 \<Rightarrow> int \<Rightarrow> bool" where
  "launchable grid block \<longleftrightarrow> 0 < sint grid \<and> 0 < block \<and> block \<le> 1024"

text \<open>The grid that \<^verbatim>\<open>main\<close> computes (in 64 bits, cut to an \<^verbatim>\<open>int\<close>)\<close>

definition reduce_grid_size :: "u64 \<Rightarrow> int \<Rightarrow> i32" where
  "reduce_grid_size n block = ucast ((n + of_int block * 2 - 1) div (of_int block * 2))"

text \<open>All blocks, each with a schedule of its own; thread 0 of each writes its partial sum.\<close>

definition reduce_blocks ::
  "(nat \<Rightarrow> nat list) \<Rightarrow> 'a::{zero,plus} list \<Rightarrow> nat \<Rightarrow> nat \<Rightarrow> nat \<Rightarrow> 'a list \<Rightarrow> 'a list option" where
  "reduce_blocks schedule x n grid block =
     option_fold (\<lambda>b partial. Option.bind (reduce_block (schedule b) x n block b) (\<lambda>v. poke b v partial)) [0..<grid]"

text \<open>A launch on the whole of \<open>x\<close>; \<open>None\<close>: it is refused, or an access is outside.\<close>

definition reduce_sum_stage1 :: "(nat \<Rightarrow> nat list) \<Rightarrow> 'a::{zero,plus} list \<Rightarrow> nat \<Rightarrow> 'a list option" where
  "reduce_sum_stage1 schedule x block =
     (let grid = reduce_grid_size (of_nat (length x)) (int block)
      in if launchable grid (int block)
         then reduce_blocks schedule x (length x) (unat grid) block (replicate (unat grid) 0) else None)"

section \<open>The sum of a block\<close>

interpretation sums: reduction "(+) :: 'a::comm_monoid_add \<Rightarrow> 'a \<Rightarrow> 'a" 0
  by unfold_locales (simp_all add: ac_simps)

lemma sums_total: "sums.total xs = sum_list xs"
  by (simp add: sum_list.eq_foldr)

lemma sum_nth_padded: "length p \<le> m \<Longrightarrow> (\<Sum>i<m. if i < length p then p ! i else 0) = sum_list p"
proof -
  assume m: "length p \<le> m"
  have "(\<Sum>i<m. if i < length p then p ! i else 0) = (\<Sum>i<length p. p ! i)"
    using m by (intro sum.mono_neutral_cong_right) auto
  then show ?thesis by (simp add: sum_list_sum_nth atLeast0LessThan)
qed

lemma sum_split_at: "(\<Sum>i<(m :: nat) + n. g i) = (\<Sum>i<m. g i) + (\<Sum>i<n. g (i + m) :: 'a::comm_monoid_add)"
  by (induction n) (simp_all add: ac_simps)

text \<open>What a thread loads when the first \<open>n\<close> elements are there\<close>

definition loaded :: "'a::{zero,plus} list \<Rightarrow> nat \<Rightarrow> nat \<Rightarrow> nat \<Rightarrow> 'a" where
  "loaded x block b tid =
     (let g = b * block * 2 + tid; sum = (if g < length x then 0 + x ! g else 0)
      in if g + block < length x then sum + x ! (g + block) else sum)"

lemma load_two_inside: "n \<le> length x \<Longrightarrow> load_two x n block b tid = Some (loaded (take n x) block b tid)"
  by (simp add: load_two_def loaded_def Let_def)

lemma loaded_sum:
  fixes x :: "'a::comm_monoid_add list"
  shows "sum_list (map (loaded x block b) [0..<block]) = sum_list (take (2 * block) (drop (b * block * 2) x))"
    (is "_ = sum_list ?p")
proof -
  let ?nth = "\<lambda>i. if i < length ?p then ?p ! i else 0"
  have "loaded x block b tid = ?nth tid + ?nth (tid + block)" if "tid < block" for tid
    using that by (auto simp: loaded_def Let_def add.assoc)
  then have "sum_list (map (loaded x block b) [0..<block]) = (\<Sum>tid<block. ?nth tid + ?nth (tid + block))"
    by (simp add: sum_list_sum_nth atLeast0LessThan)
  also have "\<dots> = (\<Sum>i<block + block. ?nth i)"
    by (simp only: sum_split_at sum.distrib)
  also have "\<dots> = sum_list ?p" by (rule sum_nth_padded) simp
  finally show ?thesis .
qed

section \<open>The last additions\<close>

text \<open>One addition of all 32 threads at once, each reading before any writes\<close>

definition warp_add :: "nat \<Rightarrow> 'a::plus list \<Rightarrow> 'a list" where
  "warp_add offset smem =
     map (\<lambda>tid. if tid < 32 then smem ! tid + smem ! (tid + offset) else smem ! tid) [0..<length smem]"

lemma length_warp_add [simp]: "length (warp_add offset smem) = length smem"
  by (simp add: warp_add_def)

lemma length_fold_warp_add: "length (fold warp_add os smem) = length smem"
  by (induction os arbitrary: smem) simp_all

lemma set_lock_step: "set lock_step = {..<32}"
  by (auto simp: lock_step_def warp_offsets_def)

lemma warp_offsets_bounds: "k < length warp_offsets \<Longrightarrow> 0 < warp_offsets ! k \<and> warp_offsets ! k \<le> 32"
  by (auto simp: warp_offsets_def less_Suc_eq numeral_nat)

text \<open>With 64 threads, no order of the additions reads behind the shared memory.\<close>

lemma lane_step_inside:
  assumes "64 \<le> length smem"
  shows "lane_step lane (smem, d) = Some
    (if lane < 32 \<and> d lane < length warp_offsets
     then (smem[lane := smem ! lane + smem ! (lane + warp_offsets ! d lane)], d(lane := d lane + 1)) else (smem, d))"
proof (cases "lane < 32 \<and> d lane < length warp_offsets")
  case True
  then have "lane + warp_offsets ! d lane < length smem" "lane < length smem"
    using warp_offsets_bounds [of "d lane"] assms by linarith+
  then show ?thesis using True by (simp add: lane_step_def)
qed (auto simp: lane_step_def)

lemma run_lanes_total:
  assumes "64 \<le> length smem"
  shows "\<exists>smem'. run_lanes schedule smem = Some smem' \<and> length smem' = length smem"
proof -
  have "\<exists>st'. option_fold lane_step schedule (smem, \<lambda>_. 0) = Some st' \<and> length (fst st') = length smem"
  proof (rule option_fold_total)
    fix lane and st :: "'a list \<times> (nat \<Rightarrow> nat)" assume "length (fst st) = length smem"
    then show "\<exists>st'. lane_step lane st = Some st' \<and> length (fst st') = length smem"
      using lane_step_inside [of "fst st" lane "snd st"] assms by simp
  qed simp
  then show ?thesis by (auto simp: run_lanes_def)
qed

lemma lane_phase:
  assumes "n \<le> 32" and "64 \<le> length smem" and "\<forall>lane < 32. d lane = p" and "p < length warp_offsets"
  shows "option_fold lane_step [0..<n] (smem, d) = Some
    (map (\<lambda>tid. if tid < n then smem ! tid + smem ! (tid + warp_offsets ! p) else smem ! tid) [0..<length smem],
     \<lambda>lane. if lane < n then p + 1 else d lane)"
  using assms(1)
proof (induction n)
  case (Suc n)
  then show ?case
    using assms warp_offsets_bounds [OF assms(4)]
    by (auto simp: option_fold_app lane_step_inside nth_list_update intro!: nth_equalityI)
qed (simp add: map_nth)

lemma lock_step_phases:
  assumes "64 \<le> length smem" and "k \<le> length warp_offsets"
  shows "\<exists>d. option_fold lane_step (concat (replicate k [0..<32])) (smem, \<lambda>_. 0)
      = Some (fold warp_add (take k warp_offsets) smem, d) \<and> (\<forall>lane < 32. d lane = k)"
  using assms(2)
proof (induction k)
  case (Suc k)
  let ?s = "fold warp_add (take k warp_offsets) smem"
  obtain d where d: "option_fold lane_step (concat (replicate k [0..<32])) (smem, \<lambda>_. 0) = Some (?s, d)" "\<forall>lane < 32. d lane = k"
    using Suc by auto
  have "concat (replicate (Suc k) [0..<32]) = concat (replicate k [0..<32]) @ [0..<32 :: nat]"
    by (metis concat.simps(2) concat_append concat.simps(1) append_Nil2 replicate_append_same replicate_Suc)
  moreover have "take (Suc k) warp_offsets = take k warp_offsets @ [warp_offsets ! k]"
    using Suc.prems by (simp add: take_Suc_conv_app_nth)
  moreover have "length ?s = length smem" by (rule length_fold_warp_add)
  then have "option_fold lane_step [0..<32] (?s, d)
      = Some (warp_add (warp_offsets ! k) ?s, \<lambda>lane. if lane < 32 then k + 1 else d lane)"
    using lane_phase [of 32 ?s d k] d(2) assms(1) Suc.prems by (simp only: warp_add_def)
  ultimately show ?case using d(1) by (simp add: option_fold_app del: replicate_Suc)
qed simp

text \<open>A thread that is done does nothing, so what comes after the lock step adds nothing.\<close>

lemma lock_step_adds:
  assumes "64 \<le> length smem"
  shows "run_lanes (lock_step @ more) smem = Some (fold warp_add warp_offsets smem)"
proof -
  let ?s = "fold warp_add warp_offsets smem"
  obtain d where d: "option_fold lane_step lock_step (smem, \<lambda>_. 0) = Some (?s, d)" "\<forall>lane < 32. d lane = length warp_offsets"
    using lock_step_phases [OF assms, of "length warp_offsets"] by (auto simp: lock_step_def)
  have "option_fold lane_step more (?s, d) = Some (?s, d)"
  proof -
    have "lane_step lane (?s, d) = Some (?s, d)" for lane
      using d(2) by (cases "lane < 32") (simp_all add: lane_step_def)
    then show ?thesis by (induction more) simp_all
  qed
  then show ?thesis using d(1) by (simp add: run_lanes_def option_fold_app)
qed

lemma warp_add_total:
  fixes smem :: "'a::comm_monoid_add list"
  assumes "64 \<le> length smem" and "offset \<le> 32"
  shows "sum_list (take offset (warp_add offset smem)) = sum_list (take (2 * offset) smem)"
proof -
  have "sums.total (take offset (warp_add offset smem)) = sums.total (take (2 * offset) smem)"
    by (rule sums.halving_total) (use assms in \<open>simp_all add: warp_add_def\<close>)
  then show ?thesis by (simp add: sums_total)
qed

lemma warp_tail_total:
  fixes smem :: "'a::comm_monoid_add list"
  assumes "64 \<le> length smem"
  shows "\<exists>smem'. warp_tail lock_step smem = Some smem' \<and> peek smem' 0 = Some (sum_list (take 64 smem))"
proof -
  let ?s = "fold warp_add warp_offsets smem"
  have "sum_list (take 1 ?s) = sum_list (take 64 smem)"
    using assms by (simp add: warp_offsets_def warp_add_total [where offset = 1, simplified] warp_add_total [where offset = 2, simplified]
        warp_add_total [where offset = 4, simplified] warp_add_total [where offset = 8, simplified]
        warp_add_total [where offset = 16, simplified] warp_add_total [where offset = 32, simplified])
  moreover have "length ?s = length smem" by (simp add: warp_offsets_def)
  moreover obtain a r where "?s = a # r" using calculation(2) assms by (cases ?s) auto
  ultimately show ?thesis using lock_step_adds [OF assms, of lock_step] by (simp add: warp_tail_def peek_def)
qed

section \<open>The sum of the input\<close>

lemma reduce_block_run:
  fixes x :: "'a::comm_monoid_add list"
  assumes "6 \<le> k" and "n \<le> length x"
  shows "reduce_block lock_step x n (2 ^ k) b = Some (sum_list (take (2 * 2 ^ k) (drop (b * 2 ^ k * 2) (take n x))))"
proof -
  let ?smem = "map (loaded (take n x) (2 ^ k) b) [0..<2 ^ k]"
  obtain j where k: "k = Suc j" "5 \<le> j" using assms(1) by (cases k) auto
  let ?r = "reduced (+) 32 (2 ^ j) ?smem"
  have pow: "(64 :: nat) \<le> 2 ^ k"
  proof -
    have "(2 :: nat) ^ 6 \<le> 2 ^ k" using assms(1) by (intro power_increasing) simp_all
    then show ?thesis by simp
  qed
  have "sums.total (take 64 ?r) = sums.total (take (2 * 2 ^ j) ?smem)"
  proof (cases "j = 5")
    case True
    then show ?thesis by (simp add: reduced.simps)
  next
    case False
    then have "6 \<le> j" using k(2) by simp
    from sums.reduced_total [OF _ this, of ?smem 32] show ?thesis using k(1) by simp
  qed
  then have "sum_list (take 64 ?r) = sum_list ?smem" using k(1) by (simp add: sums_total)
  moreover obtain smem' where "warp_tail lock_step ?r = Some smem'" "peek smem' 0 = Some (sum_list (take 64 ?r))"
    using warp_tail_total [of ?r] pow by auto
  moreover have "those (map (load_two x n (2 ^ k) b) [0..<2 ^ k]) = Some ?smem"
    by (rule those_map_all) (rule load_two_inside [OF assms(2)])
  moreover have "reduce_loop (+) 32 (2 ^ k div 2) ?smem = Some ?r"
    using reduce_loop_inside [of "2 ^ j" ?smem "(+)" 32] k(1) by simp
  ultimately have "reduce_block lock_step x n (2 ^ k) b = Some (sum_list ?smem)"
    by (simp only: reduce_block_def Option.bind.simps)
  then show ?thesis by (simp only: loaded_sum)
qed

text \<open>What a launch leaves when every block gets through\<close>

lemma reduce_blocks_inside:
  assumes "\<And>b. b < grid \<Longrightarrow> reduce_block (schedule b) x n block b = Some (g b)" and "grid \<le> length partial"
  shows "reduce_blocks schedule x n grid block partial = Some (map g [0..<grid] @ drop grid partial)"
proof -
  have "option_fold (\<lambda>b partial. Option.bind (reduce_block (schedule b) x n block b) (\<lambda>v. poke b v partial)) [0..<m] partial
      = Some (map g [0..<m] @ drop m partial)" if "m \<le> grid" for m
    using that
  proof (induction m)
    case (Suc m)
    have "drop m partial = partial ! m # drop (Suc m) partial"
      using Suc.prems assms(2) by (simp add: Cons_nth_drop_Suc)
    then have "(map g [0..<m] @ drop m partial)[m := g m] = map g [0..<Suc m] @ drop (Suc m) partial"
      by (simp add: list_update_append)
    then show ?case using Suc assms by (simp add: option_fold_app)
  qed simp
  then show ?thesis by (simp add: reduce_blocks_def)
qed

lemma sum_blocks:
  fixes x :: "'a::comm_monoid_add list"
  shows "(\<Sum>b<g. sum_list (take m (drop (b * m) x))) = sum_list (take (g * m) x)"
proof (induction g)
  case (Suc g)
  have "take (Suc g * m) x = take (g * m) x @ take m (drop (g * m) x)"
    by (simp add: take_add [symmetric] add.commute)
  then show ?case using Suc by (simp add: add.commute)
qed simp

lemma sint_of_nat_i32: "m < 2 ^ 31 \<Longrightarrow> sint (of_nat m :: i32) = int m"
  by (simp add: sint_uint uint_nat unat_of_nat take_bit_nat_eq_self signed_take_bit_int_eq_self)

lemma reduce_grid_exact:
  assumes "0 < block" and "n + 2 * block < 2 ^ 64"
  shows "reduce_grid_size (of_nat n) (int block) = of_nat ((n + 2 * block - 1) div (2 * block))"
proof -
  have "of_nat n + of_int (int block) * 2 - 1 = (of_nat (n + 2 * block - 1) :: u64)"
    using assms(1) by (simp add: of_nat_diff algebra_simps)
  moreover have "of_int (int block) * 2 = (of_nat (2 * block) :: u64)" by simp
  ultimately have "unat ((of_nat n + of_int (int block) * 2 - 1) div (of_int (int block) * 2) :: u64)
      = (n + 2 * block - 1) div (2 * block)"
    using assms(2) by (simp only: unat_div unat_of_nat) (simp add: take_bit_nat_eq_self)
  then show ?thesis
    by (metis reduce_grid_size_def of_nat_unat)
qed

text \<open>
  C12. If the threads of a warp make the last additions in lock step (on which the kernel relies, and which CUDA
  does not guarantee): with a block size that is a power of two from 64 on, the
  partial sums that the launch leaves add up to the sum of the whole input, no element lost or counted
  twice, whatever the length (while the grid fits an \<^verbatim>\<open>int\<close>). Without rounding, that is.
\<close>

theorem reduction_sums_input:
  fixes x :: "'a::comm_monoid_add list"
  assumes "\<forall>b. schedule b = lock_step" and "x \<noteq> []" and "6 \<le> k" and "k \<le> 10" and "length x \<le> 2 ^ 37"
  shows "\<exists>partial. reduce_sum_stage1 schedule x (2 ^ k) = Some partial \<and> sum_list partial = sum_list x"
proof -
  let ?b = "2 ^ k :: nat"
  let ?g = "(length x + 2 * ?b - 1) div (2 * ?b)"
  let ?partial = "map (\<lambda>b. sum_list (take (2 * ?b) (drop (b * (2 * ?b)) x))) [0..<?g]"
  have "(2 :: nat) ^ k \<le> 2 ^ 10" using assms(4) by (intro power_increasing) simp_all
  then have block: "?b \<le> 1024" by simp
  have pos: "0 < ?b" by simp
  have g: "reduce_grid_size (of_nat (length x)) (int ?b) = of_nat ?g"
    by (rule reduce_grid_exact) (use block pos assms(5) in simp_all)
  have "length x + 2 * ?b - 1 < 2 ^ 31 * (2 * ?b)"
  proof -
    have "(2 :: nat) ^ 6 \<le> ?b" using assms(3) by (intro power_increasing) simp_all
    then show ?thesis using assms(5) by simp
  qed
  then have small: "?g < 2 ^ 31" by (simp add: less_mult_imp_div_less)
  have "length x + 2 * ?b - 1 < Suc ?g * (2 * ?b)"
    by (simp add: dividend_less_div_times)
  then have covered: "length x \<le> ?g * (2 * ?b)" by simp
  then have "0 < ?g" using assms(2) by (cases ?g) auto
  then have "launchable (of_nat ?g) (int ?b)"
    using block pos small by (simp add: launchable_def sint_of_nat_i32 del: of_nat_power)
  moreover have "unat (of_nat ?g :: i32) = ?g"
    using small by (simp add: unat_of_nat take_bit_nat_eq_self)
  moreover have "reduce_blocks schedule x (length x) ?g ?b (replicate ?g 0) = Some (?partial @ drop ?g (replicate ?g 0))"
    by (rule reduce_blocks_inside) (simp_all add: assms(1) reduce_block_run [OF assms(3)] ac_simps)
  ultimately have "reduce_sum_stage1 schedule x ?b = Some ?partial"
    using g by (simp add: reduce_sum_stage1_def Let_def)
  moreover have "sum_list ?partial = sum_list x"
    using covered sum_blocks [of "2 * ?b" x ?g] by (simp add: sum_list_sum_nth atLeast0LessThan)
  ultimately show ?thesis by blast
qed

theorem reduction_sums_input_witness:
  "\<exists>partial. reduce_sum_stage1 (\<lambda>_. lock_step) (replicate 1000 (3 :: int)) (2 ^ 7) = Some partial
     \<and> sum_list partial = sum_list (replicate 1000 3)"
  by (rule reduction_sums_input) simp_all

section \<open>Block sizes that the program accepts and the kernel does not\<close>

lemma reduce_loop_stop: "stride \<le> limit \<Longrightarrow> reduce_loop f limit stride smem = Some smem"
  by (subst reduce_loop.simps) simp

text \<open>
  A block of fewer than 64 threads reads behind its shared memory, whatever the input and the order of the
  threads: \<^verbatim>\<open>--block 32\<close> is accepted by \<^verbatim>\<open>parse_i32\<close> and launched.
\<close>

lemma warp_tail_overruns:
  fixes smem :: "'a::plus list"
  assumes "0 < length smem" and "length smem < 64"
  shows "warp_tail schedule smem = None"
proof -
  let ?top = "min 31 (length smem - Suc 0)"
  have "option_fold lane_step (schedule @ lock_step) (smem, \<lambda>_. 0) = None"
  proof (rule option_fold_fails [where x = ?top and I = "\<lambda>(s, d). length s = length smem \<and> d ?top = 0"])
    show "?top \<in> set (schedule @ lock_step)" by (simp add: set_lock_step min_less_iff_disj)
    have out: "lane_step ?top (s, d) = None" if "length s = length smem" "d ?top = 0" for s :: "'a list" and d
      using that assms by (auto simp: lane_step_def warp_offsets_def min_def)
    show "lane_step ?top st = None" if "case st of (s, d) \<Rightarrow> length s = length smem \<and> d ?top = 0"
      for st :: "'a list \<times> (nat \<Rightarrow> nat)"
      using that by (cases st) (auto intro!: out)
    fix lane and st st' :: "'a list \<times> (nat \<Rightarrow> nat)"
    assume "lane_step lane st = Some st'" "case st of (s, d) \<Rightarrow> length s = length smem \<and> d ?top = 0"
    then show "case st' of (s, d) \<Rightarrow> length s = length smem \<and> d ?top = 0"
      using out by (cases "lane = ?top")
        (auto simp: lane_step_def split: if_splits Option.bind_splits dest: length_poke)
  qed simp
  then show ?thesis by (simp add: warp_tail_def run_lanes_def)
qed

lemma small_blocks_overrun:
  assumes "0 < block" and "block < 64"
  shows "reduce_block schedule x n block b = None"
proof (cases "those (map (load_two x n block b) [0..<block])")
  case (Some smem)
  then have "length smem = block" by (auto dest: length_those)
  then show ?thesis using assms Some warp_tail_overruns [of smem schedule] by (simp add: reduce_block_def reduce_loop_stop)
qed (simp add: reduce_block_def)

text \<open>
  The block size has to be a power of two: with 96 threads the sum of 192 ones is 224, a third
  of the shared memory being added twice. The program launches such a block all the same.
\<close>

lemma block_96_counts_twice: "reduce_sum_stage1 (\<lambda>_. lock_step) (replicate 192 (1 :: int)) 96 = Some [224]"
  by code_simp

section \<open>The warp without its barriers\<close>

lemma other_lanes_elsewhere:
  assumes "option_fold lane_step rest st = Some st'" and "0 \<notin> set rest"
  shows "fst st' ! 0 = fst st ! 0"
proof (rule option_fold_keeps [OF assms(1)])
  fix lane and s s' :: "'a list \<times> (nat \<Rightarrow> nat)"
  assume "lane \<in> set rest" "lane_step lane s = Some s'" "fst s ! 0 = fst st ! 0"
  moreover have "lane \<noteq> 0" using \<open>lane \<in> set rest\<close> assms(2) by metis
  ultimately show "fst s' ! 0 = fst st ! 0"
    by (auto simp: lane_step_def poke_def split: if_splits Option.bind_splits prod.splits)
qed simp

text \<open>
  C38. Lock step is not the only order: without a barrier between the additions a thread 0 that runs ahead
  writes the sum of seven cells, whatever the other threads do afterwards.
\<close>

theorem hasty_thread_loses_elements:
  assumes "64 \<le> length smem" and "0 \<notin> set rest"
  shows "map_option (\<lambda>smem. smem ! 0) (run_lanes (replicate 6 0 @ rest) smem)
    = Some (smem ! 0 + smem ! 32 + smem ! 16 + smem ! 8 + smem ! 4 + smem ! 2 + smem ! 1)"
proof -
  obtain smem' where run: "run_lanes (replicate 6 0 @ rest) smem = Some smem'"
    using run_lanes_total [OF assms(1)] by blast
  let ?v = "smem ! 0 + smem ! 32 + smem ! 16 + smem ! 8 + smem ! 4 + smem ! 2 + smem ! 1"
  have "replicate 6 0 = [0, 0, 0, 0, 0, 0 :: nat]" by (simp add: numeral_eq_Suc)
  moreover have "0 < length smem" using assms(1) by linarith
  ultimately have "\<exists>d. option_fold lane_step (replicate 6 0) (smem, \<lambda>_. 0) = Some (smem[0 := ?v], d)"
    using assms(1) by (simp add: lane_step_inside warp_offsets_def numeral_2_eq_2)
  then obtain d d' where "option_fold lane_step rest (smem[0 := ?v], d) = Some (smem', d')"
    using run by (auto simp: run_lanes_def option_fold_app)
  from other_lanes_elsewhere [OF this assms(2)] show ?thesis using run \<open>0 < length smem\<close> by simp
qed

theorem hasty_thread_loses_elements_witness:
  "map_option (\<lambda>smem. smem ! 0)
     (run_lanes (replicate 6 0 @ concat (map (replicate 6) [1..<32])) (replicate 64 (1 :: int))) = Some 7"
  by (subst hasty_thread_loses_elements) auto

end
