(* ===== verification/Roofline_Bench.thy ===== *)
theory Roofline_Bench
  imports Strided_Loop Block_Reduction Text_Numbers
begin

text \<open>
  The rest of \<^verbatim>\<open>bandwidth-roofline-mini\<close>: the command line of \<^verbatim>\<open>reduction.cu\<close> (\<^verbatim>\<open>vector_add.cu\<close> has the
  same code), the percentiles and the roofline classes of its report, and the kernel and launch of
  \<^verbatim>\<open>vector_add.cu\<close>. \<^verbatim>\<open>double\<close> is any ordered field; \<open>strtod\<close>, which reads one, is a parameter with the
  conventions of \<open>strtol\<close>: the value and the text behind it, or \<open>None\<close>.
\<close>

section \<open>The command line\<close>

definition parse_u64 :: "bytes \<Rightarrow> u64 option" where
  "parse_u64 s = (case strtoull s of None \<Rightarrow> None | Some (v, rest) \<Rightarrow> if rest \<noteq> [] then None else Some v)"

definition parse_i32 :: "bytes \<Rightarrow> i32 option" where
  "parse_i32 s =
     (case strtol s of
        None \<Rightarrow> None
      | Some (v, rest) \<Rightarrow> if rest \<noteq> [] \<or> v \<le> 0 then None else Some (word_of_int v))"

definition parse_f64 :: "(bytes \<Rightarrow> ('d::linordered_field \<times> bytes) option) \<Rightarrow> bytes \<Rightarrow> 'd option" where
  "parse_f64 strtod s =
     (case strtod s of None \<Rightarrow> None | Some (v, rest) \<Rightarrow> if rest \<noteq> [] \<or> v \<le> 0 then None else Some v)"

record 'd bench_options =
  opt_n :: u64
  opt_warmup :: i32
  opt_repeat :: i32
  opt_block :: i32
  opt_peak_fp32_gflops :: 'd
  opt_peak_mem_gbs :: 'd

definition default_options :: "'d::linordered_field bench_options" where
  "default_options = \<lparr>opt_n = 268435456, opt_warmup = 10, opt_repeat = 50, opt_block = 256,
     opt_peak_fp32_gflops = 0, opt_peak_mem_gbs = 0\<rparr>"

datatype 'd command_line = Show_Help | Exit_Failure | Bench "'d bench_options"

text \<open>An option with its value; \<open>None\<close>: unknown, or the value is not a number the option takes.\<close>

definition set_option ::
  "(bytes \<Rightarrow> ('d::linordered_field \<times> bytes) option) \<Rightarrow> bytes \<Rightarrow> bytes \<Rightarrow> 'd bench_options \<Rightarrow> 'd bench_options option" where
  "set_option strtod arg val opts =
     (if arg = bytes_of ''--n'' then map_option (\<lambda>v. opts\<lparr>opt_n := v\<rparr>) (parse_u64 val)
      else if arg = bytes_of ''--warmup'' then map_option (\<lambda>v. opts\<lparr>opt_warmup := v\<rparr>) (parse_i32 val)
      else if arg = bytes_of ''--repeat'' then map_option (\<lambda>v. opts\<lparr>opt_repeat := v\<rparr>) (parse_i32 val)
      else if arg = bytes_of ''--block'' then map_option (\<lambda>v. opts\<lparr>opt_block := v\<rparr>) (parse_i32 val)
      else if arg = bytes_of ''--peak-fp32-gflops''
           then map_option (\<lambda>v. opts\<lparr>opt_peak_fp32_gflops := v\<rparr>) (parse_f64 strtod val)
      else if arg = bytes_of ''--peak-mem-gbs''
           then map_option (\<lambda>v. opts\<lparr>opt_peak_mem_gbs := v\<rparr>) (parse_f64 strtod val)
      else None)"

fun parse_args ::
  "(bytes \<Rightarrow> ('d::linordered_field \<times> bytes) option) \<Rightarrow> 'd bench_options \<Rightarrow> bytes list \<Rightarrow> 'd command_line" where
  "parse_args strtod opts [] = Bench opts"
| "parse_args strtod opts (arg # args) =
     (if arg = bytes_of ''--help'' \<or> arg = bytes_of ''-h'' then Show_Help
      else case args of
             [] \<Rightarrow> Exit_Failure
           | val # args \<Rightarrow> (case set_option strtod arg val opts of
                 None \<Rightarrow> Exit_Failure
               | Some opts \<Rightarrow> parse_args strtod opts args))"

section \<open>The report\<close>

definition percentile_ms :: "'d::floor_ceiling list \<Rightarrow> 'd \<Rightarrow> 'd" where
  "percentile_ms values q =
     (let values = sort values
      in if values = [] then 0
         else (let pos = q * of_nat (length values - 1);
                   lo = nat \<lfloor>pos\<rfloor>;
                   hi = min (lo + 1) (length values - 1);
                   frac = pos - of_nat lo
               in values ! lo * (1 - frac) + values ! hi * frac))"

definition classify_roofline :: "'d::linordered_field \<Rightarrow> 'd \<Rightarrow> 'd \<Rightarrow> string \<times> 'd" where
  "classify_roofline arithmetic_intensity peak_fp32_gflops peak_mem_gbs =
     (if peak_fp32_gflops > 0 \<and> peak_mem_gbs > 0
      then (let knee = peak_fp32_gflops / peak_mem_gbs
            in (if arithmetic_intensity < knee then ''memory_bound'' else ''compute_bound'', knee))
      else (if arithmetic_intensity < 1 then ''memory_bound_low_ai_expected'' else ''needs_hardware_peaks'', 0))"

section \<open>Vector addition\<close>

definition vector_add_kernel ::
  "'a::plus list \<Rightarrow> 'a list \<Rightarrow> nat \<Rightarrow> nat \<Rightarrow> nat \<Rightarrow> nat \<Rightarrow> 'a list \<Rightarrow> 'a list option" where
  "vector_add_kernel a b n block blk tid c =
     (let idx = blk * block + tid
      in if idx < n then Option.bind (peek a idx) (\<lambda>u. Option.bind (peek b idx) (\<lambda>v. poke idx (u + v) c))
         else Some c)"

definition vector_add_grid_size :: "u64 \<Rightarrow> int \<Rightarrow> i32" where
  "vector_add_grid_size n block = ucast ((n + of_int block - 1) div of_int block)"

text \<open>The threads of a grid, one after the other: each writes an element of its own.\<close>

definition vector_add_blocks ::
  "'a::plus list \<Rightarrow> 'a list \<Rightarrow> 'a list \<Rightarrow> nat \<Rightarrow> nat \<Rightarrow> nat \<Rightarrow> 'a list option" where
  "vector_add_blocks a b c n grid block =
     option_fold (\<lambda>blk. option_fold (vector_add_kernel a b n block blk) [0..<block]) [0..<grid] c"

text \<open>
  One launch, for a block size that is not zero (which would be a division by zero). \<open>None\<close>: it is
  refused, or a thread reads or writes outside.
\<close>

definition vector_add :: "'a::plus list \<Rightarrow> 'a list \<Rightarrow> 'a list \<Rightarrow> nat \<Rightarrow> nat \<Rightarrow> 'a list option" where
  "vector_add a b c n block =
     (let grid = vector_add_grid_size (of_nat n) (int block)
      in if launchable grid (int block)
         then vector_add_blocks a b c n (unat grid) block
         else None)"

section \<open>Reading numbers\<close>

text \<open>
  The count of elements survives printing and reading, but a number after a minus sign is taken
  modulo \<^verbatim>\<open>2^64\<close> instead of refused; block sizes and counts are cut to 32 bits after the check that they
  are positive, so a large number becomes any \<^verbatim>\<open>int\<close>, zero included.
\<close>

lemma parsed_numbers:
  assumes "0 < n" and "n < 2 ^ 63"
  shows "parse_u64 (decimal n) = Some (of_nat n) \<and> parse_u64 (45 # decimal n) = Some (- of_nat n)
    \<and> parse_i32 (decimal n) = Some (of_nat n) \<and> parse_i32 (45 # decimal n) = None"
  using assms by (simp add: parse_u64_def parse_i32_def strtoull_def strtol_def scan_decimal scan_minus_decimal)

section \<open>Percentiles\<close>

text \<open>The value at a position of a sorted list, between its neighbours.\<close>

definition interpolated :: "'d::floor_ceiling list \<Rightarrow> 'd \<Rightarrow> 'd" where
  "interpolated vs pos =
     (let lo = nat \<lfloor>pos\<rfloor>; frac = pos - of_nat lo
      in vs ! lo * (1 - frac) + vs ! min (lo + 1) (length vs - 1) * frac)"

lemma sort_Nil_iff [simp]: "sort vs = [] \<longleftrightarrow> vs = []"
  by (metis length_0_conv length_sort)

lemma percentile_interpolated:
  "values \<noteq> [] \<Longrightarrow> percentile_ms values q = interpolated (sort values) (q * of_nat (length values - 1))"
  by (simp add: percentile_ms_def interpolated_def Let_def)

lemma interpolated_bounds:
  fixes pos :: "'d::floor_ceiling"
  assumes "sorted vs" and "vs \<noteq> []" and "0 \<le> pos" and "pos \<le> of_nat (length vs - 1)"
  defines "lo \<equiv> nat \<lfloor>pos\<rfloor>"
  shows "lo < length vs" and "vs ! lo \<le> interpolated vs pos" and "interpolated vs pos \<le> vs ! min (lo + 1) (length vs - 1)"
proof -
  have floor: "of_nat lo \<le> pos" "pos < of_nat lo + 1"
    using assms(3) floor_correct [of pos] unfolding lo_def by (simp_all add: of_nat_nat)
  have "of_nat lo \<le> (of_nat (length vs - 1) :: 'd)" by (rule order_trans [OF floor(1) assms(4)])
  then have lo: "lo \<le> length vs - 1" by (simp only: of_nat_le_iff)
  then show "lo < length vs" using assms(2) by (cases vs) simp_all
  let ?hi = "min (lo + 1) (length vs - 1)" and ?frac = "pos - of_nat lo"
  have le: "vs ! lo \<le> vs ! ?hi"
    by (rule sorted_nth_mono [OF assms(1)]) (use lo assms(2) in \<open>auto simp: min_def\<close>)
  have frac: "0 \<le> ?frac" "?frac \<le> 1" using floor by simp_all
  have up: "vs ! lo * ?frac \<le> vs ! ?hi * ?frac" "vs ! lo * (1 - ?frac) \<le> vs ! ?hi * (1 - ?frac)"
    using le frac by (simp_all add: mult_right_mono)
  have one: "v * (1 - ?frac) + v * ?frac = v" for v :: 'd by (simp add: algebra_simps)
  show "vs ! lo \<le> interpolated vs pos"
    using up one [of "vs ! lo"] by (simp add: interpolated_def Let_def lo_def)
  show "interpolated vs pos \<le> vs ! ?hi"
    using up one [of "vs ! ?hi"] by (simp add: interpolated_def Let_def lo_def)
qed

lemma interpolated_mono:
  fixes pos :: "'d::floor_ceiling"
  assumes "sorted vs" and "vs \<noteq> []" and "0 \<le> pos" and "pos \<le> pos'" and "pos' \<le> of_nat (length vs - 1)"
  shows "interpolated vs pos \<le> interpolated vs pos'"
proof (cases "nat \<lfloor>pos\<rfloor> = nat \<lfloor>pos'\<rfloor>")
  case True
  let ?lo = "nat \<lfloor>pos\<rfloor>"
  let ?hi = "min (?lo + 1) (length vs - 1)"
  have b: "vs ! ?lo \<le> vs ! ?hi"
    using interpolated_bounds [OF assms(1-3)] assms(4,5) by (meson order_trans)
  have "interpolated vs p = vs ! ?lo + (vs ! ?hi - vs ! ?lo) * (p - of_nat ?lo)" if "nat \<lfloor>p\<rfloor> = ?lo" for p
    using that by (simp add: interpolated_def Let_def algebra_simps)
  then show ?thesis using True b assms(4) by (simp add: mult_left_mono)
next
  case False
  have "\<lfloor>pos\<rfloor> \<le> \<lfloor>pos'\<rfloor>" using assms(4) by (rule floor_mono)
  then have less: "nat \<lfloor>pos\<rfloor> + 1 \<le> nat \<lfloor>pos'\<rfloor>" using False by linarith
  have top: "pos \<le> of_nat (length vs - 1)" and low: "0 \<le> pos'" using assms(3-5) by (auto intro: order_trans)
  note b = interpolated_bounds [OF assms(1,2,3) top] and b' = interpolated_bounds [OF assms(1,2) low assms(5)]
  have "interpolated vs pos \<le> vs ! min (nat \<lfloor>pos\<rfloor> + 1) (length vs - 1)" by (rule b(3))
  also have "\<dots> \<le> vs ! nat \<lfloor>pos'\<rfloor>"
    by (rule sorted_nth_mono [OF assms(1)]) (use less b'(1) in auto)
  also have "\<dots> \<le> interpolated vs pos'" by (rule b'(2))
  finally show ?thesis .
qed

lemma sorted_ends:
  assumes "sorted vs" and "vs \<noteq> []"
  shows "vs ! 0 = Min (set vs)" and "vs ! (length vs - 1) = Max (set vs)"
proof -
  have mem: "vs ! 0 \<in> set vs" "vs ! (length vs - 1) \<in> set vs" using assms(2) by simp_all
  have "vs ! 0 \<le> v \<and> v \<le> vs ! (length vs - 1)" if "v \<in> set vs" for v
    using that assms(1) by (auto simp: in_set_conv_nth intro!: sorted_nth_mono)
  then show "vs ! 0 = Min (set vs)" "vs ! (length vs - 1) = Max (set vs)"
    using mem by (auto intro!: Min_eqI [symmetric] Max_eqI [symmetric])
qed

text \<open>
  Percentiles of measured times are ordered as their ranks are, so the reported p50 is never
  above p95, and they run from the smallest time (rank 0) to the largest (rank 1).
\<close>

lemma percentile_monotone:
  fixes q :: "'d::floor_ceiling"
  assumes "ms \<noteq> []" and "0 \<le> q" and "q \<le> q'" and "q' \<le> 1"
  shows "percentile_ms ms q \<le> percentile_ms ms q'
    \<and> percentile_ms ms 0 = Min (set ms) \<and> percentile_ms ms 1 = Max (set ms)"
proof (intro conjI)
  let ?vs = "sort ms" and ?n = "of_nat (length ms - 1) :: 'd"
  have vs: "sorted ?vs" "?vs \<noteq> []" using assms(1) by simp_all
  have "0 \<le> q * ?n" "q * ?n \<le> q' * ?n" "q' * ?n \<le> of_nat (length ?vs - 1)"
    using assms(2-4) by (simp_all add: mult_right_mono mult_left_le_one_le order_trans [OF assms(2,3)])
  then show "percentile_ms ms q \<le> percentile_ms ms q'"
    using vs by (simp add: percentile_interpolated [OF assms(1)] interpolated_mono)
  have "percentile_ms ms 0 = ?vs ! 0"
    by (simp add: percentile_interpolated [OF assms(1)] interpolated_def)
  then show "percentile_ms ms 0 = Min (set ms)" using sorted_ends(1) [OF vs] by simp
  have "percentile_ms ms 1 = ?vs ! (length ms - 1)"
    by (simp add: percentile_interpolated [OF assms(1)] interpolated_def Let_def)
  then show "percentile_ms ms 1 = Max (set ms)" using sorted_ends(2) [OF vs] by simp
qed

section \<open>Sums of vectors\<close>

lemma option_fold_blocks: "option_fold (\<lambda>x. option_fold (\<lambda>w. g (x * n + w)) [0..<n]) [0..<m] s = option_fold g [0..<m * n] s"
proof -
  have "option_fold (\<lambda>x. option_fold (\<lambda>w. g (x * n + w)) [0..<n]) [0..<m] s
      = option_fold g (concat (map (\<lambda>x. map (\<lambda>w. x * n + w) [0..<n]) [0..<m])) s"
    unfolding option_fold_concat [symmetric] option_fold_map ..
  then show ?thesis by (simp only: concat_upt div_mult_mod_eq map_ident)
qed

text \<open>What a grid does, and the only way in which it goes outside\<close>

lemma vector_add_blocks_run:
  "vector_add_blocks a b c n grid block =
     (let m = min n (grid * block)
      in if m \<le> length a \<and> m \<le> length b \<and> m \<le> length c
         then Some (map (\<lambda>i. a ! i + b ! i) [0..<m] @ drop m c) else None)"
proof -
  let ?step = "\<lambda>idx c. if idx < n
    then Option.bind (peek a idx) (\<lambda>u. Option.bind (peek b idx) (\<lambda>v. poke idx (u + v) c)) else Some c"
  let ?in = "\<lambda>m. m \<le> length a \<and> m \<le> length b \<and> m \<le> length c"
  let ?out = "\<lambda>m. map (\<lambda>i. a ! i + b ! i) [0..<m] @ drop m c"
  have "option_fold ?step [0..<k] c = (if ?in (min n k) then Some (?out (min n k)) else None)" for k
  proof (induction k)
    case (Suc k)
    show ?case
    proof (cases "k < n \<and> ?in (Suc k)")
      case True
      then have "drop k c = c ! k # drop (Suc k) c" by (simp add: Cons_nth_drop_Suc)
      then have "(?out k)[k := a ! k + b ! k] = ?out (Suc k)" by (simp add: list_update_append)
      moreover have "min n k = k" "min n (Suc k) = Suc k" using True by simp_all
      ultimately show ?thesis using True Suc by (simp add: option_fold_app)
    next
      case False
      then show ?thesis using Suc by (auto simp: option_fold_app min_def not_le not_less less_Suc_eq_le peek_def poke_def)
    qed
  qed simp
  moreover have "vector_add_blocks a b c n grid block = option_fold ?step [0..<grid * block] c"
    unfolding vector_add_blocks_def vector_add_kernel_def Let_def by (rule option_fold_blocks)
  ultimately show ?thesis by (simp add: Let_def)
qed

lemma vector_add_grid_exact:
  assumes "0 < block" and "n + block < 2 ^ 64"
  shows "vector_add_grid_size (of_nat n) (int block) = of_nat ((n + block - 1) div block)"
proof -
  have "of_nat n + of_int (int block) - 1 = (of_nat (n + block - 1) :: u64)"
    using assms(1) by (simp add: of_nat_diff algebra_simps)
  then have "unat ((of_nat n + of_int (int block) - 1) div of_int (int block) :: u64) = (n + block - 1) div block"
    using assms(2) by (simp only: of_int_of_nat_eq unat_div unat_of_nat) (simp add: take_bit_nat_eq_self)
  then show ?thesis by (metis vector_add_grid_size_def of_nat_unat)
qed

text \<open>
  C32. The launch adds the vectors: every element up to the length is the sum, the rest of the output
  is untouched, whatever the length and the block size (while the grid fits an \<^verbatim>\<open>int\<close>). It goes through exactly
  when all three vectors have the length: no thread reads or writes behind it.
\<close>

theorem vector_add_adds:
  assumes "0 < n" and "0 < block" and "block \<le> 1024" and "n < 2 ^ 31"
  shows "vector_add a b c n block =
    (if n \<le> length a \<and> n \<le> length b \<and> n \<le> length c
     then Some (map (\<lambda>i. a ! i + b ! i) [0..<n] @ drop n c) else None)"
proof -
  let ?g = "(n + block - 1) div block"
  have grid: "vector_add_grid_size (of_nat n) (int block) = of_nat ?g"
    by (rule vector_add_grid_exact) (use assms in simp_all)
  have "n + block - 1 < Suc ?g * block"
    using assms(2) by (simp add: dividend_less_div_times)
  then have covered: "n \<le> ?g * block" by simp
  have "?g \<le> n + block - 1" by (rule div_le_dividend)
  have small: "?g < 2 ^ 31"
    using assms(2-4) by (cases "block = 1") (auto simp: less_mult_imp_div_less)
  have "0 < ?g" using covered assms(1) by (cases ?g) auto
  then have launch: "launchable (of_nat ?g) (int block)"
    using assms(2,3) small by (simp add: launchable_def sint_of_nat_i32)
  have "unat (of_nat ?g :: i32) = ?g" using small by (simp add: unat_of_nat take_bit_nat_eq_self)
  then have "vector_add a b c n block = vector_add_blocks a b c n ?g block"
    using launch by (simp add: vector_add_def Let_def grid)
  then show ?thesis using covered by (simp add: vector_add_blocks_run min_absorb1)
qed

theorem vector_add_adds_witness:
  "vector_add [1, 2, 3] [10, 20, 30] [0, 0, 0, 9 :: int] 3 2 = Some [11, 22, 33, 9]
    \<and> vector_add [1, 2, 3] [10, 20] [0, 0, 0, 9 :: int] 3 2 = None"
  using vector_add_adds [of 3 2 "[1, 2, 3]" "[10, 20, 30]" "[0, 0, 0, 9 :: int]"]
    vector_add_adds [of 3 2 "[1, 2, 3]" "[10, 20]" "[0, 0, 0, 9 :: int]"] by (simp add: numeral_3_eq_3)

end
