(* ===== verification/Bench_Programs.thy ===== *)
theory Bench_Programs
  imports Cuda_Runtime Roofline_Bench
begin

text \<open>
  The two programs of \<^verbatim>\<open>bandwidth-roofline-mini\<close>, \<^verbatim>\<open>reduction\<close> and \<^verbatim>\<open>vector_add\<close>, from the command line to
  the exit status: device memory, the warm-up and the measured launches, events, the report. What
  both files have in common is written once here. Numbers are of any archimedean ordered field; a
  quotient that is not a finite number is \<open>None\<close>. The usage text and messages on standard error are
  not logged.
\<close>

section \<open>The report\<close>

record 'd bench_result =
  res_kernel :: string
  res_n :: u64
  res_warmup :: i32
  res_repeat :: i32
  res_read_bytes :: u64
  res_write_bytes :: u64
  res_bytes_per_iter :: u64
  res_flops :: 'd
  res_intensity :: "'d option"
  res_region :: string
  res_knee :: 'd
  res_p50_ms :: 'd
  res_p95_ms :: 'd
  res_sync_p50_ms :: 'd
  res_sync_p95_ms :: 'd
  res_gbs_p50 :: "'d option"
  res_gbs_p95 :: "'d option"

text \<open>
  The lines with \<^verbatim>\<open>#\<close> (the kernel, the device, the options) count as one.
\<close>

datatype 'd bench_line =
    Header string bytes u64 i32 i32 i32
  | Result "'d bench_result"

definition fdiv :: "'d::field \<Rightarrow> 'd \<Rightarrow> 'd option" where
  "fdiv x y = (if y = 0 then None else Some (x / y))"

text \<open>An intensity that is infinite or not a number is not below anything.\<close>

definition classify_intensity :: "'d::linordered_field option \<Rightarrow> 'd \<Rightarrow> 'd \<Rightarrow> string \<times> 'd" where
  "classify_intensity intensity peak_fp32_gflops peak_mem_gbs =
     (case intensity of
        Some ai \<Rightarrow> classify_roofline ai peak_fp32_gflops peak_mem_gbs
      | None \<Rightarrow> if peak_fp32_gflops > 0 \<and> peak_mem_gbs > 0
               then (''compute_bound'', peak_fp32_gflops / peak_mem_gbs) else (''needs_hardware_peaks'', 0))"

definition gigabytes_per_second :: "u64 \<Rightarrow> 'd::linordered_field \<Rightarrow> 'd option" where
  "gigabytes_per_second bytes ms = map_option (\<lambda>bps. bps / 1000000000) (fdiv (of_nat (unat bytes)) (ms / 1000))"

definition bench_report ::
  "string \<Rightarrow> 'd::floor_ceiling bench_options \<Rightarrow> u64 \<Rightarrow> u64 \<Rightarrow> u64 \<Rightarrow> 'd \<Rightarrow> 'd list \<Rightarrow> 'd list \<Rightarrow> 'd bench_result" where
  "bench_report name opts read_bytes write_bytes bytes_per_iter flops_per_iter times_ms sync_times_ms =
     (let arithmetic_intensity = fdiv flops_per_iter (of_nat (unat bytes_per_iter));
          (region, knee) =
            classify_intensity arithmetic_intensity (opt_peak_fp32_gflops opts) (opt_peak_mem_gbs opts);
          p50_ms = percentile_ms times_ms (50 / 100);
          p95_ms = percentile_ms times_ms (95 / 100)
      in \<lparr>res_kernel = name, res_n = opt_n opts, res_warmup = opt_warmup opts, res_repeat = opt_repeat opts,
          res_read_bytes = read_bytes, res_write_bytes = write_bytes, res_bytes_per_iter = bytes_per_iter,
          res_flops = flops_per_iter, res_intensity = arithmetic_intensity, res_region = region, res_knee = knee,
          res_p50_ms = p50_ms, res_p95_ms = p95_ms,
          res_sync_p50_ms = percentile_ms sync_times_ms (50 / 100),
          res_sync_p95_ms = percentile_ms sync_times_ms (95 / 100),
          res_gbs_p50 = gigabytes_per_second bytes_per_iter p50_ms,
          res_gbs_p95 = gigabytes_per_second bytes_per_iter p95_ms\<rparr>)"

section \<open>What the programs share\<close>

type_synonym ('d, 'a) bench_prog = "(ending, ('d, 'd bench_line) device, 'a) prog"

definition print_header :: "string \<Rightarrow> bytes \<Rightarrow> 'd bench_options \<Rightarrow> ('d, unit) bench_prog" where
  "print_header name device_name opts =
     seq (checked (ret ()))       \<comment> \<open>\<^verbatim>\<open>cudaGetDevice\<close>\<close>
     (seq (checked (ret ()))      \<comment> \<open>\<^verbatim>\<open>cudaGetDeviceProperties\<close>\<close>
       (print (Header name device_name (opt_n opts) (opt_warmup opts) (opt_repeat opts) (opt_block opts))))"

text \<open>One measured launch \<open>go\<close> between two events and two readings of the clock\<close>

definition measured_run ::
  "('d::zero, unit) bench_prog \<Rightarrow> nat \<Rightarrow> nat \<Rightarrow> 'd list \<times> 'd list \<Rightarrow> ('d, 'd list \<times> 'd list) bench_prog" where
  "measured_run go start stop = (\<lambda>(times_ms, sync_times_ms).
     seq (checked cudaDeviceSynchronize)
     (seq (checked (cudaEventRecord start))
     (seq go
     (seq (checked (cudaEventRecord stop))
     (seq (checked cudaDeviceSynchronize)
     (bind clock_difference (\<lambda>sync_ms.
      seq checked_last_error
     (bind (checked (cudaEventElapsedTime start stop)) (\<lambda>ms.
        ret (times_ms @ [ms], sync_times_ms @ [sync_ms]))))))))))"

text \<open>
  The warm-up, the events and the measured launches. \<^verbatim>\<open>reserve\<close> converts a negative \<^verbatim>\<open>repeat\<close> to a size that
  no vector can have, and throws.
\<close>

definition timed_launches ::
  "i32 \<Rightarrow> i32 \<Rightarrow> ('d::zero, unit) bench_prog \<Rightarrow> ('d, nat \<times> nat \<times> 'd list \<times> 'd list) bench_prog" where
  "timed_launches warmup repeat go =
     seq (iterate (nat (sint warmup)) (\<lambda>_. go) ())
     (seq checked_last_error
     (seq (checked cudaDeviceSynchronize)
     (bind (checked cudaEventCreate) (\<lambda>start.
      bind (checked cudaEventCreate) (\<lambda>stop.
      if sint repeat < 0 then throw Killed
      else bind (iterate (nat (sint repeat)) (measured_run go start stop) ([], [])) (\<lambda>(times_ms, sync_times_ms).
        ret (start, stop, times_ms, sync_times_ms)))))))"

definition clean_up :: "nat \<Rightarrow> nat \<Rightarrow> nat list \<Rightarrow> (ending, ('d, 'l) device, unit) prog" where
  "clean_up start stop buffers =
     seq (checked (cudaEventDestroy start))
     (seq (checked (cudaEventDestroy stop))
       (for_each (\<lambda>p. checked (cudaFree p)) buffers))"

section \<open>reduction\<close>

text \<open>
  The launch on device memory, with \<^verbatim>\<open>n\<close> as the kernel has it, and a schedule for the warp of every block.
  \<open>None\<close>: a thread reads or writes outside a buffer or the shared memory.
\<close>

definition reduction_step ::
  "nat \<Rightarrow> nat \<Rightarrow> nat \<Rightarrow> nat \<Rightarrow> nat \<Rightarrow> (nat \<Rightarrow> nat list) \<Rightarrow> (nat \<rightharpoonup> 'd::{zero,plus} list) \<Rightarrow> (nat \<rightharpoonup> 'd list) option" where
  "reduction_step d_x d_partial n grid block schedule mem =
     (case (mem d_x, mem d_partial) of
        (Some x, Some partial) \<Rightarrow>
          map_option (\<lambda>partial. mem(d_partial \<mapsto> partial)) (reduce_blocks schedule x n grid block partial)
      | _ \<Rightarrow> None)"

definition reduction_report ::
  "'d::floor_ceiling bench_options \<Rightarrow> 'd list \<Rightarrow> 'd list \<Rightarrow> 'd bench_result" where
  "reduction_report opts =
     (let n = opt_n opts;
          grid_size = reduce_grid_size n (sint (opt_block opts));
          input_bytes = n * 4;
          partial_bytes = scast grid_size * 4;
          bytes_per_iter = input_bytes + partial_bytes;
          flops_per_iter = (if n > scast grid_size then of_nat (unat (n - scast grid_size)) else 0)
      in bench_report ''reduction_stage1'' opts input_bytes partial_bytes bytes_per_iter flops_per_iter)"

text \<open>\<open>sched i b\<close> is the order of the last additions of the warp of block \<open>b\<close> in launch \<open>i\<close>.\<close>

definition reduction_main ::
  "(nat \<Rightarrow> nat \<Rightarrow> nat list) \<Rightarrow> bytes \<Rightarrow> (nat \<Rightarrow> 'd) \<Rightarrow> 'd::floor_ceiling bench_options \<Rightarrow> ('d, int) bench_prog" where
  "reduction_main sched device_name splat opts =
     seq (print_header ''reduction_stage1'' device_name opts)
     (if opt_block opts = 0 then throw Killed    \<comment> \<open>division by zero\<close>
      else
        let n = opt_n opts;
            block_size = sint (opt_block opts);
            grid_size = reduce_grid_size n block_size
        in bind (checked (cudaMalloc (n * 4))) (\<lambda>d_x.
           bind (checked (cudaMalloc (scast grid_size * 4))) (\<lambda>d_partial.
           seq (checked (cudaMemset d_x (splat 1)))
           (seq (checked (cudaMemset d_partial (splat 0)))
           (bind (timed_launches (opt_warmup opts) (opt_repeat opts)
                   (launch (launchable grid_size block_size) [d_x, d_partial]
                     (\<lambda>i. reduction_step d_x d_partial (unat n) (unat grid_size) (nat block_size) (sched i))))
              (\<lambda>(start, stop, times_ms, sync_times_ms).
            seq (print (Result (reduction_report opts times_ms sync_times_ms)))
            (seq (clean_up start stop [d_x, d_partial]) (ret 0))))))))"

section \<open>vector_add\<close>

definition vector_add_step ::
  "nat \<Rightarrow> nat \<Rightarrow> nat \<Rightarrow> nat \<Rightarrow> nat \<Rightarrow> nat \<Rightarrow> (nat \<rightharpoonup> 'd::plus list) \<Rightarrow> (nat \<rightharpoonup> 'd list) option" where
  "vector_add_step d_a d_b d_c n grid block mem =
     (case (mem d_a, mem d_b, mem d_c) of
        (Some a, Some b, Some c) \<Rightarrow>
          map_option (\<lambda>c. mem(d_c \<mapsto> c)) (vector_add_blocks a b c n grid block)
      | _ \<Rightarrow> None)"

definition vector_add_report ::
  "'d::floor_ceiling bench_options \<Rightarrow> 'd list \<Rightarrow> 'd list \<Rightarrow> 'd bench_result" where
  "vector_add_report opts =
     (let n = opt_n opts;
          bytes = n * 4;
          bytes_per_iter = 3 * bytes;
          flops_per_iter = of_nat (unat n)
      in bench_report ''vector_add'' opts (2 * bytes) bytes bytes_per_iter flops_per_iter)"

definition vector_add_main ::
  "bytes \<Rightarrow> (nat \<Rightarrow> 'd) \<Rightarrow> 'd::floor_ceiling bench_options \<Rightarrow> ('d, int) bench_prog" where
  "vector_add_main device_name splat opts =
     seq (print_header ''vector_add'' device_name opts)
     (let n = opt_n opts;
          block_size = sint (opt_block opts);
          bytes = n * 4
      in bind (checked (cudaMalloc bytes)) (\<lambda>d_a.
         bind (checked (cudaMalloc bytes)) (\<lambda>d_b.
         bind (checked (cudaMalloc bytes)) (\<lambda>d_c.
         seq (checked (cudaMemset d_a (splat 1)))
         (seq (checked (cudaMemset d_b (splat 2)))
         (seq (checked (cudaMemset d_c (splat 0)))
         (if opt_block opts = 0 then throw Killed    \<comment> \<open>division by zero\<close>
          else let grid_size = vector_add_grid_size n block_size
          in bind (timed_launches (opt_warmup opts) (opt_repeat opts)
                    (launch (launchable grid_size block_size) [d_a, d_b, d_c]
                      (\<lambda>i. vector_add_step d_a d_b d_c (unat n) (unat grid_size) (nat block_size))))
               (\<lambda>(start, stop, times_ms, sync_times_ms).
             seq (print (Result (vector_add_report opts times_ms sync_times_ms)))
             (seq (clean_up start stop [d_a, d_b, d_c]) (ret 0))))))))))"

section \<open>The programs\<close>

definition bench_program ::
  "('d::floor_ceiling bench_options \<Rightarrow> ('d, int) bench_prog) \<Rightarrow> (bytes \<Rightarrow> ('d \<times> bytes) option) \<Rightarrow> bytes list
    \<Rightarrow> ('d, int) bench_prog" where
  "bench_program run strtod args =
     (case parse_args strtod default_options args of
        Show_Help \<Rightarrow> ret 0
      | Exit_Failure \<Rightarrow> throw (Exit 1)
      | Bench opts \<Rightarrow> run opts)"

end
