(* ===== verification/Bench_Laws.thy ===== *)
theory Bench_Laws
  imports Bench_Programs
begin

text \<open>
  The rules that follow a benchmark from call to call. A ghost state says what the program owns, what
  it has printed, how many launches it has made and how many measured times it has read; \<open>running\<close> ties it
  to the device, \<open>stops\<close> says how the process may end early. Both have a case for a device on which
  nothing fails (\<open>good\<close>), and one for kernels that stay in their buffers (\<open>safe\<close>).
\<close>

section \<open>The state of a run\<close>

record ghost =
  owned :: "nat \<rightharpoonup> nat"
  events :: "nat set"
  runs :: nat
  events_read :: nat
  clocks_read :: nat

definition running ::
  "bool \<Rightarrow> bool \<Rightarrow> ('d, 'l) device \<Rightarrow> 'l list \<Rightarrow> ghost \<Rightarrow> ('d, 'l) device \<Rightarrow> bool" where
  "running good safe d0 out g d \<longleftrightarrow>
     owns d0 (owned g) (events g) d \<and> printed d = printed d0 @ out
     \<and> event_ms d = drop (events_read g) (event_ms d0) \<and> clock_ms d = drop (clocks_read g) (clock_ms d0)
     \<and> (safe \<longrightarrow> fault d = fault d0 \<and> strayed d = strayed d0 \<and> overruns d = overruns d0)
     \<and> (good \<longrightarrow> calm d \<and> launches d = launches d0 + runs g)"

definition stops :: "bool \<Rightarrow> bool \<Rightarrow> bool \<Rightarrow> ('d, 'l) device \<Rightarrow> ending \<Rightarrow> ('d, 'l) device \<Rightarrow> bool" where
  "stops good safe killed d0 x d \<longleftrightarrow>
     (x = Exit 1 \<and> \<not> good \<or> x = Killed \<and> killed) \<and> (safe \<longrightarrow> fault d = fault d0 \<and> strayed d = strayed d0)"

definition start_ghost :: ghost where
  "start_ghost = \<lparr>owned = Map.empty, events = {}, runs = 0, events_read = 0, clocks_read = 0\<rparr>"

lemma running_start: "device_ok d \<Longrightarrow> (good \<Longrightarrow> calm d) \<Longrightarrow> running good safe d [] start_ghost d"
  by (simp add: running_def start_ghost_def owns_start)

named_theorems calls "the rules for the calls of a run"

lemma checked_call [calls]:
  assumes "running good safe d0 out g d"
    and "\<And>d. running good safe d0 out g d \<Longrightarrow> ends m (stops good safe killed d0) Q d"
  shows "ends (checked m) (stops good safe killed d0) Q d"
proof (cases "api_errors d")
  case Nil
  then show ?thesis
    using assms(1) assms(2) [OF assms(1)]
    by (auto simp: checked_def ends_def running_def stops_def calm_def)
next
  case (Cons e es)
  have "running good safe d0 out g (d\<lparr>api_errors := es\<rparr>)"
    using assms(1) Cons by (auto simp: running_def calm_def)
  from assms(2) [OF this] show ?thesis
    using assms(1) Cons by (auto simp: checked_def ends_def running_def stops_def calm_def Let_def)
qed

lemma ret_call [calls]:
  "running good safe d0 out g d \<Longrightarrow> (\<And>d. running good safe d0 out g d \<Longrightarrow> Q v d)
    \<Longrightarrow> ends (ret v) X Q d"
  by (simp add: ends_ret)

lemma print_call [calls]:
  "running good safe d0 out g d \<Longrightarrow> (\<And>d. running good safe d0 (out @ [line]) g d \<Longrightarrow> Q () d)
    \<Longrightarrow> ends (print line) X Q d"
  by (simp add: print_def ends_upd running_def calm_def)

lemma malloc_call [calls]:
  assumes "running good safe d0 out g d"
    and "\<And>p d. owned g p = None \<Longrightarrow> running good safe d0 out (g\<lparr>owned := (owned g)(p \<mapsto> unat bytes div 4)\<rparr>) d \<Longrightarrow> Q p d"
  shows "ends (cudaMalloc bytes) X Q d"
proof -
  have "owned g (next_pointer d) = None"
    using assms(1) by (auto simp: running_def owns_def dom_def)
  then show ?thesis
    using assms(1)
    by (auto simp: cudaMalloc_def ends_def running_def calm_def intro!: assms(2) owns_malloc)
qed

lemma same_shape_map: "same_shape sz mem (mem(p := map_option (map h) (mem p)))" if "sz p \<noteq> None"
  using that by (auto simp: same_shape_def option.map_comp comp_def)

lemma memset_call [calls]:
  assumes "running good safe d0 out g d" and "owned g p \<noteq> None"
    and "\<And>d. running good safe d0 out g d \<Longrightarrow> Q () d"
  shows "ends (cudaMemset p v) X Q d"
  using assms(1,2)
  by (auto simp: cudaMemset_def ends_upd running_def calm_def intro!: assms(3) owns_same_shape same_shape_map)

lemma memcpy_call [calls]:
  assumes "running good safe d0 out g d" and "owned g p \<noteq> None"
    and "\<And>d. running good safe d0 out g d \<Longrightarrow> Q () d"
  shows "ends (cudaMemcpy p h) X Q d"
proof -
  have "same_shape (owned g) (memory d) ((memory d)(p := map_option (\<lambda>xs. map h [0..<length xs]) (memory d p)))"
    using assms(2) by (auto simp: same_shape_def option.map_comp comp_def)
  then show ?thesis
    using assms(1) by (auto simp: cudaMemcpy_def ends_upd running_def calm_def intro!: assms(3) owns_same_shape)
qed

lemma synchronize_call [calls]:
  "running good safe d0 out g d \<Longrightarrow> (\<And>d. running good safe d0 out g d \<Longrightarrow> Q () d)
    \<Longrightarrow> ends cudaDeviceSynchronize X Q d"
  by (simp add: cudaDeviceSynchronize_def ends_ret)

lemma last_error_call [calls]:
  assumes "running good safe d0 out g d"
    and "\<And>d. running good safe d0 out g d \<Longrightarrow> Q () d"
  shows "ends checked_last_error (stops good safe killed d0) Q d"
  unfolding checked_last_error_def
proof (rule checked_call [OF assms(1)])
  fix d assume "running good safe d0 out g d"
  then show "ends (\<lambda>d. if launch_error d \<noteq> 0 then throw (Exit 1) (d\<lparr>launch_error := 0\<rparr>) else ret () d)
      (stops good safe killed d0) Q d"
    using assms(2) by (auto simp: ends_def running_def stops_def calm_def)
qed

lemma event_create_call [calls]:
  assumes "running good safe d0 out g d"
    and "\<And>e d. e \<notin> events g \<Longrightarrow> running good safe d0 out (g\<lparr>events := insert e (events g)\<rparr>) d \<Longrightarrow> Q e d"
  shows "ends cudaEventCreate X Q d"
proof -
  have "next_event d \<notin> events g"
    using assms(1) by (auto simp: running_def owns_def device_ok_def)
  then show ?thesis
    using assms(1)
    by (auto simp: cudaEventCreate_def ends_def running_def calm_def intro!: assms(2) owns_event_create)
qed

lemma event_record_call [calls]:
  "running good safe d0 out g d \<Longrightarrow> (\<And>d. running good safe d0 out g d \<Longrightarrow> Q () d)
    \<Longrightarrow> ends (cudaEventRecord e) X Q d"
  by (simp add: cudaEventRecord_def ends_ret)

lemma event_destroy_call [calls]:
  assumes "running good safe d0 out g d" and "e \<in> events g"
    and "\<And>d. running good safe d0 out (g\<lparr>events := events g - {e}\<rparr>) d \<Longrightarrow> Q () d"
  shows "ends (cudaEventDestroy e) X Q d"
  using assms(1,2)
  by (auto simp: cudaEventDestroy_def ends_upd running_def calm_def intro!: assms(3) owns_event_destroy)

lemma free_call [calls]:
  assumes "running good safe d0 out g d" and "owned g p \<noteq> None"
    and "\<And>d. running good safe d0 out (g\<lparr>owned := (owned g)(p := None)\<rparr>) d \<Longrightarrow> Q () d"
  shows "ends (cudaFree p) X Q d"
  using assms(1,2)
  by (auto simp: cudaFree_def ends_upd running_def calm_def intro!: assms(3) owns_free)

text \<open>The time of an event or of the clock with a given number, 0 when there are no more\<close>

definition reading :: "'d::zero list \<Rightarrow> nat \<Rightarrow> 'd" where
  "reading ts i = (if i < length ts then ts ! i else 0)"

lemma drop_reading: "drop i ts = (if i < length ts then reading ts i # drop (Suc i) ts else [])"
  by (simp add: reading_def Cons_nth_drop_Suc)

lemma elapsed_call [calls]:
  assumes "running good safe d0 out g d"
    and "\<And>d. running good safe d0 out (g\<lparr>events_read := Suc (events_read g)\<rparr>) d
           \<Longrightarrow> Q (reading (event_ms d0) (events_read g)) d"
  shows "ends (cudaEventElapsedTime start stop) X Q d"
proof -
  let ?t = "reading (event_ms d0) (events_read g)"
  let ?d = "if events_read g < length (event_ms d0) then d\<lparr>event_ms := drop (Suc (events_read g)) (event_ms d0)\<rparr> else d"
  have "running good safe d0 out (g\<lparr>events_read := Suc (events_read g)\<rparr>) ?d"
    using assms(1) by (auto simp: running_def calm_def)
  then have "Q ?t ?d" by (rule assms(2))
  moreover have "cudaEventElapsedTime start stop d = (Inr ?t, ?d)"
    using assms(1) by (simp add: cudaEventElapsedTime_def running_def drop_reading [of "events_read g"])
      (simp add: reading_def)
  ultimately show ?thesis by (simp add: ends_def)
qed

lemma clock_call [calls]:
  assumes "running good safe d0 out g d"
    and "\<And>d. running good safe d0 out (g\<lparr>clocks_read := Suc (clocks_read g)\<rparr>) d
           \<Longrightarrow> Q (reading (clock_ms d0) (clocks_read g)) d"
  shows "ends clock_difference X Q d"
proof -
  let ?t = "reading (clock_ms d0) (clocks_read g)"
  let ?d = "if clocks_read g < length (clock_ms d0) then d\<lparr>clock_ms := drop (Suc (clocks_read g)) (clock_ms d0)\<rparr> else d"
  have "running good safe d0 out (g\<lparr>clocks_read := Suc (clocks_read g)\<rparr>) ?d"
    using assms(1) by (auto simp: running_def calm_def)
  then have "Q ?t ?d" by (rule assms(2))
  moreover have "clock_difference d = (Inr ?t, ?d)"
    using assms(1) by (simp add: clock_difference_def running_def drop_reading [of "clocks_read g"])
      (simp add: reading_def)
  ultimately show ?thesis by (simp add: ends_def)
qed

text \<open>
  A launch of a kernel that keeps the lengths of the buffers; it is \<open>safe\<close> when the kernel stays within
  them, and \<open>good\<close> when it is accepted, too.
\<close>

definition well_behaved ::
  "bool \<Rightarrow> (nat \<rightharpoonup> nat) \<Rightarrow> (nat \<Rightarrow> (nat \<rightharpoonup> 'd list) \<Rightarrow> (nat \<rightharpoonup> 'd list) option) \<Rightarrow> bool" where
  "well_behaved safe sz ker \<longleftrightarrow>
     (\<forall>i mem mem'. ker i mem = Some mem' \<longrightarrow> same_shape sz mem mem')
     \<and> (safe \<longrightarrow> (\<forall>i mem. (\<forall>p n. sz p = Some n \<longrightarrow> map_option length (mem p) = Some n) \<longrightarrow> ker i mem \<noteq> None))"

lemma well_behavedI:
  assumes "\<And>i mem mem'. ker i mem = Some mem' \<Longrightarrow> same_shape sz mem mem'"
    and "\<And>i mem. safe \<Longrightarrow> (\<And>p n. sz p = Some n \<Longrightarrow> map_option length (mem p) = Some n) \<Longrightarrow> ker i mem \<noteq> None"
  shows "well_behaved safe sz ker"
  using assms unfolding well_behaved_def by meson

lemma launch_call [calls]:
  assumes "running good safe d0 out g d" and "well_behaved (safe \<and> accepted) (owned g) ker"
    and "set ps \<subseteq> dom (owned g)" and "good \<Longrightarrow> safe \<and> accepted"
    and "\<And>d. running good safe d0 out (g\<lparr>runs := Suc (runs g)\<rparr>) d \<Longrightarrow> Q () d"
  shows "ends (launch accepted ps ker) X Q d"
proof -
  have shape: "owns d0 (owned g) (events g) (d\<lparr>memory := mem\<rparr>)" if "ker i (memory d) = Some mem" for i mem
    using that assms(1,2) by (auto simp: running_def well_behaved_def intro!: owns_same_shape)
  have stray: "owns d0 (owned g) (events g) (stray ps (d\<lparr>launches := k\<rparr>))" for k
    using assms(1,3) by (intro owns_stray) (simp_all add: running_def)
  show ?thesis
  proof (cases "ker (launches d) (memory d)")
    case None
    then have "\<not> (safe \<and> accepted)"
      using assms(1,2) unfolding running_def well_behaved_def owns_def by metis
    then show ?thesis
      using assms(1,4) stray None by (auto simp: launch_def ends_upd running_def calm_def intro!: assms(5))
  next
    case (Some mem)
    then show ?thesis
      using assms(1,4) shape by (auto simp: launch_def ends_upd running_def calm_def intro!: assms(5))
  qed
qed

text \<open>Numbers of bytes and of blocks\<close>

lemma unat_times_4: "unat w < 2 ^ 62 \<Longrightarrow> unat (w * 4 :: u64) div 4 = unat w"
proof -
  assume "unat w < 2 ^ 62"
  then have "unat (w * 4) = unat w * 4" by (subst unat_mult_lem [THEN iffD1]) simp_all
  then show ?thesis by simp
qed

lemma unat_pos_i32:
  assumes "0 < sint grid"
  shows "unat (grid :: i32) = nat (sint grid)" and "unat (scast grid :: u64) = nat (sint grid)" and "unat grid < 2 ^ 31"
proof -
  have less: "sint grid < 2 ^ 31" using sint_lt [of grid] by simp
  have "take_bit k (sint grid) = sint grid" if "32 \<le> k" for k
  proof (rule take_bit_int_eq_self)
    have "(2 :: int) ^ 31 \<le> 2 ^ k" using that by (intro power_increasing) simp_all
    then show "sint grid < 2 ^ k" using less by linarith
  qed (use assms in simp)
  then have "take_bit LENGTH(32) (sint grid) = sint grid" and "take_bit LENGTH(64) (sint grid) = sint grid"
    by (simp_all del: take_bit_eq_mod)
  then have "uint grid = sint grid" and "uint (scast grid :: u64) = sint grid"
    by (simp_all only: uint_sint [of grid] scast_eq uint_word_of_int_eq)
  then show eq: "unat grid = nat (sint grid)" and "unat (scast grid :: u64) = nat (sint grid)"
    by (simp_all only: unat_eq_nat_uint)
  show "unat grid < 2 ^ 31" using less unfolding eq by simp
qed

section \<open>The loops\<close>

lemma measured_run_call:
  assumes "running good safe d0 out g d" and "well_behaved (safe \<and> accepted) (owned g) ker"
    and "set ps \<subseteq> dom (owned g)" and "good \<Longrightarrow> safe \<and> accepted"
    and "\<And>d. running good safe d0 out
           (g\<lparr>runs := Suc (runs g), clocks_read := Suc (clocks_read g), events_read := Suc (events_read g)\<rparr>) d
         \<Longrightarrow> Q (ts @ [reading (event_ms d0) (events_read g)], ss @ [reading (clock_ms d0) (clocks_read g)]) d"
  shows "ends (measured_run (launch accepted ps ker) start stop (ts, ss)) (stops good safe killed d0) Q d"
  unfolding measured_run_def prod.case ends_seq ends_bind
  by (assumption | rule assms calls)+ (use assms in simp)

definition readings :: "'d::zero list \<Rightarrow> nat \<Rightarrow> 'd list" where
  "readings ts n = map (reading ts) [0..<n]"

lemma readings_Suc: "readings ts (Suc n) = readings ts n @ [reading ts n]"
  by (simp add: readings_def)

lemma warm_up_call:
  assumes "running good safe d0 out g d" and "well_behaved (safe \<and> accepted) (owned g) ker"
    and "set ps \<subseteq> dom (owned g)" and "good \<Longrightarrow> safe \<and> accepted"
    and "\<And>d. running good safe d0 out (g\<lparr>runs := runs g + n\<rparr>) d \<Longrightarrow> Q () d"
  shows "ends (iterate n (\<lambda>_. launch accepted ps ker) ()) X Q d"
proof (rule ends_mono [OF ends_iterate [where I = "\<lambda>i _. running good safe d0 out (g\<lparr>runs := runs g + i\<rparr>)"]])
  show "running good safe d0 out (g\<lparr>runs := runs g + 0\<rparr>) d" using assms(1) by simp
  fix i s and a :: unit
  assume "running good safe d0 out (g\<lparr>runs := runs g + i\<rparr>) s"
  then show "ends (launch accepted ps ker) X (\<lambda>_. running good safe d0 out (g\<lparr>runs := runs g + Suc i\<rparr>)) s"
    by (rule launch_call) (use assms(2-4) in simp_all)
qed (use assms(5) in simp_all)

lemma measure_call:
  assumes "running good safe d0 out g d" and "well_behaved (safe \<and> accepted) (owned g) ker"
    and "set ps \<subseteq> dom (owned g)" and "good \<Longrightarrow> safe \<and> accepted"
    and "events_read g = 0" and "clocks_read g = 0"
    and "\<And>d. running good safe d0 out (g\<lparr>runs := runs g + n, clocks_read := n, events_read := n\<rparr>) d
           \<Longrightarrow> Q (readings (event_ms d0) n, readings (clock_ms d0) n) d"
  shows "ends (iterate n (measured_run (launch accepted ps ker) start stop) ([], [])) (stops good safe killed d0) Q d"
proof (rule ends_mono [OF ends_iterate [where
      I = "\<lambda>i a d. a = (readings (event_ms d0) i, readings (clock_ms d0) i)
         \<and> running good safe d0 out (g\<lparr>runs := runs g + i, clocks_read := i, events_read := i\<rparr>) d"]])
  have "g\<lparr>runs := runs g + 0, clocks_read := 0, events_read := 0\<rparr> = g" using assms(5,6) by (cases g) simp
  then show "([], []) = (readings (event_ms d0) 0, readings (clock_ms d0) 0)
      \<and> running good safe d0 out (g\<lparr>runs := runs g + 0, clocks_read := 0, events_read := 0\<rparr>) d"
    using assms(1) by (simp only: readings_def) simp
  fix i a s
  assume "a = (readings (event_ms d0) i, readings (clock_ms d0) i)
    \<and> running good safe d0 out (g\<lparr>runs := runs g + i, clocks_read := i, events_read := i\<rparr>) s"
  then show "ends (measured_run (launch accepted ps ker) start stop a) (stops good safe killed d0)
      (\<lambda>a d. a = (readings (event_ms d0) (Suc i), readings (clock_ms d0) (Suc i))
         \<and> running good safe d0 out (g\<lparr>runs := runs g + Suc i, clocks_read := Suc i, events_read := Suc i\<rparr>) d) s"
    by (elim conjE) (simp only:, rule measured_run_call, assumption, use assms(2-4) in \<open>simp_all add: readings_Suc\<close>)
qed (use assms(7) in auto)

lemma timed_launches_call:
  assumes "running good safe d0 out g d" and "well_behaved (safe \<and> accepted) (owned g) ker"
    and "set ps \<subseteq> dom (owned g)" and "good \<Longrightarrow> safe \<and> accepted"
    and "g = \<lparr>owned = sz, events = {}, runs = 0, events_read = 0, clocks_read = 0\<rparr>"
    and "sint repeat < 0 \<Longrightarrow> killed"
    and "\<And>start stop d. start \<noteq> stop \<Longrightarrow> 0 \<le> sint repeat \<Longrightarrow>
           running good safe d0 out \<lparr>owned = sz, events = {start, stop}, runs = nat (sint warmup) + nat (sint repeat),
             events_read = nat (sint repeat), clocks_read = nat (sint repeat)\<rparr> d
           \<Longrightarrow> Q (start, stop, readings (event_ms d0) (nat (sint repeat)), readings (clock_ms d0) (nat (sint repeat))) d"
  shows "ends (timed_launches warmup repeat (launch accepted ps ker)) (stops good safe killed d0) Q d"
  unfolding timed_launches_def ends_seq ends_bind
proof (rule warm_up_call [OF assms(1-4)], assumption, rule last_error_call, assumption, rule checked_call, assumption,
    rule synchronize_call, assumption, rule checked_call, assumption, rule event_create_call, assumption,
    rule checked_call, assumption, rule event_create_call, assumption, goal_cases)
  case (1 d1 d2 d3 d4 d5 start d6 d7 stop d8)
  show ?case
  proof (cases "sint repeat < 0")
    case True
    then show ?thesis using 1 assms(6) by (simp add: ends_throw stops_def running_def)
  next
    case False
    have "ends (iterate (nat (sint repeat)) (measured_run (launch accepted ps ker) start stop) ([], []))
       (stops good safe killed d0)
       (\<lambda>v. ends (case v of (times_ms, sync_times_ms) \<Rightarrow> ret (start, stop, times_ms, sync_times_ms))
              (stops good safe killed d0) Q) d8"
      by (rule measure_call, rule 1)
        (use assms(2-5,7) False 1 in \<open>simp_all add: ends_ret insert_commute\<close>)
    then show ?thesis using False by (simp add: ends_bind)
  qed
qed

lemma clean_up_call:
  assumes "running good safe d0 out g d" and "events g = {start, stop}" and "start \<noteq> stop"
    and "dom (owned g) = set ps" and "distinct ps"
    and "\<And>d. running good safe d0 out (g\<lparr>events := {}, owned := Map.empty\<rparr>) d \<Longrightarrow> Q () d"
  shows "ends (clean_up start stop ps) (stops good safe killed d0) Q d"
proof -
  have free: "ends (for_each (\<lambda>p. checked (cudaFree p)) ps) (stops good safe killed d0) Q d"
    if "running good safe d0 out g d" and "dom (owned g) = set ps" and "distinct ps"
      and "\<And>d. running good safe d0 out (g\<lparr>owned := Map.empty\<rparr>) d \<Longrightarrow> Q () d" for g d
    using that
  proof (induction ps arbitrary: g d)
    case Nil
    then have "g\<lparr>owned := Map.empty\<rparr> = g" by (cases g) simp
    then show ?case using Nil.prems(1,4) by (simp add: for_each.simps(1) ends_def)
  next
    case (Cons p ps)
    have dom: "dom ((owned g)(p := None)) = set ps"
      using Cons.prems(2,3) by (subst dom_fun_upd) simp
    have "ends (checked (cudaFree p)) (stops good safe killed d0)
        (\<lambda>_. ends (for_each (\<lambda>p. checked (cudaFree p)) ps) (stops good safe killed d0) Q) d"
    proof (rule checked_call [OF Cons.prems(1)], rule free_call, assumption)
      show "owned g p \<noteq> None" using Cons.prems(2) by auto
      fix d
      assume "running good safe d0 out (g\<lparr>owned := (owned g)(p := None)\<rparr>) d"
      then show "ends (for_each (\<lambda>p. checked (cudaFree p)) ps) (stops good safe killed d0) Q d"
        by (rule Cons.IH) (use Cons.prems(3,4) dom in \<open>simp_all del: dom_fun_upd add: fun_upd_def\<close>)
    qed
    then show ?case by (simp add: ends_seq)
  qed
  show ?thesis
    unfolding clean_up_def ends_seq
  proof (rule checked_call [OF assms(1)], rule event_destroy_call, assumption, use assms(2) in simp,
      rule checked_call, assumption, rule event_destroy_call, assumption, use assms(2,3) in simp, rule free, assumption)
    fix d
    assume "running good safe d0 out
      (g\<lparr>events := events g - {start}, events := events (g\<lparr>events := events g - {start}\<rparr>) - {stop}, owned := Map.empty\<rparr>) d"
    moreover have "{stop} - {start} - {stop} = {}" by blast
    ultimately show "Q () d" using assms(2,6) by simp
  qed (use assms(4,5) in simp_all)
qed

section \<open>Launches that fail\<close>

lemma iterate_fixed: "f a s = (Inr a, s) \<Longrightarrow> iterate n f a s = (Inr a, s)"
  by (induction n) simp_all

lemma failed_iterate:
  assumes "ker (launches d) (memory d) = None" and "calm d" and "overruns d = []" and "0 < n"
  shows "iterate n (\<lambda>_. launch True ps ker) () d
    = (Inr (), d\<lparr>launches := Suc (launches d), strayed := True, fault := 700\<rparr>)"
proof -
  let ?d = "d\<lparr>launches := Suc (launches d), strayed := True, fault := 700\<rparr>"
  obtain k where n: "n = Suc k" using assms(4) by (cases n) auto
  have one: "launch True ps ker d = (Inr (), ?d)" using assms by (simp add: launch_def calm_def stray_def)
  have "iterate k (\<lambda>_. launch True ps ker) () ?d = (Inr (), ?d)"
    by (rule iterate_fixed) (simp add: launch_def)
  then show ?thesis unfolding n iterate.simps by (simp only: bind_run one prod.case sum.case)
qed

text \<open>Launches that go through, one after the other\<close>

lemma iterate_launches:
  assumes "fault d = 0" and "I (memory d)" and "\<And>i mem. I mem \<Longrightarrow> \<exists>mem'. ker i mem = Some mem' \<and> I mem' \<and> Q mem'"
  shows "\<exists>mem. iterate (Suc n) (\<lambda>_. launch True ps ker) () d = (Inr (), d\<lparr>memory := mem, launches := launches d + Suc n\<rparr>) \<and> Q mem"
  using assms(1,2)
proof (induction n arbitrary: d)
  case (0 d)
  then obtain mem where "ker (launches d) (memory d) = Some mem" "Q mem" using assms(3) by blast
  then show ?case using 0(1) by (auto simp: launch_def bind_run)
next
  case (Suc n d)
  obtain mem where mem: "ker (launches d) (memory d) = Some mem" "I mem" using Suc.prems(2) assms(3) by blast
  let ?d = "d\<lparr>memory := mem, launches := launches d + 1\<rparr>"
  have one: "launch True ps ker d = (Inr (), ?d)" using mem(1) Suc.prems(1) by (simp add: launch_def)
  obtain mem' where "iterate (Suc n) (\<lambda>_. launch True ps ker) () ?d
      = (Inr (), ?d\<lparr>memory := mem', launches := launches ?d + Suc n\<rparr>)" "Q mem'"
    using Suc.IH [of ?d] Suc.prems(1) mem(2) by auto
  then show ?case by (auto simp: bind_run one simp del: iterate.simps(2) simp: iterate.simps(2) [of "Suc n"])
qed

text \<open>Nothing takes back that a kernel has strayed.\<close>

lemma keeps_checked [keeps_intros]: "keeps strayed m \<Longrightarrow> keeps strayed (checked m)"
  by (auto simp: keeps_def checked_def Let_def split: list.split)

lemma keeps_iterate [keeps_intros]: "(\<And>a. keeps I (f a)) \<Longrightarrow> keeps I (iterate n f a)"
  by (induction n arbitrary: a) (simp_all add: keeps_intros)

lemma keeps_launch [keeps_intros]: "keeps strayed (launch accepted ps ker)"
  by (auto simp: keeps_def launch_def split: option.split)

lemma keeps_calls [keeps_intros]:
  "keeps strayed (print line)" "keeps strayed clock_difference"
  "keeps strayed (cudaMalloc bytes)" "keeps strayed (cudaFree p)" "keeps strayed cudaDeviceSynchronize"
  "keeps strayed cudaEventCreate" "keeps strayed (cudaEventDestroy e)" "keeps strayed (cudaEventRecord e)"
  "keeps strayed (cudaEventElapsedTime e e')" "keeps strayed checked_last_error"
  by (auto simp: keeps_def print_def clock_difference_def cudaMalloc_def cudaFree_def cudaDeviceSynchronize_def
      cudaEventCreate_def cudaEventDestroy_def cudaEventRecord_def cudaEventElapsedTime_def checked_last_error_def
      checked_def Let_def split: list.split)

lemma keeps_clean_up [keeps_intros]: "keeps strayed (clean_up start stop ps)"
  unfolding clean_up_def by (intro keeps_intros)

lemma keeps_pair [keeps_intros]: "(\<And>a b. keeps I (f a b)) \<Longrightarrow> keeps I (case p of (a, b) \<Rightarrow> f a b)"
  by (cases p) simp

lemma keeps_timed_launches [keeps_intros]:
  "keeps strayed go \<Longrightarrow> keeps strayed (timed_launches warmup repeat go)"
  unfolding timed_launches_def measured_run_def by (intro keeps_intros)

lemma failed_launches:
  assumes "ker (launches d) (memory d) = None" and "calm d" and "0 < sint warmup"
  shows "strayed (snd (timed_launches warmup repeat (launch True ps ker) d))"
    and "overruns d = [] \<Longrightarrow> \<exists>d'. timed_launches warmup repeat (launch True ps ker) d = (Inl (Exit 1), d')"
proof -
  obtain n where n: "nat (sint warmup) = Suc n" using assms(3) by (cases "nat (sint warmup)") auto
  have "\<exists>d'. launch True ps ker d = (Inr (), d') \<and> strayed d'" using assms(1,2) by (simp add: launch_def calm_def)
  then obtain d' where d': "launch True ps ker d = (Inr (), d')" "strayed d'" by blast
  have "strayed (snd (seq (iterate (Suc n) (\<lambda>_. launch True ps ker) ()) rest d))" if "keeps strayed rest"
    for rest :: "(ending, ('a, 'a bench_line) device, 'c) prog"
  proof -
    have "keeps strayed (seq (iterate n (\<lambda>_. launch True ps ker) ()) rest)" by (intro keeps_intros that)
    moreover have "seq (iterate (Suc n) (\<lambda>_. launch True ps ker) ()) rest d = seq (iterate n (\<lambda>_. launch True ps ker) ()) rest d'"
      by (simp add: seq_run bind_run d'(1))
    ultimately show ?thesis using d'(2) by (simp add: keeps_def)
  qed
  then show "strayed (snd (timed_launches warmup repeat (launch True ps ker) d))"
    unfolding timed_launches_def measured_run_def n by this (intro keeps_intros)
  show "\<exists>d'. timed_launches warmup repeat (launch True ps ker) d = (Inl (Exit 1), d')" if "overruns d = []"
    using assms(3) unfolding timed_launches_def
    by (simp add: seq_run [of "iterate _ _ _"] failed_iterate [where ker = ker, OF assms(1,2) that] checked_last_error_def
        checked_def)
qed

lemma strays_on: "strayed (snd (m d)) \<Longrightarrow> (\<And>r. keeps strayed (f r)) \<Longrightarrow> strayed (snd (bind m f d))"
  by (auto simp: bind_run keeps_def split: prod.split sum.split)

text \<open>When nothing fails, a call is what it does.\<close>

lemma calm_checked_call:
  assumes "running True safe d0 out g d" and "\<And>d. running True safe d0 out g d \<Longrightarrow> ends m X Q d"
  shows "ends (checked m) X Q d"
proof (cases "api_errors d")
  case Nil
  then show ?thesis
    using assms(1) assms(2) [OF assms(1)] by (simp add: checked_def ends_def running_def calm_def)
next
  case (Cons e es)
  then have run: "running True safe d0 out g (d\<lparr>api_errors := es\<rparr>)" and "e = 0" "fault d = 0"
    using assms(1) by (auto simp: running_def calm_def)
  with assms(2) [OF run] Cons show ?thesis by (simp add: checked_def ends_def)
qed

end
