(* ===== verification/Bench_Properties.thy ===== *)
theory Bench_Properties
  imports Bench_Laws
begin

text \<open>
  What the programs \<^verbatim>\<open>reduction\<close> and \<^verbatim>\<open>vector_add\<close> do from the start to the end of the process: what they
  print, that nothing is left allocated, how they can end, and for which lengths the kernels stay in
  their buffers.
\<close>

section \<open>The launches\<close>

text \<open>Blocks of 64 threads and more stay in their buffers, whatever the order of the last additions.\<close>

lemma reduce_block_total:
  assumes "64 \<le> block" and "n \<le> length x"
  shows "\<exists>v. reduce_block schedule x n block b = Some v"
proof -
  let ?smem = "map (loaded (take n x) block b) [0..<block]"
  have "those (map (load_two x n block b) [0..<block]) = Some ?smem"
    by (rule those_map_all) (rule load_two_inside [OF assms(2)])
  moreover have "reduce_loop (+) 32 (block div 2) ?smem = Some (reduced (+) 32 (block div 2) ?smem)"
    by (rule reduce_loop_inside) simp
  moreover obtain smem where "run_lanes (schedule @ lock_step) (reduced (+) 32 (block div 2) ?smem) = Some smem"
      "length smem = block"
    using run_lanes_total [of "reduced (+) 32 (block div 2) ?smem"] assms(1) by auto
  ultimately show ?thesis using assms(1) by (simp add: reduce_block_def warp_tail_def)
qed

lemma reduction_step_shape:
  "reduction_step d_x d_partial n grid block schedule mem = Some mem' \<Longrightarrow> same_shape [d_x \<mapsto> k, d_partial \<mapsto> l] mem mem'"
proof -
  have "length partial' = length partial"
    if "reduce_blocks schedule x n grid block partial = Some partial'" for x and partial partial' :: "'a list"
    using that unfolding reduce_blocks_def
    by (rule option_fold_keeps [where I = "\<lambda>p. length p = length partial"])
      (auto split: Option.bind_splits dest: length_poke)
  then show "reduction_step d_x d_partial n grid block schedule mem = Some mem' \<Longrightarrow> same_shape [d_x \<mapsto> k, d_partial \<mapsto> l] mem mem'"
    by (auto simp: reduction_step_def same_shape_def split: option.splits)
qed

lemma reduction_well_behaved:
  fixes n :: u64
  assumes "d_x \<noteq> d_partial" and "safe \<Longrightarrow> unat n < 2 ^ 62 \<and> 64 \<le> block"
  shows "well_behaved (safe \<and> launchable grid b)
    [d_x \<mapsto> unat (n * 4) div 4, d_partial \<mapsto> unat (scast grid * 4 :: u64) div 4]
    (\<lambda>i. reduction_step d_x d_partial (unat n) (unat grid) block (sched i))"
proof (rule well_behavedI)
  have "reduction_step d_x d_partial (unat n) (unat grid) block (sched i) mem \<noteq> None"
    if "safe" and "launchable grid b" and "map_option length (mem d_x) = Some (unat (n * 4) div 4)"
      and "map_option length (mem d_partial) = Some (unat (scast grid * 4 :: u64) div 4)" for mem i
  proof -
    note lengths = that(3,4)
    have "unat (scast grid * 4 :: u64) div 4 = unat grid"
      using that(2) unat_pos_i32 [of grid] unat_times_4 [of "scast grid"] by (simp add: launchable_def)
    moreover have "unat (n * 4) div 4 = unat n" using that(1) assms(2) unat_times_4 [of n] by simp
    ultimately obtain x partial where x: "mem d_x = Some x" "length x = unat n"
        and partial: "mem d_partial = Some partial" "length partial = unat grid"
      using lengths by auto
    have "\<exists>v. reduce_block (sched i b) x (unat n) block b = Some v" for b
      by (rule reduce_block_total) (use assms(2) that(1) x(2) in simp_all)
    then obtain g where g: "\<And>b. reduce_block (sched i b) x (unat n) block b = Some (g b)" by metis
    from reduce_blocks_inside [of "unat grid" "sched i", OF g, of partial] show ?thesis
      using x(1) partial by (simp add: reduction_step_def)
  qed
  then show "reduction_step d_x d_partial (unat n) (unat grid) block (sched i) mem \<noteq> None"
    if "safe \<and> launchable grid b"
      and "\<And>p k. [d_x \<mapsto> unat (n * 4) div 4, d_partial \<mapsto> unat (scast grid * 4 :: u64) div 4] p = Some k
        \<Longrightarrow> map_option length (mem p) = Some k" for mem i
    using that(1) that(2) [of d_x] that(2) [of d_partial] assms(1) by simp
qed (rule reduction_step_shape)

lemma vector_add_step_shape:
  "vector_add_step d_a d_b d_c n grid block mem = Some mem' \<Longrightarrow>
    same_shape [d_a \<mapsto> k, d_b \<mapsto> l, d_c \<mapsto> j] mem mem'"
  by (auto simp: vector_add_step_def same_shape_def vector_add_blocks_run Let_def split: option.splits if_splits)

lemma vector_add_well_behaved:
  fixes n :: u64
  assumes "distinct [d_a, d_b, d_c]" and "safe \<Longrightarrow> unat n < 2 ^ 62"
  shows "well_behaved (safe \<and> launchable grid b)
    [d_a \<mapsto> unat (n * 4) div 4, d_b \<mapsto> unat (n * 4) div 4, d_c \<mapsto> unat (n * 4) div 4]
    (\<lambda>i. vector_add_step d_a d_b d_c (unat n) grid' block)"
proof (rule well_behavedI)
  have "vector_add_step d_a d_b d_c (unat n) grid' block mem \<noteq> None"
    if "safe" and "map_option length (mem d_a) = Some (unat (n * 4) div 4)"
      and "map_option length (mem d_b) = Some (unat (n * 4) div 4)"
      and "map_option length (mem d_c) = Some (unat (n * 4) div 4)" for mem
    using that assms(2) unat_times_4 [of n] by (auto simp: vector_add_step_def vector_add_blocks_run Let_def min_def)
  then show "vector_add_step d_a d_b d_c (unat n) grid' block mem \<noteq> None"
    if "safe \<and> launchable grid b"
      and "\<And>p k. [d_a \<mapsto> unat (n * 4) div 4, d_b \<mapsto> unat (n * 4) div 4, d_c \<mapsto> unat (n * 4) div 4] p = Some k
        \<Longrightarrow> map_option length (mem p) = Some k" for mem
    using that(1) that(2) [of d_a] that(2) [of d_b] that(2) [of d_c] assms(1) by simp
qed (rule vector_add_step_shape)

section \<open>Whole runs\<close>

lemma header_call:
  assumes "running good safe d0 [] g d"
    and "\<And>d. running good safe d0
           [Header name dev (opt_n opts) (opt_warmup opts) (opt_repeat opts) (opt_block opts)] g d \<Longrightarrow> Q () d"
  shows "ends (print_header name dev opts) (stops good safe killed d0) Q d"
  unfolding print_header_def ends_seq
  by (assumption | rule assms calls)+ (use assms(2) in simp)

text \<open>What both programs do between the last allocation and their end\<close>

lemma benchmark_call:
  assumes "running good safe d0 out \<lparr>owned = sz, events = {}, runs = 0, events_read = 0, clocks_read = 0\<rparr> d"
    and "well_behaved (safe \<and> accepted) sz ker" and "set ps \<subseteq> dom sz" and "good \<Longrightarrow> safe \<and> accepted"
    and "sint repeat < 0 \<Longrightarrow> killed" and "dom sz = set ps" and "distinct ps"
    and "\<And>d. running good safe d0 (out @ [line (readings (event_ms d0) (nat (sint repeat))) (readings (clock_ms d0) (nat (sint repeat)))])
           \<lparr>owned = Map.empty, events = {}, runs = nat (sint warmup) + nat (sint repeat),
             events_read = nat (sint repeat), clocks_read = nat (sint repeat)\<rparr> d \<Longrightarrow> Q 0 d"
  shows "ends (timed_launches warmup repeat (launch accepted ps ker)) (stops good safe killed d0)
     (\<lambda>r. ends (case r of (start, stop, times_ms, sync_times_ms) \<Rightarrow>
         seq (print (line times_ms sync_times_ms)) (seq (clean_up start stop ps) (ret 0)))
       (stops good safe killed d0) Q) d"
proof (rule timed_launches_call [OF assms(1) _ _ assms(4) refl assms(5)], goal_cases)
  case 1
  then show ?case using assms(2) by simp
next
  case 2
  then show ?case using assms(3) by simp
next
  case (5 start stop d)
  show ?case
    unfolding prod.case ends_seq
  proof (rule print_call [OF 5(3)], rule clean_up_call, assumption)
    fix d
    assume run: "running good safe d0 (out @ [line (readings (event_ms d0) (nat (sint repeat))) (readings (clock_ms d0) (nat (sint repeat)))])
        (\<lparr>owned = sz, events = {start, stop}, runs = nat (sint warmup) + nat (sint repeat),
          events_read = nat (sint repeat), clocks_read = nat (sint repeat)\<rparr>\<lparr>events := {}, owned := Map.empty\<rparr>) d"
    show "ends (ret 0) (stops good safe killed d0) Q d"
      unfolding ends_ret by (rule assms(8)) (use run in simp)
  qed (use 5 assms(6,7) in simp_all)
qed

text \<open>The end of a run: header and result printed, nothing owned, every launch made and measured\<close>

definition completed ::
  "bool \<Rightarrow> bool \<Rightarrow> ('d::zero, 'd bench_line) device \<Rightarrow> string \<Rightarrow> bytes \<Rightarrow> ('d list \<Rightarrow> 'd list \<Rightarrow> 'd bench_result)
    \<Rightarrow> 'd bench_options \<Rightarrow> int \<Rightarrow> ('d, 'd bench_line) device \<Rightarrow> bool" where
  "completed good safe d0 name dev report opts v d \<longleftrightarrow> v = 0 \<and>
     running good safe d0
       [Header name dev (opt_n opts) (opt_warmup opts) (opt_repeat opts) (opt_block opts),
        Result (report (readings (event_ms d0) (nat (sint (opt_repeat opts)))) (readings (clock_ms d0) (nat (sint (opt_repeat opts)))))]
       \<lparr>owned = Map.empty, events = {}, runs = nat (sint (opt_warmup opts)) + nat (sint (opt_repeat opts)),
         events_read = nat (sint (opt_repeat opts)), clocks_read = nat (sint (opt_repeat opts))\<rparr> d"

lemma reduction_main_ends:
  fixes opts :: "'d::floor_ceiling bench_options"
  defines "grid \<equiv> reduce_grid_size (opt_n opts) (sint (opt_block opts))"
  assumes "device_ok d" and "good \<Longrightarrow> calm d \<and> safe \<and> launchable grid (sint (opt_block opts))"
    and "safe \<Longrightarrow> unat (opt_n opts) < 2 ^ 62 \<and> (0 < sint (opt_block opts) \<longrightarrow> 64 \<le> sint (opt_block opts))"
    and "opt_block opts = 0 \<or> sint (opt_repeat opts) < 0 \<Longrightarrow> killed"
  shows "ends (reduction_main sched dev splat opts) (stops good safe killed d)
    (completed good safe d ''reduction_stage1'' dev (reduction_report opts) opts) d"
  unfolding reduction_main_def ends_seq
proof (rule header_call, rule running_start [OF assms(2)], use assms(3) in simp, goal_cases)
  case (1 d1)
  show ?case
  proof (cases "opt_block opts = 0")
    case True
    then show ?thesis using 1 assms(5) by (simp add: ends_throw stops_def running_def)
  next
    case False
    show ?thesis
      unfolding if_not_P [OF False] Let_def ends_bind ends_seq
    proof (rule checked_call [OF 1], rule malloc_call, assumption, rule checked_call, assumption, rule malloc_call, assumption,
        rule checked_call, assumption, rule memset_call, assumption, simp, rule checked_call, assumption,
        rule memset_call, assumption, simp, goal_cases)
      case (1 d2 d_x d3 d4 d_partial d5 d6 d7 d8 d9)
      have distinct: "d_x \<noteq> d_partial" using 1 by (auto simp: start_ghost_def)
      show ?case
      proof (rule benchmark_call [where sz =
            "[d_x \<mapsto> unat (opt_n opts * 4) div 4, d_partial \<mapsto> unat (scast grid * 4 :: u64) div 4]"])
        show "running good safe d [Header ''reduction_stage1'' dev (opt_n opts) (opt_warmup opts) (opt_repeat opts) (opt_block opts)]
          \<lparr>owned = [d_x \<mapsto> unat (opt_n opts * 4) div 4, d_partial \<mapsto> unat (scast grid * 4 :: u64) div 4], events = {},
            runs = 0, events_read = 0, clocks_read = 0\<rparr> d9"
          using 1 by (simp add: start_ghost_def grid_def)
        show "well_behaved (safe \<and> launchable (reduce_grid_size (opt_n opts) (sint (opt_block opts))) (sint (opt_block opts)))
          [d_x \<mapsto> unat (opt_n opts * 4) div 4, d_partial \<mapsto> unat (scast grid * 4 :: u64) div 4]
          (\<lambda>i. reduction_step d_x d_partial (unat (opt_n opts))
            (unat (reduce_grid_size (opt_n opts) (sint (opt_block opts)))) (nat (sint (opt_block opts))) (sched i))"
          using reduction_well_behaved [of d_x d_partial "safe \<and> launchable grid (sint (opt_block opts))"
              "opt_n opts" "nat (sint (opt_block opts))" grid "sint (opt_block opts)" sched] distinct assms(4)
          by (simp add: grid_def launchable_def le_nat_iff conj_ac)
      qed (use distinct assms(3,5) in \<open>auto simp: completed_def start_ghost_def grid_def\<close>)
    qed
  qed
qed

lemma vector_add_main_ends:
  fixes opts :: "'d::floor_ceiling bench_options"
  defines "grid \<equiv> vector_add_grid_size (opt_n opts) (sint (opt_block opts))"
  assumes "device_ok d" and "good \<Longrightarrow> calm d \<and> safe \<and> launchable grid (sint (opt_block opts))"
    and "safe \<Longrightarrow> unat (opt_n opts) < 2 ^ 62"
    and "opt_block opts = 0 \<or> sint (opt_repeat opts) < 0 \<Longrightarrow> killed"
  shows "ends (vector_add_main dev splat opts) (stops good safe killed d)
    (completed good safe d ''vector_add'' dev (vector_add_report opts) opts) d"
  unfolding vector_add_main_def ends_seq ends_bind Let_def
proof (rule header_call, rule running_start [OF assms(2)], use assms(3) in simp, rule checked_call, assumption,
    rule malloc_call, assumption, rule checked_call, assumption, rule malloc_call, assumption,
    rule checked_call, assumption, rule malloc_call, assumption, rule checked_call, assumption,
    rule memset_call, assumption, simp, rule checked_call, assumption, rule memset_call, assumption, simp,
    rule checked_call, assumption, rule memset_call, assumption, simp, goal_cases)
  case (1 d1 d2 d_a d3 d4 d_b d5 d6 d_c d7 d8 d9 d10 d11 d12 d13)
  let ?sz = "[d_a \<mapsto> unat (opt_n opts * 4) div 4, d_b \<mapsto> unat (opt_n opts * 4) div 4, d_c \<mapsto> unat (opt_n opts * 4) div 4]"
  have distinct: "distinct [d_a, d_b, d_c]" using 1 by (simp add: start_ghost_def split: if_splits)
  show ?case
  proof (cases "opt_block opts = 0")
    case True
    then show ?thesis using 1 assms(5) by (simp add: ends_throw stops_def running_def)
  next
    case False
    show ?thesis
      unfolding if_not_P [OF False] ends_bind
    proof (rule benchmark_call [where sz = ?sz])
      show "running good safe d [Header ''vector_add'' dev (opt_n opts) (opt_warmup opts) (opt_repeat opts) (opt_block opts)]
          \<lparr>owned = ?sz, events = {}, runs = 0, events_read = 0, clocks_read = 0\<rparr> d13"
        using 1 by (simp add: start_ghost_def)
      show "well_behaved
          (safe \<and> launchable (vector_add_grid_size (opt_n opts) (sint (opt_block opts))) (sint (opt_block opts))) ?sz
          (\<lambda>i. vector_add_step d_a d_b d_c (unat (opt_n opts))
            (unat (vector_add_grid_size (opt_n opts) (sint (opt_block opts)))) (nat (sint (opt_block opts))))"
        by (rule vector_add_well_behaved [OF distinct assms(4)])
    qed (use distinct assms(3,5) in \<open>auto simp: completed_def start_ghost_def grid_def\<close>)
  qed
qed

section \<open>Runs on which nothing fails\<close>

lemma completes:
  assumes "ends m (stops True True False d) (completed True True d name dev report opts) d"
  shows "\<exists>d'. m d = (Inr 0, d')
    \<and> printed d' = printed d @
        [Header name dev (opt_n opts) (opt_warmup opts) (opt_repeat opts) (opt_block opts),
         Result (report (readings (event_ms d) (nat (sint (opt_repeat opts)))) (readings (clock_ms d) (nat (sint (opt_repeat opts)))))]
    \<and> memory d' = memory d \<and> live_events d' = live_events d
    \<and> launches d' = launches d + (nat (sint (opt_warmup opts)) + nat (sint (opt_repeat opts)))"
  using assms by (cases "m d") (auto simp: ends_def stops_def completed_def running_def dest: owns_nothing split: sum.splits)

text \<open>
  C25. \<^verbatim>\<open>reduction\<close> on a device on which no call fails, with a block of at least 64 threads and a grid that can
  be launched: it prints the header and the report of the times it measured, in order, returns 0,
  has launched the kernel once for each warm-up and each measurement, and leaves no buffer and no
  event behind.
\<close>

theorem reduction_main_completes:
  fixes opts :: "'d::floor_ceiling bench_options"
  assumes "device_ok d" and "calm d" and "unat (opt_n opts) < 2 ^ 62" and "64 \<le> sint (opt_block opts)"
    and "launchable (reduce_grid_size (opt_n opts) (sint (opt_block opts))) (sint (opt_block opts))"
    and "0 \<le> sint (opt_repeat opts)"
  shows "\<exists>d'. reduction_main sched dev splat opts d = (Inr 0, d')
    \<and> printed d' = printed d @
        [Header ''reduction_stage1'' dev (opt_n opts) (opt_warmup opts) (opt_repeat opts) (opt_block opts),
         Result (reduction_report opts (readings (event_ms d) (nat (sint (opt_repeat opts))))
           (readings (clock_ms d) (nat (sint (opt_repeat opts)))))]
    \<and> memory d' = memory d \<and> live_events d' = live_events d
    \<and> launches d' = launches d + (nat (sint (opt_warmup opts)) + nat (sint (opt_repeat opts)))"
  by (rule completes, rule reduction_main_ends) (use assms in auto)

text \<open>
  \<^verbatim>\<open>vector_add\<close> likewise, with any block size that can be launched.
\<close>

lemma vector_add_main_completes:
  fixes opts :: "'d::floor_ceiling bench_options"
  assumes "device_ok d" and "calm d" and "unat (opt_n opts) < 2 ^ 62"
    and "launchable (vector_add_grid_size (opt_n opts) (sint (opt_block opts))) (sint (opt_block opts))"
    and "0 \<le> sint (opt_repeat opts)"
  shows "\<exists>d'. vector_add_main dev splat opts d = (Inr 0, d')
    \<and> printed d' = printed d @
        [Header ''vector_add'' dev (opt_n opts) (opt_warmup opts) (opt_repeat opts) (opt_block opts),
         Result (vector_add_report opts (readings (event_ms d) (nat (sint (opt_repeat opts))))
           (readings (clock_ms d) (nat (sint (opt_repeat opts)))))]
    \<and> memory d' = memory d \<and> live_events d' = live_events d
    \<and> launches d' = launches d + (nat (sint (opt_warmup opts)) + nat (sint (opt_repeat opts)))"
proof (rule completes, rule vector_add_main_ends)
  have "opt_block opts \<noteq> 0" using assms(4) by (auto simp: launchable_def)
  then show "opt_block opts = 0 \<or> sint (opt_repeat opts) < 0 \<Longrightarrow> False" using assms(5) by auto
qed (use assms in auto)

lemma default_launchable:
  "launchable (reduce_grid_size 268435456 256) 256" "launchable (vector_add_grid_size 268435456 256) 256"
  by (simp_all add: launchable_def reduce_grid_size_def vector_add_grid_size_def)

lemma readings_replicate [simp]: "readings (replicate n t) n = replicate n t"
  by (rule nth_equalityI) (simp_all add: readings_def reading_def)

theorem reduction_main_completes_witness:
  "\<exists>d'. reduction_main (\<lambda>_ _. []) [] (\<lambda>_. 0) (default_options :: rat bench_options) (fresh_device (1 / 2) 50) = (Inr 0, d')
    \<and> printed d' = [Header ''reduction_stage1'' [] 268435456 10 50 256,
        Result (reduction_report default_options (replicate 50 (1 / 2)) (replicate 50 (1 / 2)))]
    \<and> memory d' = Map.empty \<and> live_events d' = {} \<and> launches d' = 60"
  using reduction_main_completes [of "fresh_device (1 / 2) 50" "default_options :: rat bench_options" "\<lambda>_ _. []" "[]" "\<lambda>_. 0"]
    default_launchable
  by (simp add: default_options_def)

section \<open>Ways to end\<close>

lemma any_end:
  assumes "ends m (stops False False (opt_block opts = 0 \<or> sint (opt_repeat opts) < 0) d)
    (completed False False d name dev report opts) d"
  shows "case m d of
      (Inl x, d') \<Rightarrow> x = Exit 1 \<or> x = Killed \<and> (opt_block opts = 0 \<or> sint (opt_repeat opts) < 0)
    | (Inr v, d') \<Rightarrow> v = 0 \<and> length (printed d') = length (printed d) + 2 \<and> device_ok d' \<and> memory d' = memory d
        \<and> live_events d' = live_events d"
  using assms by (cases "m d") (auto simp: ends_def stops_def completed_def running_def dest: owns_nothing split: sum.splits)

text \<open>
  C28. Whatever the runtime answers to the calls, and whatever the options: both programs return 0
  with the report printed and everything freed, or exit with status 1, or are killed: only for a block
  size of 0, which is divided by, or a negative number of measurements, which no vector can hold.
  \<^verbatim>\<open>parse_i32\<close> lets both pass when the number is large enough.
\<close>

theorem benchmarks_end:
  fixes opts :: "'d::floor_ceiling bench_options"
  assumes "device_ok d"
  shows "(case reduction_main sched dev splat opts d of
      (Inl x, d') \<Rightarrow> x = Exit 1 \<or> x = Killed \<and> (opt_block opts = 0 \<or> sint (opt_repeat opts) < 0)
    | (Inr v, d') \<Rightarrow> v = 0 \<and> length (printed d') = length (printed d) + 2 \<and> device_ok d' \<and> memory d' = memory d
        \<and> live_events d' = live_events d)
    \<and> (case vector_add_main dev splat opts d of
      (Inl x, d') \<Rightarrow> x = Exit 1 \<or> x = Killed \<and> (opt_block opts = 0 \<or> sint (opt_repeat opts) < 0)
    | (Inr v, d') \<Rightarrow> v = 0 \<and> length (printed d') = length (printed d) + 2 \<and> device_ok d' \<and> memory d' = memory d
        \<and> live_events d' = live_events d)"
  by (intro conjI; rule any_end; rule reduction_main_ends vector_add_main_ends) (use assms in auto)

theorem benchmarks_end_witness:
  "case reduction_main (\<lambda>_ _. []) [] (\<lambda>_. 0) (default_options\<lparr>opt_block := 0\<rparr> :: rat bench_options) (fresh_device 0 0) of
      (Inl x, d') \<Rightarrow> x = Exit 1 \<or> x = Killed
    | (Inr v, d') \<Rightarrow> v = 0 \<and> length (printed d') = 2 \<and> device_ok d' \<and> memory d' = Map.empty \<and> live_events d' = {}"
  using benchmarks_end [of "fresh_device 0 0" "default_options\<lparr>opt_block := 0\<rparr> :: rat bench_options" "\<lambda>_ _. []" "[]" "\<lambda>_. 0"]
  by (simp split: prod.splits sum.splits)

section \<open>Buffers\<close>

lemma no_stray:
  assumes "ends m (stops False True True d) (completed False True d name dev report opts) d"
  shows "fault (snd (m d)) = fault d \<and> strayed (snd (m d)) = strayed d"
  using assms by (cases "m d") (auto simp: ends_def stops_def completed_def running_def split: sum.splits)

text \<open>
  C29. The kernels stay in their buffers, and in their shared memory, as long as the number of bytes
  does not overflow (\<^verbatim>\<open>n < 2^62\<close>) and, for \<^verbatim>\<open>reduction\<close>, no block has fewer than 64 threads: whatever the
  options, the answers of the runtime and the order of the threads of a warp are, no thread of any
  launch reads or writes outside, and no launch ends in a fault.
\<close>

theorem benchmarks_in_bounds:
  fixes opts :: "'d::floor_ceiling bench_options"
  assumes "device_ok d" and "unat (opt_n opts) < 2 ^ 62"
  shows "(fault (snd (vector_add_main dev splat opts d)) = fault d
      \<and> strayed (snd (vector_add_main dev splat opts d)) = strayed d)
    \<and> (sint (opt_block opts) \<le> 0 \<or> 64 \<le> sint (opt_block opts)
       \<longrightarrow> fault (snd (reduction_main sched dev splat opts d)) = fault d
         \<and> strayed (snd (reduction_main sched dev splat opts d)) = strayed d)"
proof (intro conjI [OF _ impI])
  show "fault (snd (vector_add_main dev splat opts d)) = fault d
      \<and> strayed (snd (vector_add_main dev splat opts d)) = strayed d"
    by (rule no_stray, rule vector_add_main_ends) (use assms in auto)
  assume "sint (opt_block opts) \<le> 0 \<or> 64 \<le> sint (opt_block opts)"
  then show "fault (snd (reduction_main sched dev splat opts d)) = fault d
      \<and> strayed (snd (reduction_main sched dev splat opts d)) = strayed d"
    by (intro no_stray [OF reduction_main_ends]) (use assms in auto)
qed

theorem benchmarks_in_bounds_witness:
  "\<not> strayed (snd (vector_add_main [] (\<lambda>_. 0) (default_options :: rat bench_options) (fresh_device 0 0)))
    \<and> \<not> strayed (snd (reduction_main (\<lambda>_ _. []) [] (\<lambda>_. 0) (default_options :: rat bench_options) (fresh_device 0 0)))"
  using benchmarks_in_bounds [of "fresh_device 0 0" "default_options :: rat bench_options" "[]" "\<lambda>_. 0" "\<lambda>_ _. []"]
  by (simp add: default_options_def)

text \<open>How \<^verbatim>\<open>vector_add\<close> comes to its launches when nothing fails\<close>

lemma vector_add_reaches:
  fixes opts :: "'d::floor_ceiling bench_options"
  assumes "device_ok d" and "calm d" and "opt_block opts \<noteq> 0"
    and "\<And>d' d_a d_b d_c cont. \<lbrakk>\<And>r. keeps strayed (cont r); calm d'; overruns d' = overruns d;
        map_option length (memory d' d_c) = Some (unat (opt_n opts * 4) div 4)\<rbrakk> \<Longrightarrow>
      ends (bind (timed_launches (opt_warmup opts) (opt_repeat opts)
             (launch (launchable (vector_add_grid_size (opt_n opts) (sint (opt_block opts))) (sint (opt_block opts)))
               [d_a, d_b, d_c]
               (\<lambda>i. vector_add_step d_a d_b d_c (unat (opt_n opts))
                 (unat (vector_add_grid_size (opt_n opts) (sint (opt_block opts)))) (nat (sint (opt_block opts))))))
           cont) X Q d'"
  shows "ends (vector_add_main dev splat opts) X Q d"
  unfolding vector_add_main_def print_header_def ends_seq ends_bind Let_def
proof (rule calm_checked_call [OF running_start [OF assms(1,2), where safe = True]], rule ret_call, assumption,
    rule calm_checked_call, assumption, rule ret_call, assumption, rule print_call, assumption,
    rule calm_checked_call, assumption, rule malloc_call, assumption, rule calm_checked_call, assumption,
    rule malloc_call, assumption, rule calm_checked_call, assumption, rule malloc_call, assumption,
    rule calm_checked_call, assumption, rule memset_call, assumption, simp, rule calm_checked_call, assumption,
    rule memset_call, assumption, simp, rule calm_checked_call, assumption, rule memset_call, assumption, simp, goal_cases)
  case (1 d1 d2 d3 d4 d5 d6 d_a d7 d8 d_b d9 d10 d_c d11 d12 d13 d14 d15 d16 d17)
  then have "calm d17" "overruns d17 = overruns d" "map_option length (memory d17 d_c) = Some (unat (opt_n opts * 4) div 4)"
    by (simp_all add: running_def owns_def)
  note launch = assms(4) [OF _ this]
  show ?case
    unfolding if_not_P [OF assms(3)]
    by (rule launch) (auto intro!: keeps_intros)
qed

lemma reduction_reaches:
  fixes opts :: "'d::floor_ceiling bench_options"
  assumes "device_ok d" and "calm d" and "opt_block opts \<noteq> 0"
    and "\<And>d' d_x d_partial cont. \<lbrakk>\<And>r. keeps strayed (cont r); calm d'; overruns d' = overruns d\<rbrakk> \<Longrightarrow>
      ends (bind (timed_launches (opt_warmup opts) (opt_repeat opts)
             (launch (launchable (reduce_grid_size (opt_n opts) (sint (opt_block opts))) (sint (opt_block opts)))
               [d_x, d_partial]
               (\<lambda>i. reduction_step d_x d_partial (unat (opt_n opts))
                 (unat (reduce_grid_size (opt_n opts) (sint (opt_block opts)))) (nat (sint (opt_block opts))) (sched i))))
           cont) X Q d'"
  shows "ends (reduction_main sched dev splat opts) X Q d"
  unfolding reduction_main_def print_header_def if_not_P [OF assms(3)] ends_seq ends_bind Let_def
proof (rule calm_checked_call [OF running_start [OF assms(1,2), where safe = True]], rule ret_call, assumption,
    rule calm_checked_call, assumption, rule ret_call, assumption, rule print_call, assumption,
    rule calm_checked_call, assumption, rule malloc_call, assumption, rule calm_checked_call, assumption,
    rule malloc_call, assumption, rule calm_checked_call, assumption, rule memset_call, assumption, simp,
    rule calm_checked_call, assumption, rule memset_call, assumption, simp, goal_cases)
  case (1 d1 d2 d3 d4 d5 d6 d_x d7 d8 d_partial d9 d10 d11 d12 d13)
  then have "calm d13" "overruns d13 = overruns d"
    by (simp_all add: running_def)
  note launch = assms(4) [OF _ this]
  show ?case
    by (rule ends_bind [THEN iffD1], rule launch) (auto intro!: keeps_intros)
qed

text \<open>How a run ends whose first launch strays\<close>

lemma straying_launches:
  assumes "ker (launches d) (memory d) = None" and "\<And>r. keeps strayed (cont r)" and "calm d"
    and "overruns d = overruns d0" and "0 < sint warmup"
  shows "ends (bind (timed_launches warmup repeat (launch True ps ker)) cont)
    (\<lambda>x d'. strayed d' \<and> (overruns d0 = [] \<longrightarrow> x = Exit 1)) (\<lambda>_ d'. strayed d' \<and> overruns d0 \<noteq> []) d"
proof -
  note failed = failed_launches [where ker = ker and ps = ps and repeat = repeat, OF assms(1,3,5)]
  show ?thesis
  proof (cases "overruns d0 = []")
    case True
    then obtain d' where "timed_launches warmup repeat (launch True ps ker) d = (Inl (Exit 1), d')"
      using failed(2) assms(4) by auto
    then show ?thesis using failed(1) by (simp add: ends_def bind_run)
  next
    case False
    moreover have "strayed (snd (bind (timed_launches warmup repeat (launch True ps ker)) cont d))"
      by (rule strays_on, rule failed(1), rule assms(2))
    ultimately show ?thesis by (auto simp: ends_def split: prod.splits sum.splits)
  qed
qed

lemma stray_end:
  assumes "ends m (\<lambda>x d'. strayed d' \<and> (overruns d = [] \<longrightarrow> x = Exit 1)) (\<lambda>_ d'. strayed d' \<and> overruns d \<noteq> []) d"
  shows "strayed (snd (m d)) \<and> (overruns d = [] \<longrightarrow> fst (m d) = Inl (Exit 1))"
  using assms by (auto simp: ends_def split: prod.splits sum.splits)

lemma overflowing_launch:
  assumes "n = (2 :: u64) ^ 62 + of_nat m" and "k \<le> 10" and "\<not> 2 ^ k dvd m" and "m < 2 ^ 31"
  defines "grid \<equiv> vector_add_grid_size n (2 ^ k)"
  shows "unat (n * 4) div 4 = m" and "grid = of_nat ((m + 2 ^ k - 1) div 2 ^ k)" and "launchable grid (2 ^ k)"
    and "length c = m \<Longrightarrow> vector_add_blocks a b c (unat n) (unat grid) (2 ^ k) = None"
proof -
  let ?g = "(m + 2 ^ k - 1) div 2 ^ k"
  have b: "(2 :: nat) ^ k \<le> 2 ^ 10" using assms(2) by (intro power_increasing) simp_all
  have n: "n = of_nat (2 ^ 62 + m)" using assms(1) by simp
  have "n * 4 = of_nat (4 * m)" using assms(1) by simp
  then show "unat (n * 4) div 4 = m" using assms(4) by (simp only: unat_of_nat) (simp add: take_bit_nat_eq_self)
  have "2 ^ (62 - k) * 2 ^ k = (2 :: nat) ^ 62"
    unfolding power_add [symmetric] using assms(2) by simp
  moreover have "1 \<le> (2 :: nat) ^ k" by simp
  ultimately have "2 ^ 62 + m + 2 ^ k - 1 = m + 2 ^ k - 1 + 2 ^ (62 - k) * 2 ^ k" by linarith
  then have "(2 ^ 62 + m + 2 ^ k - 1) div 2 ^ k = (m + 2 ^ k - 1 + 2 ^ (62 - k) * 2 ^ k) div 2 ^ k" by (rule arg_cong)
  also have "\<dots> = 2 ^ (62 - k) + ?g" by (rule div_mult_self1) simp
  finally have "grid = of_nat (2 ^ (62 - k) + ?g)"
    unfolding grid_def n using vector_add_grid_exact [of "2 ^ k" "2 ^ 62 + m"] b assms(4) by simp
  moreover have "of_nat (2 ^ (62 - k)) = (0 :: i32)"
    using assms(2) by simp
  ultimately show grid: "grid = of_nat ?g" by simp
  have "0 < m" using assms(3) by (cases m) auto
  have "m + 2 ^ k - 1 < Suc ?g * 2 ^ k" by (simp add: dividend_less_div_times)
  then have "m \<le> ?g * 2 ^ k" by simp
  then have over: "m < ?g * 2 ^ k" using assms(3) by (metis dvd_triv_right le_neq_implies_less)
  have "k \<noteq> 0" using assms(3) by (cases k) auto
  then have "2 \<le> (2 :: nat) ^ k" by (cases k) simp_all
  then have "m + 2 ^ k - 1 < 2 ^ 31 * 2 ^ k" using assms(4) by simp
  then have small: "?g < 2 ^ 31" by (rule less_mult_imp_div_less)
  have "0 < ?g" using over by (cases ?g) auto
  then show "launchable grid (2 ^ k)"
    using small power_increasing [OF assms(2), of "2 :: int"] unfolding grid by (simp add: launchable_def sint_of_nat_i32)
  have "unat grid = ?g" using small unfolding grid by (simp add: unat_of_nat take_bit_nat_eq_self)
  moreover have "unat n = 2 ^ 62 + m" using assms(4) unfolding n by (simp only: unat_of_nat) (simp add: take_bit_nat_eq_self)
  ultimately show "vector_add_blocks a b c (unat n) (unat grid) (2 ^ k) = None" if "length c = m"
    using over that by (simp add: vector_add_blocks_run Let_def min_le_iff_disj)
qed

lemma nat_two_power: "nat (2 ^ k) = 2 ^ k"
  by simp

text \<open>
  C34. \<^verbatim>\<open>n * sizeof(float)\<close> is computed in 64 bits and the grid cut to 32: for \<^verbatim>\<open>n = 2^62 + m\<close> and a block size that is
  a power of two, \<^verbatim>\<open>vector_add\<close> allocates three buffers of \<open>m\<close> floats and launches as many blocks as cover \<open>m\<close>
  elements. All their threads pass the check against \<^verbatim>\<open>n\<close>, so that, if \<open>m\<close> is not a multiple of the block size, those
  of the last block access what lies behind the buffers. If the device reports that, the program exits with status 1.
\<close>

theorem vector_add_overflows:
  fixes opts :: "'d::floor_ceiling bench_options"
  assumes "device_ok d" and "calm d" and "opt_n opts = 2 ^ 62 + of_nat m" and "m < 2 ^ 31"
    and "sint (opt_block opts) = 2 ^ k" and "k \<le> 10" and "\<not> 2 ^ k dvd m" and "0 < sint (opt_warmup opts)"
  shows "unat (opt_n opts * 4) div 4 = m
    \<and> vector_add_grid_size (opt_n opts) (sint (opt_block opts)) = of_nat ((m + 2 ^ k - 1) div 2 ^ k)
    \<and> strayed (snd (vector_add_main dev splat opts d))
    \<and> (overruns d = [] \<longrightarrow> fst (vector_add_main dev splat opts d) = Inl (Exit 1))"
proof -
  let ?grid = "vector_add_grid_size (opt_n opts) (2 ^ k)"
  note over = overflowing_launch [OF assms(3,6,7,4)]
  have block: "opt_block opts \<noteq> 0" using assms(5) by auto
  have none: "vector_add_step d_a d_b d_c (unat (opt_n opts)) (unat ?grid) (2 ^ k) mem = None"
    if "map_option length (mem d_c) = Some (unat (opt_n opts * 4) div 4)" for d_a d_b d_c and mem :: "nat \<rightharpoonup> 'd list"
    using that over by (auto simp: vector_add_step_def split: option.split)
  note reaches = vector_add_reaches [OF assms(1,2) block, unfolded assms(5) nat_two_power eqTrueI [OF over(3)]]
  have "strayed (snd (vector_add_main dev splat opts d))
      \<and> (overruns d = [] \<longrightarrow> fst (vector_add_main dev splat opts d) = Inl (Exit 1))"
    by (rule stray_end, rule reaches, rule straying_launches, rule none, assumption+, rule assms(8))
  then show ?thesis using over(1,2) unfolding assms(5) by blast
qed

lemma overflowing_size: "parse_u64 (decimal 4611686018427388004) = Some (2 ^ 62 + of_nat 100)"
  by (simp add: parse_u64_def strtoull_def scan_decimal)

text \<open>So with \<^verbatim>\<open>--n 4611686018427388004\<close> and nothing else on the command line:\<close>

theorem vector_add_overflows_witness:
  "strayed (snd (bench_program (vector_add_main [] (\<lambda>_. 0)) (\<lambda>_. None) [bytes_of ''--n'', decimal 4611686018427388004]
      (fresh_device 0 0 :: (rat, rat bench_line) device)))
    \<and> fst (bench_program (vector_add_main [] (\<lambda>_. 0)) (\<lambda>_. None) [bytes_of ''--n'', decimal 4611686018427388004]
      (fresh_device 0 0 :: (rat, rat bench_line) device)) = Inl (Exit 1)"
proof -
  have args: "parse_args (\<lambda>_. None) default_options [bytes_of ''--n'', decimal 4611686018427388004]
      = Bench (default_options\<lparr>opt_n := 2 ^ 62 + of_nat 100\<rparr> :: rat bench_options)"
    by (simp add: Roofline_Bench.set_option_def overflowing_size)
  show ?thesis
    unfolding bench_program_def args command_line.case
    using vector_add_overflows [of "fresh_device 0 0" "default_options\<lparr>opt_n := 2 ^ 62 + of_nat 100\<rparr> :: rat bench_options"
        100 8 "[]" "\<lambda>_. 0"]
    by (simp add: default_options_def)
qed

lemma small_block_step:
  assumes "0 < grid" and "0 < block" and "block < 64"
  shows "reduction_step d_x d_partial n grid block schedule mem = None"
proof -
  have "[0..<grid] = 0 # [1..<grid]" using assms(1) by (simp add: upt_conv_Cons)
  then show ?thesis
    by (auto simp: reduction_step_def reduce_blocks_def small_blocks_overrun [OF assms(2,3)] split: option.split)
qed

text \<open>
  C35. The last additions of \<^verbatim>\<open>reduction\<close> need 64 threads, and the program does not ask for them: with any
  smaller block that the device launches, whatever the number of elements and the order of the threads, the kernel accesses
  what lies behind its shared memory. If the device reports that, the program exits with status 1.
\<close>

theorem reduction_small_blocks_stray:
  fixes opts :: "'d::floor_ceiling bench_options"
  assumes "device_ok d" and "calm d" and "0 < sint (opt_warmup opts)" and "sint (opt_block opts) < 64"
    and "launchable (reduce_grid_size (opt_n opts) (sint (opt_block opts))) (sint (opt_block opts))"
  shows "strayed (snd (reduction_main sched dev splat opts d))
    \<and> (overruns d = [] \<longrightarrow> fst (reduction_main sched dev splat opts d) = Inl (Exit 1))"
proof -
  let ?grid = "reduce_grid_size (opt_n opts) (sint (opt_block opts))"
  have block: "opt_block opts \<noteq> 0" and grid: "0 < unat ?grid" "0 < nat (sint (opt_block opts))"
    using assms(5) unat_pos_i32 [of ?grid] by (auto simp: launchable_def)
  note reaches = reduction_reaches [OF assms(1,2) block, unfolded eqTrueI [OF assms(5)]]
  show ?thesis
    by (rule stray_end, rule reaches, rule straying_launches, rule small_block_step, rule grid, rule grid,
        use assms(4) in simp, assumption+, rule assms(3))
qed

theorem reduction_small_blocks_stray_witness:
  "strayed (snd (reduction_main (\<lambda>_ _. []) [] (\<lambda>_. 0) (default_options\<lparr>opt_block := 32\<rparr> :: rat bench_options) (fresh_device 0 0)))"
  using reduction_small_blocks_stray [of "fresh_device 0 0" "default_options\<lparr>opt_block := 32\<rparr> :: rat bench_options"
      "\<lambda>_ _. []" "[]" "\<lambda>_. 0"]
  by (simp add: default_options_def launchable_def reduce_grid_size_def)

end
