(* ===== verification/Softmax.thy ===== *)
theory Softmax
  imports Strided_Loop Block_Reduction
begin

text \<open>
  \<^verbatim>\<open>softmax-profile-card\<close>: the kernels \<^verbatim>\<open>kernels/softmax_naive.cu\<close> (one thread per row) and
  \<^verbatim>\<open>kernels/softmax_block.cu\<close> (one block per row, with tree reductions for the maximum and the sum),
  and the check of \<^verbatim>\<open>--threads\<close> in \<^verbatim>\<open>src/softmax_bench.cu\<close>. Both kernels are proved to compute the
  softmax of every row. Matrices are flat lists, as in the code; \<open>ex\<close> is \<^verbatim>\<open>expf\<close>. The definitions
  run on any ordered field, the theorems are about the reals: rounding is not modelled.

  Every access to a matrix or the shared memory is checked; \<open>None\<close> is one outside.
  Between two barriers the threads of a block write different cells, and read no cell that another
  writes, so they run one after the other here. There is one exception, a race: every thread reads
  the maximum from \<^verbatim>\<open>smem[0]\<close>, where thread 0 stores its sum with no barrier in between. Which
  threads come late is a parameter of the model (\<open>late\<close>).
\<close>

section \<open>The pieces of the kernels\<close>

text \<open>\<^verbatim>\<open>fmaxf\<close> where \<open>None\<close> is \<^verbatim>\<open>-CUDART_INF_F\<close>\<close>

fun fmaxf :: "'a::linorder option \<Rightarrow> 'a option \<Rightarrow> 'a option" where
  "fmaxf None y = y"
| "fmaxf x None = x"
| "fmaxf (Some a) (Some b) = Some (max a b)"

text \<open>The three loops over the columns \<open>cs\<close> of a thread; \<open>base\<close> is where the row starts.\<close>

definition max_columns :: "'a::linordered_field list \<Rightarrow> nat \<Rightarrow> nat list \<Rightarrow> 'a option option" where
  "max_columns x base cs = option_fold (\<lambda>c m. map_option (\<lambda>v. fmaxf m (Some v)) (peek x (base + c))) cs None"

definition exp_columns ::
  "('a::linordered_field \<Rightarrow> 'a) \<Rightarrow> 'a list \<Rightarrow> nat \<Rightarrow> 'a \<Rightarrow> nat list \<Rightarrow> 'a list \<Rightarrow> ('a list \<times> 'a) option" where
  "exp_columns ex x base m cs y =
     option_fold (\<lambda>c (y, s). Option.bind (peek x (base + c)) (\<lambda>v.
         let e = ex (v - m) in map_option (\<lambda>y. (y, s + e)) (poke (base + c) e y))) cs (y, 0)"

definition div_columns :: "nat \<Rightarrow> 'a::linordered_field \<Rightarrow> nat list \<Rightarrow> 'a list \<Rightarrow> 'a list option" where
  "div_columns base s cs y = option_fold (\<lambda>c y. Option.bind (peek y (base + c)) (\<lambda>v. poke (base + c) (v / s) y)) cs y"

section \<open>The kernels\<close>

text \<open>A maximum of \<open>None\<close> means that the row has no columns, and nothing to write.\<close>

definition softmax_naive_row ::
  "('a::linordered_field \<Rightarrow> 'a) \<Rightarrow> 'a list \<Rightarrow> nat \<Rightarrow> nat \<Rightarrow> 'a list \<Rightarrow> 'a list option" where
  "softmax_naive_row ex x cols row y =
     (let base = row * cols; cs = [0..<cols]
      in Option.bind (max_columns x base cs) (\<lambda>max. case max of
           None \<Rightarrow> Some y
         | Some max_val \<Rightarrow>
             Option.bind (exp_columns ex x base max_val cs y) (\<lambda>(y, sum_val). div_columns base sum_val cs y)))"

text \<open>
  \<open>late tid\<close>: thread \<open>tid\<close> takes the maximum after thread 0 has written its sum there.
\<close>

definition softmax_block_row ::
  "('a::linordered_field \<Rightarrow> 'a) \<Rightarrow> 'a list \<Rightarrow> nat \<Rightarrow> nat \<Rightarrow> (nat \<Rightarrow> bool) \<Rightarrow> nat \<Rightarrow> 'a list \<Rightarrow> 'a list option" where
  "softmax_block_row ex x cols block late row y =
     (let base = row * cols; cs = (\<lambda>tid. strided tid block cols)
      in Option.bind (those (map (\<lambda>tid. max_columns x base (cs tid)) [0..<block])) (\<lambda>smem.
         Option.bind (reduce_loop fmaxf 0 (block div 2) smem) (\<lambda>smem.
         Option.bind (peek smem 0) (\<lambda>max. case max of
           None \<Rightarrow> Some y
         | Some max_val \<Rightarrow>
             Option.bind (exp_columns ex x base max_val (cs 0) y) (\<lambda>(_, sum_0).
             let max_val_of = (\<lambda>tid. if 0 < tid \<and> late tid then sum_0 else max_val)
             in Option.bind (option_fold (\<lambda>tid (y, smem).
                    map_option (\<lambda>(y, s). (y, smem @ [s])) (exp_columns ex x base (max_val_of tid) (cs tid) y))
                  [0..<block] (y, [])) (\<lambda>(y, smem).
                Option.bind (reduce_loop (+) 0 (block div 2) smem) (\<lambda>smem.
                Option.bind (peek smem 0) (\<lambda>sum_val.
                option_fold (\<lambda>tid. div_columns base sum_val (cs tid)) [0..<block] y))))))))"

text \<open>
  A launch with one block per row. \<open>None\<close>: it is refused, or an access is outside, or an \<^verbatim>\<open>int\<close> of the
  kernel (\<^verbatim>\<open>row * cols\<close>, \<^verbatim>\<open>c + block_size\<close>) could overflow.
\<close>

definition indices_fit :: "nat \<Rightarrow> nat \<Rightarrow> nat \<Rightarrow> bool" where
  "indices_fit rows cols block \<longleftrightarrow> (rows - 1) * cols < 2 ^ 31 \<and> cols + block \<le> 2 ^ 31"

definition softmax_naive_kernel ::
  "('a::linordered_field \<Rightarrow> 'a) \<Rightarrow> 'a list \<Rightarrow> 'a list \<Rightarrow> nat \<Rightarrow> nat \<Rightarrow> nat \<Rightarrow> 'a list option" where
  "softmax_naive_kernel ex x y rows cols block =
     (if launchable (of_nat rows) (int block) \<and> indices_fit rows cols 1
      then option_fold (softmax_naive_row ex x cols) [0..<rows] y else None)"

definition softmax_block_kernel ::
  "('a::linordered_field \<Rightarrow> 'a) \<Rightarrow> (nat \<Rightarrow> nat \<Rightarrow> bool) \<Rightarrow> 'a list \<Rightarrow> 'a list \<Rightarrow> nat \<Rightarrow> nat \<Rightarrow> nat \<Rightarrow> 'a list option" where
  "softmax_block_kernel ex late x y rows cols block =
     (if launchable (of_nat rows) (int block) \<and> indices_fit rows cols block
      then option_fold (\<lambda>row. softmax_block_row ex x cols block (late row) row) [0..<rows] y else None)"

text \<open>\<^verbatim>\<open>softmax_bench\<close> refuses thread counts that are not powers of two.\<close>

definition threads_accepted :: "i32 \<Rightarrow> bool" where
  "threads_accepted threads \<longleftrightarrow> and threads (threads - 1) = 0"

definition softmax_bench ::
  "('a::linordered_field \<Rightarrow> 'a) \<Rightarrow> (nat \<Rightarrow> nat \<Rightarrow> bool) \<Rightarrow> 'a list \<Rightarrow> 'a list \<Rightarrow> nat \<Rightarrow> nat \<Rightarrow> i32 \<Rightarrow> 'a list option" where
  "softmax_bench ex late x y rows cols threads =
     (if threads_accepted threads then softmax_block_kernel ex late x y rows cols (unat threads) else None)"

section \<open>What they compute\<close>

definition softmax :: "('a::linordered_field \<Rightarrow> 'a) \<Rightarrow> 'a list \<Rightarrow> 'a list" where
  "softmax ex row = map (\<lambda>v. ex v / sum_list (map ex row)) row"

context reduction
begin

lemma unit_right: "f a z = a"
  by (metis comm unit)

lemma comp_fun_commute_f: "comp_fun_commute f"
proof
  fix x y
  have "f y (f x s) = f x (f y s)" for s by (metis assoc comm)
  then show "f y \<circ> f x = f x \<circ> f y" by auto
qed

lemma total_mset: "total xs = fold_mset f z (mset xs)"
  by (induction xs) (simp_all add: comp_fun_commute.fold_mset_add_mset [OF comp_fun_commute_f])

lemma total_concat: "total (concat xss) = total (map total xss)"
  by (induction xss) (simp_all add: total_append del: foldr_append)

lemma fold_total: "fold (\<lambda>c m. f m (g c)) cs a = f a (total (map g cs))"
proof (induction cs arbitrary: a)
  case Nil
  then show ?case by (simp add: unit_right)
qed (simp add: assoc)

lemma total_threads:
  assumes "0 < block"
  shows "total (map (\<lambda>tid. total (map g (strided tid block n))) [0..<block]) = total (map g [0..<n])"
proof -
  have "total (map (\<lambda>tid. total (map g (strided tid block n))) [0..<block]) = total (map g (visits block n))"
    by (simp add: visits_def map_concat total_concat comp_def)
  also have "\<dots> = total (map g [0..<n])"
    using mset_visits [OF assms, of n] by (simp add: total_mset mset_map)
  finally show ?thesis .
qed

lemma reduce_loop_block:
  assumes "length smem = 2 ^ k"
  shows "\<exists>smem'. reduce_loop f 0 (2 ^ k div 2) smem = Some smem' \<and> peek smem' 0 = Some (total smem)"
proof -
  let ?r = "reduced f 0 (2 ^ k div 2) smem"
  have "total (take 1 ?r) = total smem"
  proof (cases k)
    case 0
    then show ?thesis using assms by (simp add: reduced.simps)
  next
    case (Suc j)
    then show ?thesis using reduced_total [of j smem 0 0] assms by simp
  qed
  moreover obtain a r where "?r = a # r"
    using assms by (cases ?r) (auto simp flip: length_0_conv)
  moreover have "reduce_loop f 0 (2 ^ k div 2) smem = Some ?r"
    by (rule reduce_loop_inside) (simp add: assms)
  ultimately show ?thesis by (simp add: unit_right)
qed

end

interpretation maxs: reduction "fmaxf :: 'a::linorder option \<Rightarrow> 'a option \<Rightarrow> 'a option" None
proof
  fix a b c :: "'a option"
  show "fmaxf (fmaxf a b) c = fmaxf a (fmaxf b c)"
    by (cases a; cases b; cases c) (simp_all add: max.assoc)
  show "fmaxf a b = fmaxf b a"
    by (cases a; cases b) (simp_all add: max.commute)
qed simp


section \<open>The loops of a thread\<close>

lemma max_columns_total:
  "\<forall>c \<in> set cs. base + c < length x \<Longrightarrow> max_columns x base cs = Some (maxs.total (map (\<lambda>c. Some (x ! (base + c))) cs))"
proof -
  assume "\<forall>c \<in> set cs. base + c < length x"
  then have "max_columns x base cs = Some (fold (\<lambda>c m. fmaxf m (Some (x ! (base + c)))) cs None)"
    unfolding max_columns_def by (intro option_fold_pure(1) [where I = "\<lambda>_. True"]) simp_all
  then show ?thesis by (simp add: maxs.fold_total)
qed

lemma max_total_Max: "cs \<noteq> [] \<Longrightarrow> maxs.total (map (\<lambda>c. Some (g c)) cs) = Some (Max (g ` set cs))"
proof (induction cs)
  case (Cons c cs)
  then show ?case by (cases "cs = []") simp_all
qed simp

lemma exp_columns_inside:
  assumes "\<forall>c \<in> set cs. base + c < length x \<and> base + c < length y"
  shows "exp_columns ex x base m cs y =
     Some (fold (\<lambda>c y. y[base + c := ex (x ! (base + c) - m)]) cs y, sum_list (map (\<lambda>c. ex (x ! (base + c) - m)) cs))"
proof -
  have "option_fold (\<lambda>c (y, s). Option.bind (peek x (base + c)) (\<lambda>v.
         let e = ex (v - m) in map_option (\<lambda>y. (y, s + e)) (poke (base + c) e y))) cs (y, a)
    = Some (fold (\<lambda>c y. y[base + c := ex (x ! (base + c) - m)]) cs y, a + sum_list (map (\<lambda>c. ex (x ! (base + c) - m)) cs))" for a
    using assms by (induction cs arbitrary: y a) (simp_all add: add.assoc Let_def)
  then show ?thesis by (simp add: exp_columns_def)
qed

lemma exp_threads_inside:
  assumes "\<forall>tid \<in> set tids. \<forall>c \<in> set (cs tid). base + c < length x \<and> base + c < length y"
  shows "option_fold (\<lambda>tid (y, smem). map_option (\<lambda>(y, s). (y, smem @ [s])) (exp_columns ex x base (mx tid) (cs tid) y))
      tids (y, smem) =
     Some (fold (\<lambda>tid. fold (\<lambda>c y. y[base + c := ex (x ! (base + c) - mx tid)]) (cs tid)) tids y,
      smem @ map (\<lambda>tid. sum_list (map (\<lambda>c. ex (x ! (base + c) - mx tid)) (cs tid))) tids)"
  using assms by (induction tids arbitrary: y smem) (simp_all add: exp_columns_inside)

lemma sums_reduce_loop_block:
  fixes smem :: "'a::comm_monoid_add list"
  shows "length smem = 2 ^ k \<Longrightarrow>
    \<exists>smem'. reduce_loop (+) 0 (2 ^ k div 2) smem = Some smem' \<and> peek smem' 0 = Some (sum_list smem)"
  unfolding sums_total [symmetric] by (rule sums.reduce_loop_block)

lemma sums_threads:
  fixes g :: "nat \<Rightarrow> 'a::comm_monoid_add"
  shows "0 < block \<Longrightarrow> (\<Sum>tid\<leftarrow>[0..<block]. \<Sum>c\<leftarrow>strided tid block n. g c) = (\<Sum>c\<leftarrow>[0..<n]. g c)"
  unfolding sums_total [symmetric] by (rule sums.total_threads)

lemma div_columns_inside:
  "\<forall>c \<in> set cs. base + c < length y \<Longrightarrow>
    div_columns base s cs y = Some (fold (\<lambda>c y. y[base + c := y ! (base + c) / s]) cs y)"
  unfolding div_columns_def by (rule option_fold_pure(1) [where I = "\<lambda>z. length z = length y"]) simp_all

lemma div_threads_inside:
  "\<forall>tid \<in> set tids. \<forall>c \<in> set (cs tid). base + c < length y \<Longrightarrow>
    option_fold (\<lambda>tid. div_columns base s (cs tid)) tids y
      = Some (fold (\<lambda>tid. fold (\<lambda>c y. y[base + c := y ! (base + c) / s]) (cs tid)) tids y)"
  by (rule option_fold_pure(1) [where I = "\<lambda>z. length z = length y"]) (simp_all add: div_columns_inside)

section \<open>A row\<close>

text \<open>
  What both kernels do to a row: the exponentials relative to a maximum, divided by their sum, in
  whatever order \<open>cs\<close> the columns are visited; \<open>mx c\<close> is what is taken for the maximum in column \<open>c\<close>.
\<close>

definition row_result ::
  "('a::linordered_field \<Rightarrow> 'a) \<Rightarrow> 'a list \<Rightarrow> nat \<Rightarrow> nat \<Rightarrow> (nat \<Rightarrow> 'a) \<Rightarrow> nat list \<Rightarrow> 'a list \<Rightarrow> 'a list" where
  "row_result ex x cols base mx cs y =
     fold (\<lambda>c y. y[base + c := y ! (base + c) / sum_list (map (\<lambda>c. ex (x ! (base + c) - mx c)) [0..<cols])]) cs
       (fold (\<lambda>c y. y[base + c := ex (x ! (base + c) - mx c)]) cs y)"

definition row_max :: "'a::linorder list \<Rightarrow> nat \<Rightarrow> nat \<Rightarrow> 'a" where
  "row_max x base cols = Max ((\<lambda>c. x ! (base + c)) ` {..<cols})"

lemma row_total:
  "maxs.total (map (\<lambda>c. Some (x ! (base + c))) [0..<cols]) = (if cols = 0 then None else Some (row_max x base cols))"
proof (cases "cols = 0")
  case False
  then show ?thesis by (simp add: max_total_Max row_max_def atLeast0LessThan del: map_map)
qed simp

lemma row_result_none [simp]: "row_result ex x 0 base mx [] y = y"
  by (simp add: row_result_def)

lemma length_row_result [simp]: "length (row_result ex x cols base mx cs y) = length y"
  by (simp add: row_result_def)

lemma naive_row_result:
  assumes "row * cols + cols \<le> length x" and "row * cols + cols \<le> length y"
  shows "softmax_naive_row ex x cols row y =
    Some (row_result ex x cols (row * cols) (\<lambda>_. row_max x (row * cols) cols) [0..<cols] y)"
  using assms
  by (cases "cols = 0") (simp_all add: softmax_naive_row_def Let_def max_columns_total row_total exp_columns_inside
      div_columns_inside row_result_def)

text \<open>The number that thread \<open>tid\<close> takes for the maximum\<close>

definition seen_max :: "('a::linordered_field \<Rightarrow> 'a) \<Rightarrow> 'a list \<Rightarrow> nat \<Rightarrow> nat \<Rightarrow> nat \<Rightarrow> (nat \<Rightarrow> bool) \<Rightarrow> nat \<Rightarrow> 'a" where
  "seen_max ex x base cols block late tid =
     (if 0 < tid \<and> late tid then \<Sum>c\<leftarrow>strided 0 block cols. ex (x ! (base + c) - row_max x base cols)
      else row_max x base cols)"

lemma strided_below: "tid < block \<Longrightarrow> c \<in> set (strided tid block cols) \<Longrightarrow> c < cols \<and> c mod block = tid"
  by (simp add: set_strided_thread)

lemma block_row_result:
  assumes "row * cols + cols \<le> length x" and "row * cols + cols \<le> length y"
  shows "softmax_block_row ex x cols (2 ^ k) late row y =
    Some (row_result ex x cols (row * cols) (\<lambda>c. seen_max ex x (row * cols) cols (2 ^ k) late (c mod 2 ^ k))
      (visits (2 ^ k) cols) y)"
proof -
  let ?block = "2 ^ k :: nat" and ?base = "row * cols"
  let ?cs = "\<lambda>tid. strided tid ?block cols" and ?seen = "seen_max ex x ?base cols ?block late"
  let ?e = "\<lambda>c. ex (x ! (?base + c) - ?seen (c mod ?block))" and ?m = "row_max x ?base cols"
  let ?maxs = "map (\<lambda>tid. maxs.total (map (\<lambda>c. Some (x ! (?base + c))) (?cs tid))) [0..<?block]"
  let ?sums = "map (\<lambda>tid. \<Sum>c\<leftarrow>?cs tid. ex (x ! (?base + c) - ?seen tid)) [0..<?block]"
  let ?y = "fold (\<lambda>c y. y[?base + c := ?e c]) (visits ?block cols) y"
  have inside: "\<forall>tid \<in> set [0..<?block]. \<forall>c \<in> set (?cs tid). ?base + c < length x \<and> ?base + c < length y"
  proof (intro ballI)
    fix tid c assume "tid \<in> set [0..<?block]" and "c \<in> set (?cs tid)"
    then have "c < cols" using strided_below [of tid ?block c cols] by simp
    then show "?base + c < length x \<and> ?base + c < length y" using assms by linarith
  qed
  have zero: "\<forall>c \<in> set (?cs 0). ?base + c < length x \<and> ?base + c < length y"
    by (rule bspec [OF inside]) simp
  have first: "those (map (\<lambda>tid. max_columns x ?base (?cs tid)) [0..<?block]) = Some ?maxs"
    using inside by (intro those_map_all) (simp add: max_columns_total)
  obtain smem where max: "reduce_loop fmaxf 0 (?block div 2) ?maxs = Some smem"
      "peek smem 0 = (if cols = 0 then Some None else Some (Some ?m))"
    using maxs.reduce_loop_block [of ?maxs k] maxs.total_threads [of ?block "\<lambda>c. Some (x ! (?base + c))" cols]
    by (auto simp: row_total)
  show ?thesis
  proof (cases "cols = 0")
    case True
    moreover have "visits ?block 0 = []" using set_visits [of ?block 0] by simp
    ultimately show ?thesis using first max by (simp add: softmax_block_row_def Let_def)
  next
    case False
    have sum_0: "exp_columns ex x ?base ?m (?cs 0) y = Some (fold (\<lambda>c y. y[?base + c := ex (x ! (?base + c) - ?m)]) (?cs 0) y,
        \<Sum>c\<leftarrow>?cs 0. ex (x ! (?base + c) - ?m))"
      by (rule exp_columns_inside [OF zero])
    have "fold (\<lambda>c y. y[?base + c := ex (x ! (?base + c) - ?seen tid)]) (?cs tid)
        = fold (\<lambda>c y. y[?base + c := ?e c]) (?cs tid)" if "tid < ?block" for tid
      by (intro ext fold_cong refl) (simp add: strided_below [OF that])
    then have "fold (\<lambda>tid. fold (\<lambda>c y. y[?base + c := ex (x ! (?base + c) - ?seen tid)]) (?cs tid)) [0..<?block] y
        = fold (\<lambda>tid. fold (\<lambda>c y. y[?base + c := ?e c]) (?cs tid)) [0..<?block] y"
      by (intro fold_cong refl) simp
    then have threads: "option_fold (\<lambda>tid (y, smem). map_option (\<lambda>(y, s). (y, smem @ [s])) (exp_columns ex x ?base (?seen tid) (?cs tid) y))
        [0..<?block] (y, []) = Some (?y, ?sums)"
      using exp_threads_inside [OF inside, of ex ?seen "[]"] by (simp only: fold_threads append_Nil)
    have "sum_list ?sums = (\<Sum>tid\<leftarrow>[0..<?block]. \<Sum>c\<leftarrow>?cs tid. ?e c)"
      by (intro arg_cong [of _ _ sum_list] map_cong refl) (auto dest: strided_below)
    also have "\<dots> = (\<Sum>c\<leftarrow>[0..<cols]. ?e c)" by (rule sums_threads) simp
    finally obtain smem' where sum: "reduce_loop (+) 0 (?block div 2) ?sums = Some smem'"
        "peek smem' 0 = Some (\<Sum>c\<leftarrow>[0..<cols]. ?e c)"
      using sums_reduce_loop_block [of ?sums k] by auto
    have "option_fold (\<lambda>tid. div_columns ?base (\<Sum>c\<leftarrow>[0..<cols]. ?e c) (?cs tid)) [0..<?block] ?y
        = Some (row_result ex x cols ?base (\<lambda>c. ?seen (c mod ?block)) (visits ?block cols) y)"
      unfolding row_result_def using inside by (subst div_threads_inside) (simp_all add: fold_threads)
    then show ?thesis
      using False first max(1) threads sum
      by (simp add: softmax_block_row_def Let_def max(2) sum_0 seen_max_def [abs_def])
  qed
qed

lemma row_result_nth:
  assumes "i < length y" and "distinct cs" and "set cs = {..<cols}"
  shows "row_result ex x cols base mx cs y ! i =
    (if base \<le> i \<and> i < base + cols
     then ex (x ! i - mx (i - base)) / sum_list (map (\<lambda>c. ex (x ! (base + c) - mx c)) [0..<cols]) else y ! i)"
proof -
  let ?y = "fold (\<lambda>c y. y[base + c := ex (x ! (base + c) - mx c)]) cs y"
  have here: "base \<le> i \<and> i - base \<in> set cs \<longleftrightarrow> base \<le> i \<and> i < base + cols"
    unfolding assms(3) lessThan_iff by linarith
  have written: "?y ! i = (if base \<le> i \<and> i < base + cols then ex (x ! i - mx (i - base)) else y ! i)"
    using fold_write_nth [OF assms(1), of base "\<lambda>c. ex (x ! (base + c) - mx c)" cs] by (simp add: here)
  have change: "row_result ex x cols base mx cs y ! i = (if base \<le> i \<and> i < base + cols
      then ?y ! i / sum_list (map (\<lambda>c. ex (x ! (base + c) - mx c)) [0..<cols]) else ?y ! i)"
    unfolding row_result_def here [symmetric] by (rule fold_change_nth) (use assms in simp_all)
  show ?thesis unfolding change written by simp
qed

lemma softmax_shift:
  fixes g :: "nat \<Rightarrow> real" and v m :: real
  shows "exp (v - m) / (\<Sum>c\<leftarrow>cs. exp (g c - m)) = exp v / (\<Sum>c\<leftarrow>cs. exp (g c))"
proof -
  have "(\<Sum>c\<leftarrow>cs. exp (g c - m)) = (\<Sum>c\<leftarrow>cs. exp (g c)) / exp m"
    by (induction cs) (simp_all add: exp_diff add_divide_distrib)
  then show ?thesis by (simp add: exp_diff)
qed

lemma length_fold: "(\<And>i y. length (f i y) = length y) \<Longrightarrow> length (fold f is y) = length y"
  by (induction "is" arbitrary: y) simp_all

text \<open>A step for each row that writes the values \<open>g\<close> into its row writes them everywhere.\<close>

lemma fold_rows:
  assumes "\<And>r y. length (step r y) = length y"
    and "\<And>r y i. i < length y \<Longrightarrow> step r y ! i = (if r * cols \<le> i \<and> i < r * cols + cols then g r i else y ! i)"
    and "0 < cols" and "i < length y"
  shows "length (fold step [0..<rows] y) = length y"
    and "fold step [0..<rows] y ! i = (if i < rows * cols then g (i div cols) i else y ! i)"
proof -
  have len: "length (fold step [0..<n] y) = length y" for n
    by (induction n) (simp_all add: assms(1))
  then show "length (fold step [0..<rows] y) = length y" .
  show "fold step [0..<rows] y ! i = (if i < rows * cols then g (i div cols) i else y ! i)"
  proof (induction rows)
    case (Suc n)
    have "i div cols = n" if "n * cols \<le> i" "i < n * cols + cols"
      using that by (intro div_nat_eqI) (simp_all add: mult.commute)
    then show ?case
      using Suc assms(4) len [of n] by (auto simp: assms(2))
  qed simp
qed

text \<open>What both kernels leave: the softmax of every row, and the rest of the output as it was.\<close>

definition softmax_rows :: "real list \<Rightarrow> real list \<Rightarrow> nat \<Rightarrow> nat \<Rightarrow> real list \<Rightarrow> bool" where
  "softmax_rows x y rows cols y' \<longleftrightarrow>
     (\<forall>row < rows. take cols (drop (row * cols) y') = softmax exp (take cols (drop (row * cols) x)))
     \<and> length y' = length y \<and> drop (rows * cols) y' = drop (rows * cols) y"

lemma softmax_rowsI:
  fixes x :: "real list"
  assumes len: "\<And>r y. length (step r y) = length y"
    and nth: "\<And>r y i. 0 < cols \<Longrightarrow> i < length y \<Longrightarrow> step r y ! i = (if r * cols \<le> i \<and> i < r * cols + cols
      then exp (x ! i) / (\<Sum>c\<leftarrow>[0..<cols]. exp (x ! (r * cols + c))) else y ! i)"
    and none: "\<And>r y. cols = 0 \<Longrightarrow> step r y = y"
    and "rows * cols \<le> length x" and "rows * cols \<le> length y"
  shows "softmax_rows x y rows cols (fold step [0..<rows] y)"
proof (cases "cols = 0")
  case True
  have "fold step [0..<n] y = y" for n by (induction n) (simp_all add: none True)
  then show ?thesis by (simp add: softmax_rows_def True softmax_def)
next
  case False
  let ?g = "\<lambda>r i. exp (x ! i) / (\<Sum>c\<leftarrow>[0..<cols]. exp (x ! (r * cols + c)))"
  let ?y = "fold step [0..<rows] y"
  have l: "length ?y = length y"
    by (induction rows) (simp_all add: len)
  have v: "?y ! i = (if i < rows * cols then ?g (i div cols) i else y ! i)" if "i < length y" for i
    by (rule fold_rows) (use False that nth in \<open>simp_all add: len\<close>)
  have "take cols (drop (row * cols) ?y) = softmax exp (take cols (drop (row * cols) x))" if "row < rows" for row
  proof (rule nth_equalityI)
    have fit: "row * cols + cols \<le> rows * cols"
      using that by (metis Suc_leI add.commute mult_Suc mult_le_mono1)
    then show "length (take cols (drop (row * cols) ?y)) = length (softmax exp (take cols (drop (row * cols) x)))"
      using assms(4,5) l by (simp add: softmax_def)
    fix i assume "i < length (take cols (drop (row * cols) ?y))"
    then have i: "i < cols" by simp
    have "take cols (drop (row * cols) x) = map (\<lambda>c. x ! (row * cols + c)) [0..<cols]"
      using fit assms(4) by (intro nth_equalityI) simp_all
    then show "take cols (drop (row * cols) ?y) ! i = softmax exp (take cols (drop (row * cols) x)) ! i"
      using i fit assms(4,5) l v [of "row * cols + i"] False
      by (simp add: softmax_def comp_def)
  qed
  moreover have "drop (rows * cols) ?y = drop (rows * cols) y"
    using l v assms(5) by (intro nth_equalityI) simp_all
  ultimately show ?thesis by (simp add: softmax_rows_def l)
qed

lemma softmax_rows_result:
  assumes "distinct cs" and "set cs = {..<cols}" and "rows * cols \<le> length x" and "rows * cols \<le> length y"
  shows "softmax_rows x y rows cols
    (fold (\<lambda>r. row_result exp x cols (r * cols) (\<lambda>_. row_max x (r * cols) cols) cs) [0..<rows] y)"
proof (rule softmax_rowsI [OF _ _ _ assms(3,4)])
  show "row_result exp x cols (r * cols) (\<lambda>_. row_max x (r * cols) cols) cs y ! i = (if r * cols \<le> i \<and> i < r * cols + cols
      then exp (x ! i) / (\<Sum>c\<leftarrow>[0..<cols]. exp (x ! (r * cols + c))) else y ! i)"
    if "0 < cols" "i < length y" for r y i
    using that assms(1,2) by (simp add: row_result_nth softmax_shift)
  show "row_result exp x cols (r * cols) (\<lambda>_. row_max x (r * cols) cols) cs y = y" if "cols = 0" for r and y :: "real list"
    using that assms(2) by (cases cs) simp_all
qed simp

text \<open>A launch whose rows all stay inside is the rows one after the other.\<close>

lemma row_inside: "r < rows \<Longrightarrow> rows * cols \<le> n \<Longrightarrow> r * cols + cols \<le> n" for n :: nat
proof -
  assume "r < rows" and "rows * cols \<le> n"
  then have "Suc r * cols \<le> rows * cols" by (intro mult_le_mono1) simp
  then show ?thesis using \<open>rows * cols \<le> n\<close> by simp
qed

lemma rows_inside:
  assumes "\<And>r z. r < rows \<Longrightarrow> length z = length y \<Longrightarrow> f r z = Some (g r z)" and "\<And>r z. length (g r z) = length z"
  shows "option_fold f [0..<rows] y = Some (fold g [0..<rows] y)"
  by (rule option_fold_pure(1) [where I = "\<lambda>z. length z = length y"]) (simp_all add: assms)

text \<open>
  The naive kernel leaves the softmax of every row of the matrix.
\<close>

lemma softmax_naive_correct:
  assumes "rows * cols \<le> length x" and "rows * cols \<le> length y"
    and "launchable (of_nat rows) (int block)" and "indices_fit rows cols 1"
  shows "\<exists>y'. softmax_naive_kernel exp x y rows cols block = Some y' \<and> softmax_rows x y rows cols y'"
proof -
  have "option_fold (softmax_naive_row exp x cols) [0..<rows] y
      = Some (fold (\<lambda>r. row_result exp x cols (r * cols) (\<lambda>_. row_max x (r * cols) cols) [0..<cols]) [0..<rows] y)"
    using assms(1,2) by (intro rows_inside naive_row_result) (auto intro: row_inside)
  then show ?thesis
    using softmax_rows_result [OF _ _ assms(1,2), of "[0..<cols]"] assms(3,4)
    by (auto simp: softmax_naive_kernel_def atLeast0LessThan)
qed

lemma block_rows:
  assumes "block = 2 ^ k" and "rows * cols \<le> length x" and "rows * cols \<le> length y"
  shows "option_fold (\<lambda>row. softmax_block_row ex x cols block (late row) row) [0..<rows] y =
    Some (fold (\<lambda>r. row_result ex x cols (r * cols) (\<lambda>c. seen_max ex x (r * cols) cols block (late r) (c mod block))
      (visits block cols)) [0..<rows] y)"
  unfolding assms(1) by (intro rows_inside block_row_result) (use assms(2,3) in \<open>auto intro: row_inside\<close>)

text \<open>\<^verbatim>\<open>(threads & (threads - 1)) == 0\<close> holds for powers of two only, where a block can have that size.\<close>

lemma and_pred_power: "0 < n \<Longrightarrow> and n (n - 1) = 0 \<Longrightarrow> \<exists>k. n = 2 ^ k" for n :: nat
proof (induction n rule: less_induct)
  case (less n)
  show ?case
  proof (cases "even n")
    case True
    then obtain u where n: "n = 2 * u" by (elim evenE)
    then have u: "0 < u" using less.prems by simp
    have "n - 1 = 1 + 2 * (u - 1)" using n u by simp
    then have "and n (n - 1) = 2 * and u (u - 1)" by (simp add: n and_rec [of "2 * u"])
    then obtain k where "u = 2 ^ k" using less.IH [of u] less.prems u n by auto
    then have "n = 2 ^ Suc k" using n by simp
    then show ?thesis by blast
  next
    case False
    then obtain u where n: "n = 2 * u + 1" by (elim oddE)
    have "and n (n - 1) = 2 * u" by (simp add: n and_rec [of "Suc (2 * u)"])
    then have "n = 2 ^ 0" using less.prems n by simp
    then show ?thesis by blast
  qed
qed

lemma accepted_power:
  assumes "threads_accepted threads" and "0 < threads" and "unat threads \<le> 1024"
  shows "\<exists>k. unat threads = 2 ^ k"
proof (rule and_pred_power)
  show "0 < unat threads" using assms(2) by (simp add: word_less_nat_alt)
  have "unat (threads - 1) = unat threads - 1"
    using assms(2) by (intro unat_minus_one) auto
  moreover have "unat (and threads (threads - 1)) = and (unat threads) (unat (threads - 1))"
    by (simp add: unsigned_and_eq)
  ultimately show "and (unat threads) (unat threads - 1) = 0"
    using assms(1) by (simp add: threads_accepted_def)
qed

text \<open>A launch that passes the check and the device has a number of threads for which the reductions are right.\<close>

lemma bench_rows:
  assumes "rows * cols \<le> length x" and "rows * cols \<le> length y" and "threads_accepted threads"
    and "launchable (of_nat rows) (int (unat threads))" and "indices_fit rows cols (unat threads)"
  shows "softmax_bench ex late x y rows cols threads =
    Some (fold (\<lambda>r. row_result ex x cols (r * cols)
        (\<lambda>c. seen_max ex x (r * cols) cols (unat threads) (late r) (c mod unat threads)) (visits (unat threads) cols))
      [0..<rows] y)"
proof -
  from assms(4) have "0 < unat threads" and "unat threads \<le> 1024"
    by (simp_all add: launchable_def del: of_nat_unat)
  then obtain k where "unat threads = 2 ^ k"
    using accepted_power [OF assms(3)] by (auto simp: word_less_nat_alt)
  from block_rows [OF this assms(1,2)] show ?thesis
    using assms(3-5) by (simp add: softmax_bench_def softmax_block_kernel_def del: of_nat_unat)
qed

text \<open>
  C11. The benchmark lets only thread counts pass with which the tree reductions are right: whatever
  \<^verbatim>\<open>--threads\<close> is, a launch that passes the check and the device leaves the softmax of every row, as the
  naive kernel does, if all threads take the maximum before thread 0 overwrites it.
\<close>

theorem softmax_bench_correct:
  assumes "rows * cols \<le> length x" and "rows * cols \<le> length y" and "threads_accepted threads"
    and "launchable (of_nat rows) (int (unat threads))" and "indices_fit rows cols (unat threads)"
    and "\<forall>row tid. \<not> late row tid"
  shows "\<exists>y'. softmax_bench exp late x y rows cols threads = Some y' \<and> softmax_rows x y rows cols y'"
proof -
  have "0 < unat threads" using assms(4) by (simp add: launchable_def del: of_nat_unat)
  then have "set (visits (unat threads) cols) = {..<cols}" by (rule set_visits)
  from softmax_rows_result [OF distinct_visits this assms(1,2)] show ?thesis
    using assms(6) bench_rows [OF assms(1-5), of exp late] by (simp add: seen_max_def)
qed

theorem softmax_bench_correct_witness:
  "\<exists>y'. softmax_bench exp (\<lambda>_ _. False) [1, 2, 3, 4] [0, 0, 0, 0] 2 2 4 = Some y'
    \<and> softmax_rows [1, 2, 3, 4] [0, 0, 0, 0] 2 2 y'"
  by (rule softmax_bench_correct) (simp_all add: threads_accepted_def launchable_def indices_fit_def)

text \<open>What a column of a row holds after a launch, whatever is taken for the maxima\<close>

lemma fold_row_results_nth:
  assumes "distinct cs" and "set cs = {..<cols}" and "rows * cols \<le> length y" and "row < rows" and "c < cols"
  shows "fold (\<lambda>r. row_result ex x cols (r * cols) (mx r) cs) [0..<rows] y ! (row * cols + c) =
    ex (x ! (row * cols + c) - mx row c) / (\<Sum>c\<leftarrow>[0..<cols]. ex (x ! (row * cols + c) - mx row c))"
proof -
  let ?g = "\<lambda>r i. ex (x ! i - mx r (i - r * cols)) / (\<Sum>c\<leftarrow>[0..<cols]. ex (x ! (r * cols + c) - mx r c))"
  have inside: "row * cols + c < rows * cols" using row_inside [OF assms(4) order_refl, of cols] assms(5) by linarith
  have "fold (\<lambda>r. row_result ex x cols (r * cols) (mx r) cs) [0..<rows] y ! i
      = (if i < rows * cols then ?g (i div cols) i else y ! i)" if "i < length y" for i
    by (rule fold_rows(2)) (use that assms(1,2,5) in \<open>simp_all add: row_result_nth\<close>)
  from this [of "row * cols + c"] show ?thesis using inside assms(3,5) by simp
qed

lemma row_max_scores:
  assumes "row * cols + cols \<le> length x"
  shows "row_max x (row * cols) cols = Max (set (take cols (drop (row * cols) x)))"
proof -
  have "take cols (drop (row * cols) x) = map (\<lambda>c. x ! (row * cols + c)) [0..<cols]"
    using assms by (intro nth_equalityI) simp_all
  then show ?thesis by (simp add: row_max_def atLeast0LessThan)
qed

lemma softmax_sum_pos: "scores \<noteq> [] \<Longrightarrow> 0 < sum_list (map exp (scores :: real list))"
  by (induction scores) (auto intro!: add_pos_nonneg sum_list_nonneg)

text \<open>
  C36. The race is real: a thread that comes late, in a row where it has a column, takes the first thread's sum
  for the maximum. Against the column of thread 0 its result is off by a factor of \<open>exp (m - sum_0)\<close>, so
  the row is no softmax unless the sum happens to be the maximum.
\<close>

theorem late_thread_spoils_row:
  fixes x y :: "real list"
  assumes "rows * cols \<le> length x" and "rows * cols \<le> length y" and "threads_accepted threads"
    and "launchable (of_nat rows) (int (unat threads))" and "indices_fit rows cols (unat threads)"
    and "row < rows" and "0 < tid" and "tid < unat threads" and "tid < cols" and "late row tid"
  defines "scores \<equiv> take cols (drop (row * cols) x)"
  defines "m \<equiv> Max (set scores)"
  defines "sum_0 \<equiv> \<Sum>c\<leftarrow>strided 0 (unat threads) cols. exp (scores ! c - m)"
  shows "\<exists>y'. softmax_bench exp late x y rows cols threads = Some y'
    \<and> (let out = take cols (drop (row * cols) y')
       in out ! tid / out ! 0 = exp (scores ! tid - scores ! 0) * exp (m - sum_0)
         \<and> (out = softmax exp scores \<longrightarrow> m = sum_0))"
proof -
  let ?base = "row * cols" and ?block = "unat threads"
  let ?seen = "\<lambda>r. seen_max exp x (r * cols) cols ?block (late r)"
  let ?step = "\<lambda>r. row_result exp x cols (r * cols) (\<lambda>c. ?seen r (c mod ?block)) (visits ?block cols)"
  let ?y = "fold ?step [0..<rows] y" and ?S = "\<lambda>r. \<Sum>c\<leftarrow>[0..<cols]. exp (x ! (r * cols + c) - ?seen r (c mod ?block))"
  have pos: "0 < ?block" "0 < cols" using assms(8,9) by simp_all
  have fit: "?base + cols \<le> length x" "?base + cols \<le> length y" using assms(1,2,6) by (auto intro: row_inside)
  have visits: "set (visits ?block cols) = {..<cols}" using pos(1) by (rule set_visits)
  have scores: "scores ! c = x ! (?base + c)" if "c < cols" for c
    using that fit(1) by (simp add: scores_def)
  have len: "length ?y = length y"
    by (rule length_fold) simp
  have nth: "?y ! (?base + c) = exp (scores ! c - ?seen row (c mod ?block)) / ?S row" if "c < cols" for c
    using fold_row_results_nth [OF distinct_visits visits assms(2,6) that] that by (simp add: scores)
  have m: "row_max x ?base cols = m" unfolding m_def scores_def by (rule row_max_scores [OF fit(1)])
  have "(\<Sum>c\<leftarrow>strided 0 ?block cols. exp (x ! (?base + c) - m)) = sum_0"
    unfolding sum_0_def
    by (intro arg_cong [of _ _ sum_list] map_cong refl) (simp add: scores strided_below [OF pos(1)])
  then have seen: "?seen row tid = sum_0" "?seen row 0 = m"
    using assms(7,10) by (simp_all add: seen_max_def m)
  let ?out = "take cols (drop ?base ?y)"
  have out: "?out ! tid = exp (scores ! tid - sum_0) / ?S row" "?out ! 0 = exp (scores ! 0 - m) / ?S row"
    using nth [of tid] nth [of 0] assms(8,9) pos fit(2) seen by (simp_all add: len)
  have "0 < ?S row"
    using softmax_sum_pos [of "map (\<lambda>c. x ! (?base + c) - ?seen row (c mod ?block)) [0..<cols]"] pos(2)
    by (simp add: comp_def)
  then have ratio: "?out ! tid / ?out ! 0 = exp (scores ! tid - scores ! 0) * exp (m - sum_0)"
    unfolding out by (simp add: exp_diff)
  moreover have "m = sum_0" if "?out = softmax exp scores"
  proof -
    have "length scores = cols" using fit(1) by (simp add: scores_def)
    moreover from this have "scores \<noteq> []" using pos(2) by auto
    ultimately have "?out ! tid / ?out ! 0 = exp (scores ! tid) / exp (scores ! 0)"
      unfolding that using assms(9) pos(2) softmax_sum_pos [of scores] by (auto simp: softmax_def)
    then have "exp (scores ! tid - scores ! 0) * exp (m - sum_0) = exp (scores ! tid - scores ! 0)"
      unfolding ratio by (simp only: exp_diff [of "scores ! tid"])
    then show ?thesis by simp
  qed
  ultimately show ?thesis using bench_rows [OF assms(1-5), of exp late] by (simp add: Let_def)
qed

theorem late_thread_spoils_row_witness:
  "\<exists>y'. softmax_bench exp (\<lambda>_ _. True) [0, 0] [0, 0 :: real] 1 2 2 = Some y'
    \<and> take 2 y' ! 1 / take 2 y' ! 0 = exp (- 1) \<and> take 2 y' \<noteq> softmax exp [0, 0]"
proof -
  have "unat (2 :: i32) = 2" "threads_accepted 2" "launchable 1 2" "strided 0 2 2 = [0]" by code_simp+
  then show ?thesis
    using late_thread_spoils_row [of 1 2 "[0, 0]" "[0, 0]" 2 0 1 "\<lambda>_ _. True"]
    by (auto simp: indices_fit_def Let_def)
qed

end
