(* ===== verification/Softmax_Program.thy ===== *)
theory Softmax_Program
  imports Bench_Properties Softmax
begin

text \<open>
  The program \<^verbatim>\<open>softmax-profile-card/src/softmax_bench.cu\<close> from its command line to its exit status, and what
  it does: its result, the ways it ends, and the matrices on which its kernel overflows an \<^verbatim>\<open>int\<close>.
\<close>

section \<open>The command line\<close>

definition atoi :: "bytes \<Rightarrow> i32" where
  "atoi text = (case strtol text of None \<Rightarrow> 0 | Some (v, rest) \<Rightarrow> word_of_int v)"

text \<open>The first argument that is the name, unless it is the last of all, decides.\<close>

fun get_int_arg :: "bytes list \<Rightarrow> string \<Rightarrow> i32 \<Rightarrow> i32" where
  "get_int_arg (arg # val # args) name default_value =
     (if arg = bytes_of (''--'' @ name) then atoi val else get_int_arg (val # args) name default_value)"
| "get_int_arg args name default_value = default_value"

section \<open>The program\<close>

datatype 'd softmax_line = Shape i32 i32 i32 i32 | Timing "'d option" "'d option"

text \<open>\<^verbatim>\<open>rows\<close> and \<^verbatim>\<open>cols\<close> are not negative when a launch is accepted. \<open>None\<close>: an access outside a buffer, or an \<^verbatim>\<open>int\<close> overflows.\<close>

definition softmax_step ::
  "('d::linordered_field \<Rightarrow> 'd) \<Rightarrow> (nat \<Rightarrow> nat \<Rightarrow> bool) \<Rightarrow> nat \<Rightarrow> nat \<Rightarrow> nat \<Rightarrow> nat \<Rightarrow> nat
    \<Rightarrow> (nat \<rightharpoonup> 'd list) \<Rightarrow> (nat \<rightharpoonup> 'd list) option" where
  "softmax_step ex late d_x d_y rows cols block mem =
     (case (mem d_x, mem d_y) of
        (Some x, Some y) \<Rightarrow>
          map_option (\<lambda>y. mem(d_y \<mapsto> y)) (softmax_block_kernel ex late x y rows cols block)
      | _ \<Rightarrow> None)"

text \<open>
  \<open>late i row tid\<close>: in launch \<open>i\<close>, thread \<open>tid\<close> of the block for \<open>row\<close> takes the maximum late.
  \<open>normal i\<close> is the random number with index \<open>i\<close>, \<open>host_floats\<close> the longest vector of floats the host can
  hold. A quotient that is not finite is \<open>None\<close>, and so is what is computed from it.
\<close>

definition average_ms :: "'d::linordered_field \<Rightarrow> i32 \<Rightarrow> 'd option" where
  "average_ms total_ms iters = fdiv total_ms (of_int (sint iters))"

definition effective_gbs :: "u64 \<Rightarrow> 'd::linordered_field option \<Rightarrow> 'd option" where
  "effective_gbs bytes avg_ms =
     Option.bind avg_ms (\<lambda>avg. map_option (\<lambda>bps. bps / 1000000000) (fdiv (of_nat (unat bytes) * 5) (avg / 1000)))"

definition softmax_run ::
  "('d::linordered_field \<Rightarrow> 'd) \<Rightarrow> (nat \<Rightarrow> nat \<Rightarrow> nat \<Rightarrow> bool) \<Rightarrow> (nat \<Rightarrow> 'd) \<Rightarrow> nat \<Rightarrow> i32 \<Rightarrow> i32 \<Rightarrow> i32 \<Rightarrow> i32
    \<Rightarrow> (ending, ('d, 'd softmax_line) device, int) prog" where
  "softmax_run ex late normal host_floats rows cols iters threads =
     (if \<not> threads_accepted threads then ret 1
      else
        let n = scast rows * scast cols :: u64;
            bytes = n * 4
        in if unat n > host_floats then throw Killed
           else bind (checked (cudaMalloc bytes)) (\<lambda>d_x.
                bind (checked (cudaMalloc bytes)) (\<lambda>d_y.
                seq (checked (cudaMemcpy d_x normal))
                (let go = launch (launchable rows (sint threads)) [d_x, d_y]
                            (\<lambda>i. softmax_step ex (late i) d_x d_y (unat rows) (unat cols) (unat threads))
                 in seq (iterate 10 (\<lambda>_. go) ())
                (seq checked_last_error
                (seq (checked cudaDeviceSynchronize)
                (bind (checked cudaEventCreate) (\<lambda>start.
                 bind (checked cudaEventCreate) (\<lambda>stop.
                 seq (checked (cudaEventRecord start))
                (seq (iterate (nat (sint iters)) (\<lambda>_. go) ())
                (seq (checked (cudaEventRecord stop))
                (seq (checked cudaDeviceSynchronize)       \<comment> \<open>\<^verbatim>\<open>cudaEventSynchronize\<close>\<close>
                (bind (checked (cudaEventElapsedTime start stop)) (\<lambda>total_ms.
                 let avg_ms = average_ms total_ms iters
                 in seq (print (Shape rows cols threads iters))
                (seq (print (Timing avg_ms (effective_gbs bytes avg_ms)))
                (seq (clean_up start stop [d_x, d_y]) (ret 0)))))))))))))))))"

definition softmax_main ::
  "('d::linordered_field \<Rightarrow> 'd) \<Rightarrow> (nat \<Rightarrow> nat \<Rightarrow> nat \<Rightarrow> bool) \<Rightarrow> (nat \<Rightarrow> 'd) \<Rightarrow> nat \<Rightarrow> bytes list
    \<Rightarrow> (ending, ('d, 'd softmax_line) device, int) prog" where
  "softmax_main ex late normal host_floats args =
     softmax_run ex late normal host_floats (get_int_arg args ''rows'' 4096) (get_int_arg args ''cols'' 1024)
       (get_int_arg args ''iters'' 100) (get_int_arg args ''threads'' 256)"

section \<open>The launch\<close>

text \<open>Whatever goes through keeps the length of the output.\<close>

lemma length_exp_columns: "exp_columns ex x base m cs y = Some (y', s) \<Longrightarrow> length y' = length y"
proof -
  assume "exp_columns ex x base m cs y = Some (y', s)"
  then have "case (y', s) of (z, _) \<Rightarrow> length z = length y"
    unfolding exp_columns_def
    by (rule option_fold_keeps) (auto simp: Let_def split: Option.bind_splits dest!: length_poke)
  then show ?thesis by simp
qed

lemma length_div_columns: "div_columns base s cs y = Some y' \<Longrightarrow> length y' = length y"
  unfolding div_columns_def
  by (rule option_fold_keeps [where I = "\<lambda>z. length z = length y"]) (auto split: Option.bind_splits dest!: length_poke)

lemma length_softmax_block_row:
  assumes "softmax_block_row ex x cols block late row y = Some y'"
  shows "length y' = length y"
proof -
  have threads: "length (fst st') = length (fst st)"
    if "option_fold (\<lambda>tid (y, smem). map_option (\<lambda>(y, s). (y, smem @ [s])) (exp_columns ex x base (mx tid) (cs tid) y)) tids st
      = Some st'" for base mx cs tids and st st' :: "'a list \<times> 'a list"
    using that by (rule option_fold_keeps [where I = "\<lambda>s. length (fst s) = length (fst st)"]) (auto dest!: length_exp_columns)
  have div: "length z' = length z"
    if "option_fold (\<lambda>tid. div_columns base s (cs tid)) tids z = Some z'" for base s cs tids and z z' :: "'a list"
    using that by (rule option_fold_keeps [where I = "\<lambda>y. length y = length z"]) (auto dest: length_div_columns)
  show ?thesis
    using assms by (auto simp: softmax_block_row_def Let_def split: Option.bind_splits option.splits dest!: threads div)
qed

lemma softmax_step_shape:
  "softmax_step ex late d_x d_y rows cols block mem = Some mem' \<Longrightarrow> same_shape [d_x \<mapsto> k, d_y \<mapsto> k] mem mem'"
proof -
  have "length y' = length y"
    if "option_fold (\<lambda>row. softmax_block_row ex x cols block (late row) row) [0..<rows] y = Some y'" for x y y'
    using that by (rule option_fold_keeps [where I = "\<lambda>z. length z = length y"]) (auto dest: length_softmax_block_row)
  then show "softmax_step ex late d_x d_y rows cols block mem = Some mem' \<Longrightarrow> same_shape [d_x \<mapsto> k, d_y \<mapsto> k] mem mem'"
    by (auto simp: softmax_step_def softmax_block_kernel_def same_shape_def split: option.splits if_splits)
qed

lemma softmax_well_behaved:
  fixes ex :: "'a::linordered_field \<Rightarrow> 'a"
  assumes "d_x \<noteq> d_y" and "safe \<Longrightarrow> rows * cols \<le> k \<and> indices_fit rows cols block"
    and "accepted \<Longrightarrow> launchable (of_nat rows) (int block) \<and> (\<exists>j. block = 2 ^ j)"
  shows "well_behaved (safe \<and> accepted) [d_x \<mapsto> k, d_y \<mapsto> k] (\<lambda>i. softmax_step ex (late i) d_x d_y rows cols block)"
proof (rule well_behavedI)
  fix i and mem :: "nat \<rightharpoonup> 'a list"
  assume run: "safe \<and> accepted"
    and "\<And>p n. [d_x \<mapsto> k, d_y \<mapsto> k] p = Some n \<Longrightarrow> map_option length (mem p) = Some n"
  from this(2) [of d_x] this(2) [of d_y] obtain x y where "mem d_x = Some x" "length x = k" "mem d_y = Some y" "length y = k"
    using assms(1) by (auto split: if_splits)
  moreover obtain j where "block = 2 ^ j" using run assms(3) by blast
  ultimately show "softmax_step ex (late i) d_x d_y rows cols block mem \<noteq> None"
    using assms(2,3) run block_rows [of block j rows cols x y ex "late i"]
    by (simp add: softmax_step_def softmax_block_kernel_def)
qed (rule softmax_step_shape)

section \<open>A run\<close>

lemma matrix_size:
  assumes "0 < sint rows" and "0 \<le> sint cols"
  shows "unat (scast (rows :: i32) * scast (cols :: i32) * 4 :: u64) div 4 = unat rows * unat cols"
proof (cases "sint cols = 0")
  case True
  then have "cols = 0" by (intro signed_word_eqI) simp
  then show ?thesis by simp
next
  case False
  then have pos: "0 < sint cols" using assms(2) by simp
  note r = unat_pos_i32 [OF assms(1)] and c = unat_pos_i32 [OF pos]
  have "unat rows * unat cols < 2 ^ 31 * 2 ^ 31" by (rule mult_strict_mono) (use r(3) c(3) in simp_all)
  then have less: "unat (scast rows :: u64) * unat (scast cols :: u64) < 2 ^ 62"
    unfolding r(2) c(2) unfolding r(1) c(1) by simp
  then have "unat (scast rows * scast cols :: u64) = unat (scast rows :: u64) * unat (scast cols :: u64)"
    by (subst unat_mult_lem [THEN iffD1]) simp_all
  then have eq: "unat (scast rows * scast cols :: u64) = unat rows * unat cols"
    unfolding r(2) c(2) unfolding r(1) c(1) .
  have "unat (scast rows * scast cols :: u64) < 2 ^ 62" using less unfolding r(2) c(2) eq unfolding r(1) c(1) .
  from unat_times_4 [OF this] show ?thesis unfolding eq .
qed

lemma softmax_run_ends:
  fixes rows cols iters threads :: i32
  defines "bytes \<equiv> scast rows * scast cols * 4 :: u64"
  assumes "device_ok d" and "good \<Longrightarrow> calm d \<and> safe \<and> launchable rows (sint threads)"
    and "safe \<Longrightarrow> indices_fit (unat rows) (unat cols) (unat threads) \<and> 0 \<le> sint cols"
    and "host_floats < unat (scast rows * scast cols :: u64) \<Longrightarrow> killed" and "threads_accepted threads"
  shows "ends (softmax_run ex late normal host_floats rows cols iters threads) (stops good safe killed d)
    (\<lambda>v d'. v = 0 \<and> running good safe d
       [Shape rows cols threads iters,
        Timing (average_ms (reading (event_ms d) 0) iters)
          (effective_gbs bytes (average_ms (reading (event_ms d) 0) iters))]
       \<lparr>owned = Map.empty, events = {}, runs = 10 + nat (sint iters), events_read = 1, clocks_read = 0\<rparr> d') d"
proof (cases "host_floats < unat (scast rows * scast cols :: u64)")
  case True
  then show ?thesis
    using assms(5,6) by (simp add: softmax_run_def Let_def ends_throw stops_def)
next
  case False
  have accepted: "\<not> \<not> threads_accepted threads" using assms(6) by simp
  show ?thesis
    unfolding softmax_run_def if_not_P [OF accepted] Let_def if_not_P [OF False] ends_seq ends_bind
  proof (rule checked_call [OF running_start [OF assms(2)]], use assms(3) in simp, rule malloc_call, assumption,
      rule checked_call, assumption, rule malloc_call, assumption, rule checked_call, assumption,
      rule memcpy_call, assumption, simp, goal_cases)
    case (1 d1 d_x d2 d3 d_y d4 d5 d6)
    have distinct: "d_x \<noteq> d_y" using 1 by (auto simp: start_ghost_def)
    let ?ker = "\<lambda>i. softmax_step ex (late i) d_x d_y (unat rows) (unat cols) (unat threads)"
    let ?sz = "[d_x \<mapsto> unat bytes div 4, d_y \<mapsto> unat bytes div 4]"
    have fit: "unat rows * unat cols \<le> unat bytes div 4 \<and> indices_fit (unat rows) (unat cols) (unat threads)"
      if "safe \<and> launchable rows (sint threads)"
      using that assms(4) matrix_size [of rows cols] by (simp add: bytes_def launchable_def)
    have same: "launchable (of_nat (unat rows)) (int (unat threads)) \<and> (\<exists>j. unat threads = 2 ^ j)"
      if "launchable rows (sint threads)"
    proof -
      have "0 < sint threads" "sint threads \<le> 1024" "0 < sint rows" using that by (simp_all add: launchable_def)
      with accepted_power [OF assms(6)] unat_pos_i32 [of threads] show ?thesis
        by (auto simp: launchable_def word_less_nat_alt)
    qed
    have ker: "well_behaved (safe \<and> launchable rows (sint threads)) ?sz ?ker"
      using softmax_well_behaved [OF distinct fit same, where safe = "safe \<and> launchable rows (sint threads)"
          and accepted = "launchable rows (sint threads)" and ex = ex and late = late] by (simp add: conj_ac)
    have run: "running good safe d [] (start_ghost\<lparr>owned := ?sz\<rparr>) d6"
      using 1 by (simp add: bytes_def start_ghost_def)
    show ?case
    proof (rule warm_up_call [OF run], use ker in simp, simp, use assms(3) in simp, rule last_error_call, assumption,
        rule checked_call, assumption, rule synchronize_call, assumption, rule checked_call, assumption,
        rule event_create_call, assumption, rule checked_call, assumption, rule event_create_call, assumption,
        rule checked_call, assumption, rule event_record_call, assumption, rule warm_up_call, assumption,
        use ker in \<open>simp add: start_ghost_def\<close>, simp, use assms(3) in simp, rule checked_call, assumption,
        rule event_record_call, assumption, rule checked_call, assumption, rule synchronize_call, assumption,
        rule checked_call, assumption, rule elapsed_call, assumption, rule print_call, assumption,
        rule print_call, assumption, rule clean_up_call, assumption, goal_cases)
      case (5 d1 d2 d3 d4 start d5 d6 stop d7 d8 d9 d10 d11 d12 d13 d14 d15 d16 d17)
      then show ?case by (simp add: ends_ret bytes_def start_ghost_def)
    qed (use distinct in \<open>auto simp: start_ghost_def\<close>)
  qed
qed

text \<open>
  C26. \<^verbatim>\<open>softmax_bench\<close> on a device on which no call fails, with an accepted number of threads and a matrix
  whose indices fit an \<^verbatim>\<open>int\<close>: it prints the shape and the average time of a launch (total over
  \<^verbatim>\<open>iters\<close>, nothing finite for 0), returns 0 after ten warm-up launches and the measured ones, and
  leaves no buffer and no event behind.
\<close>

theorem softmax_run_completes:
  fixes d :: "('d::linordered_field, 'd softmax_line) device"
  assumes "device_ok d" and "calm d" and "threads_accepted threads" and "launchable rows (sint threads)"
    and "0 \<le> sint cols" and "indices_fit (unat rows) (unat cols) (unat threads)"
    and "unat (scast rows * scast cols :: u64) \<le> host_floats"
  shows "\<exists>d'. softmax_run ex late normal host_floats rows cols iters threads d = (Inr 0, d')
    \<and> printed d' = printed d @ [Shape rows cols threads iters,
        Timing (average_ms (reading (event_ms d) 0) iters)
          (effective_gbs (scast rows * scast cols * 4) (average_ms (reading (event_ms d) 0) iters))]
    \<and> memory d' = memory d \<and> live_events d' = live_events d
    \<and> launches d' = launches d + (10 + nat (sint iters))"
proof -
  have "ends (softmax_run ex late normal host_floats rows cols iters threads) (stops True True False d)
    (\<lambda>v d'. v = 0 \<and> running True True d
       [Shape rows cols threads iters,
        Timing (average_ms (reading (event_ms d) 0) iters)
          (effective_gbs (scast rows * scast cols * 4) (average_ms (reading (event_ms d) 0) iters))]
       \<lparr>owned = Map.empty, events = {}, runs = 10 + nat (sint iters), events_read = 1, clocks_read = 0\<rparr> d') d"
    by (rule softmax_run_ends) (use assms in auto)
  then show ?thesis
    by (cases "softmax_run ex late normal host_floats rows cols iters threads d")
      (auto simp: ends_def stops_def running_def dest: owns_nothing split: sum.splits)
qed

theorem softmax_run_completes_witness:
  "\<exists>d'. softmax_run (\<lambda>v. v) (\<lambda>_ _ _. False) (\<lambda>_. 0) 100 3 5 0 4 (fresh_device (1 :: rat) 1) = (Inr 0, d')
    \<and> printed d' = [Shape 3 5 4 0, Timing None None] \<and> memory d' = Map.empty \<and> live_events d' = {} \<and> launches d' = 10"
  using softmax_run_completes [of "fresh_device (1 :: rat) 1" 4 3 5 100 "\<lambda>v. v" "\<lambda>_ _ _. False" "\<lambda>_. 0" 0]
  by (simp add: threads_accepted_def launchable_def indices_fit_def average_ms_def fdiv_def effective_gbs_def)

text \<open>
  C30. Whatever the runtime answers and whatever the arguments, \<^verbatim>\<open>softmax_bench\<close> returns 1 and does nothing when
  the number of threads is refused; otherwise it returns 0 with two lines printed and everything freed,
  or exits with status 1, or is killed, and that only when the host cannot hold the matrix.
\<close>

theorem softmax_main_ends:
  fixes d :: "('d::linordered_field, 'd softmax_line) device" and args :: "bytes list"
  defines "rows \<equiv> get_int_arg args ''rows'' 4096" and "cols \<equiv> get_int_arg args ''cols'' 1024"
    and "threads \<equiv> get_int_arg args ''threads'' 256"
  assumes "device_ok d"
  shows "case softmax_main ex late normal host_floats args d of
      (Inl x, d') \<Rightarrow> threads_accepted threads \<and>
        (x = Exit 1 \<or> x = Killed \<and> host_floats < unat (scast rows * scast cols :: u64))
    | (Inr v, d') \<Rightarrow> (if threads_accepted threads
        then v = 0 \<and> length (printed d') = length (printed d) + 2 \<and> memory d' = memory d \<and> live_events d' = live_events d
        else v = 1 \<and> d' = d)"
proof (cases "threads_accepted threads")
  case False
  then show ?thesis by (simp add: softmax_main_def softmax_run_def threads_def)
next
  case True
  let ?k = "host_floats < unat (scast rows * scast cols :: u64)"
  have "ends (softmax_main ex late normal host_floats args) (stops False False ?k d)
      (\<lambda>v d'. v = 0 \<and> running False False d
       [Shape rows cols threads (get_int_arg args ''iters'' 100),
        Timing (average_ms (reading (event_ms d) 0) (get_int_arg args ''iters'' 100))
          (effective_gbs (scast rows * scast cols * 4)
            (average_ms (reading (event_ms d) 0) (get_int_arg args ''iters'' 100)))]
       \<lparr>owned = Map.empty, events = {}, runs = 10 + nat (sint (get_int_arg args ''iters'' 100)), events_read = 1,
         clocks_read = 0\<rparr> d') d"
    unfolding softmax_main_def rows_def cols_def threads_def
    by (rule softmax_run_ends) (use assms True in \<open>auto simp: threads_def\<close>)
  then show ?thesis
    using True by (cases "softmax_main ex late normal host_floats args d")
      (auto simp: ends_def stops_def running_def dest: owns_nothing split: sum.splits)
qed

theorem softmax_main_ends_witness:
  "case softmax_main (\<lambda>v. v) (\<lambda>_ _ _. False) (\<lambda>_. 0) 0 [bytes_of ''--threads'', bytes_of ''96''] (fresh_device (1 :: rat) 1) of
      (Inl x, d') \<Rightarrow> False | (Inr v, d') \<Rightarrow> v = 1 \<and> printed d' = []"
proof -
  have t: "get_int_arg [bytes_of ''--threads'', bytes_of ''96''] ''threads'' 256 = 96" by code_simp
  have "\<not> threads_accepted 96" by (simp add: threads_accepted_def)
  then show ?thesis
    using softmax_main_ends [where d = "fresh_device (1 :: rat) 1" and ex = "\<lambda>v. v" and late = "\<lambda>_ _ _. False"
        and normal = "\<lambda>_. 0" and host_floats = 0 and args = "[bytes_of ''--threads'', bytes_of ''96'']"]
    unfolding t by (simp split: prod.splits sum.splits)
qed

lemma failed_softmax_step: "\<not> indices_fit rows cols block \<Longrightarrow> softmax_step ex late d_x d_y rows cols block mem = None"
  by (auto simp: softmax_step_def softmax_block_kernel_def split: option.split)

text \<open>
  The kernel computes \<^verbatim>\<open>row * cols\<close> and \<^verbatim>\<open>c + block_size\<close> in an \<^verbatim>\<open>int\<close>, the host the size of the matrix in 64 bits: a
  matrix with an index of \<^verbatim>\<open>2^31\<close> or more is allocated, and the kernel then runs out of its buffers (if
  an overflowing \<^verbatim>\<open>int\<close> counts as that).
\<close>

lemma softmax_run_overflows:
  assumes "threads_accepted threads" and "launchable rows (sint threads)"
    and "\<not> indices_fit (unat rows) (unat cols) (unat threads)"
    and "unat (scast rows * scast cols :: u64) \<le> host_floats"
  shows "case softmax_run ex late normal host_floats rows cols iters threads (fresh_device t k) of
      (r, d) \<Rightarrow> r = Inl (Exit 1) \<and> fault d = 700"
proof -
  have not: "\<not> \<not> threads_accepted threads" "\<not> host_floats < unat (scast rows * scast cols :: u64)"
    using assms(1,4) by simp_all
  show ?thesis
    unfolding softmax_run_def if_not_P [OF not(1)] Let_def if_not_P [OF not(2)]
    by (simp add: bind_run seq_run checked_def cudaMalloc_def cudaMemcpy_def fresh_device_def assms(2)
        failed_iterate failed_softmax_step [OF assms(3)] calm_def checked_last_error_def)
qed

section \<open>What the launches leave\<close>




end
