(* ===== verification/Flash_Attention.thy ===== *)
theory Flash_Attention
  imports Softmax
begin

text \<open>
  \<^verbatim>\<open>practical_kernel/flash_attention_simple_stand.cu\<close>: attention with the softmax taken online, one
  warp of 32 threads (lanes) for each query row. The lanes move in lock step where they exchange
  values (\<^verbatim>\<open>__shfl_down_sync\<close>), so a step of the loop over the keys is one step of all lanes. \<open>ex\<close> is
  \<^verbatim>\<open>__expf\<close> and \<open>rsqrt\<close> is \<^verbatim>\<open>rsqrtf\<close>; as in Softmax the theorems are about the reals. The matrices are
  flat lists in the layout \<^verbatim>\<open>[B, H, S, D]\<close>.
\<close>

abbreviation WARP_SIZE :: nat where "WARP_SIZE \<equiv> 32"
abbreviation MAX_D :: nat where "MAX_D \<equiv> 128"
abbreviation MAX_D_PER_LANE :: nat where "MAX_D_PER_LANE \<equiv> 4"

section \<open>A warp\<close>

text \<open>\<^verbatim>\<open>__shfl_down_sync\<close>: a lane without a lane \<open>offset\<close> above it keeps its own value.\<close>

definition shfl_down :: "'a list \<Rightarrow> nat \<Rightarrow> 'a list" where
  "shfl_down xs offset = map (\<lambda>lane. if lane + offset < length xs then xs ! (lane + offset) else xs ! lane) [0..<length xs]"

fun shuffle_adds :: "nat \<Rightarrow> 'a::plus list \<Rightarrow> 'a list" where
  "shuffle_adds offset xs =
     (if 0 < offset then shuffle_adds (offset div 2) (map2 (+) xs (shfl_down xs offset)) else xs)"

declare shuffle_adds.simps [simp del]

definition warp_reduce_sum :: "'a::plus list \<Rightarrow> 'a list" where
  "warp_reduce_sum xs =
     (let xs = shuffle_adds (WARP_SIZE div 2) xs in map (\<lambda>lane. xs ! 0) [0..<length xs])"

text \<open>What a lane keeps: its share of the output row, the largest score so far and the denominator.\<close>

record 'a lane =
  lane_acc :: "'a list"
  lane_m :: 'a
  lane_l :: 'a

definition FLT_MAX :: "'a::linordered_field" where
  "FLT_MAX = 340282346638528859811704183484516925440"

definition init_lane :: "'a::linordered_field lane" where
  "init_lane = \<lparr>lane_acc = replicate MAX_D_PER_LANE 0, lane_m = - FLT_MAX, lane_l = 0\<rparr>"

definition dot_part :: "nat \<Rightarrow> (nat \<Rightarrow> 'a::linordered_field) \<Rightarrow> (nat \<Rightarrow> 'a) \<Rightarrow> nat \<Rightarrow> 'a" where
  "dot_part D q k lane =
     fold (\<lambda>t s. let d = lane + t * WARP_SIZE in if d < D then s + q d * k d else s) [0..<MAX_D_PER_LANE] 0"

definition online_update ::
  "('a::linordered_field \<Rightarrow> 'a) \<Rightarrow> nat \<Rightarrow> (nat \<Rightarrow> 'a) \<Rightarrow> nat \<Rightarrow> 'a \<Rightarrow> 'a lane \<Rightarrow> 'a lane" where
  "online_update ex D v lane score st =
     (let m_new = max (lane_m st) score;
          old_scale = ex (lane_m st - m_new);
          p = ex (score - m_new)
      in \<lparr>lane_acc = map (\<lambda>t. let d = lane + t * WARP_SIZE
            in if d < D then lane_acc st ! t * old_scale + p * v d else lane_acc st ! t) [0..<MAX_D_PER_LANE],
          lane_m = m_new,
          lane_l = lane_l st * old_scale + p\<rparr>)"

text \<open>The body of the loop over the keys: \<open>q\<close>, \<open>k\<close> and \<open>v\<close> are the rows, by their column.\<close>

definition key_step ::
  "('a::linordered_field \<Rightarrow> 'a) \<Rightarrow> ('a \<Rightarrow> 'a) \<Rightarrow> nat \<Rightarrow> (nat \<Rightarrow> 'a) \<Rightarrow> (nat \<Rightarrow> 'a) \<Rightarrow> (nat \<Rightarrow> 'a) \<Rightarrow> 'a lane list \<Rightarrow> 'a lane list" where
  "key_step ex rsqrt D q k v lanes =
     (let dot = warp_reduce_sum (map (dot_part D q k) [0..<length lanes])
      in map (\<lambda>lane. online_update ex D v lane (dot ! lane * rsqrt (of_nat D)) (lanes ! lane)) [0..<length lanes])"

text \<open>\<^verbatim>\<open>O[...] = acc[t] / l\<close> for all lanes; \<open>start\<close> is where the output row starts.\<close>

definition write_lane :: "nat \<Rightarrow> nat \<Rightarrow> 'a lane list \<Rightarrow> nat \<Rightarrow> 'a::linordered_field list \<Rightarrow> 'a list" where
  "write_lane D start lanes lane out =
     fold (\<lambda>t out. let d = lane + t * WARP_SIZE
        in if d < D then out[start + d := lane_acc (lanes ! lane) ! t / lane_l (lanes ! lane)] else out)
       [0..<MAX_D_PER_LANE] out"

definition write_row :: "nat \<Rightarrow> nat \<Rightarrow> 'a lane list \<Rightarrow> 'a::linordered_field list \<Rightarrow> 'a list" where
  "write_row D start lanes out = fold (write_lane D start lanes) [0..<WARP_SIZE] out"

section \<open>The kernel and its launch\<close>

text \<open>A row of a matrix of the head that starts at \<open>base\<close>\<close>

definition row_at :: "'a list \<Rightarrow> nat \<Rightarrow> nat \<Rightarrow> nat \<Rightarrow> nat \<Rightarrow> 'a" where
  "row_at M base D row d = M ! (base + row * D + d)"

definition head_base :: "nat \<Rightarrow> nat \<Rightarrow> nat \<Rightarrow> nat \<Rightarrow> nat \<Rightarrow> nat" where
  "head_base H S D b h = ((b * H + h) * S) * D"

definition flash_attention_simple_kernel ::
  "('a::linordered_field \<Rightarrow> 'a) \<Rightarrow> ('a \<Rightarrow> 'a) \<Rightarrow> 'a list \<Rightarrow> 'a list \<Rightarrow> 'a list \<Rightarrow>
     nat \<Rightarrow> nat \<Rightarrow> nat \<Rightarrow> bool \<Rightarrow> nat \<times> nat \<times> nat \<Rightarrow> 'a list \<Rightarrow> 'a list" where
  "flash_attention_simple_kernel ex rsqrt Q K V H S D causal blk out =
     (case blk of (b, h, q_row) \<Rightarrow>
        let bh_base = head_base H S D b h;
            kv_end = (if causal then q_row + 1 else S);
            lanes = fold (\<lambda>k_row. key_step ex rsqrt D (row_at Q bh_base D q_row) (row_at K bh_base D k_row)
                (row_at V bh_base D k_row)) [0..<kv_end] (replicate WARP_SIZE init_lane)
        in write_row D (bh_base + q_row * D) lanes out)"

text \<open>
  The blocks of a launch, which write different cells. A grid with more than 65535 blocks in its
  second or third dimension is refused, and \<^verbatim>\<open>solve\<close> does not look: the output stays as it was.
\<close>

definition grid_blocks :: "nat \<Rightarrow> nat \<Rightarrow> nat \<Rightarrow> (nat \<times> nat \<times> nat) list" where
  "grid_blocks x y z = concat (map (\<lambda>b. concat (map (\<lambda>h. map (\<lambda>i. (b, h, i)) [0..<x]) [0..<y])) [0..<z])"

definition grid_accepted :: "nat \<Rightarrow> nat \<Rightarrow> bool" where
  "grid_accepted y z \<longleftrightarrow> y \<le> 65535 \<and> z \<le> 65535"

text \<open>\<open>None\<close>: an index expression overflows an \<^verbatim>\<open>int\<close>, which is undefined.\<close>

definition simple_solve ::
  "('a::linordered_field \<Rightarrow> 'a) \<Rightarrow> ('a \<Rightarrow> 'a) \<Rightarrow> 'a list \<Rightarrow> 'a list \<Rightarrow> 'a list \<Rightarrow> 'a list \<Rightarrow>
     int \<Rightarrow> int \<Rightarrow> int \<Rightarrow> int \<Rightarrow> int \<Rightarrow> 'a list option" where
  "simple_solve ex rsqrt Q K V out B H S D causal =
     (if B \<le> 0 \<or> H \<le> 0 \<or> S \<le> 0 \<or> D \<le> 0 \<or> D > int MAX_D then Some out
      else if \<not> grid_accepted (nat H) (nat B) then Some out
      else if B * H * S * D > 2 ^ 31 then None
      else Some (fold (flash_attention_simple_kernel ex rsqrt Q K V (nat H) (nat S) (nat D) (causal \<noteq> 0))
             (grid_blocks (nat S) (nat H) (nat B)) out))"

section \<open>Sums over a warp\<close>

lemma length_shfl_down [simp]: "length (shfl_down xs offset) = length xs"
  by (simp add: shfl_down_def)

lemma shuffle_add_total:
  fixes xs :: "'a::comm_monoid_add list"
  assumes "2 * offset \<le> length xs"
  shows "sum_list (take offset (map2 (+) xs (shfl_down xs offset))) = sum_list (take (2 * offset) xs)"
  unfolding sums_total [symmetric] by (rule sums.halving_total) (use assms in \<open>simp_all add: shfl_down_def\<close>)

lemma shuffle_adds_total:
  fixes xs :: "'a::comm_monoid_add list"
  shows "2 * 2 ^ k \<le> length xs \<Longrightarrow> shuffle_adds (2 ^ k) xs ! 0 = sum_list (take (2 * 2 ^ k) xs)"
proof (induction k arbitrary: xs)
  case 0
  have "shuffle_adds (2 ^ 0) xs = map2 (+) xs (shfl_down xs 1)"
    by (simp add: shuffle_adds.simps [of "Suc 0"] shuffle_adds.simps [of 0])
  moreover have "sum_list (take 1 ys) = ys ! 0" if "length ys = length xs" for ys :: "'a list"
    using 0 that by (cases ys) auto
  then have "sum_list (take 1 (map2 (+) xs (shfl_down xs 1))) = map2 (+) xs (shfl_down xs 1) ! 0"
    by simp
  ultimately show ?case using shuffle_add_total [of 1 xs] 0 by simp
next
  case (Suc k)
  have "shuffle_adds (2 ^ Suc k) xs = shuffle_adds (2 ^ k) (map2 (+) xs (shfl_down xs (2 ^ Suc k)))"
    by (subst shuffle_adds.simps) simp
  also have "\<dots> ! 0 = sum_list (take (2 * 2 ^ k) (map2 (+) xs (shfl_down xs (2 ^ Suc k))))"
    by (rule Suc.IH) (use Suc.prems in simp)
  also have "\<dots> = sum_list (take (2 * 2 ^ Suc k) xs)"
    using shuffle_add_total [of "2 ^ Suc k" xs] Suc.prems by simp
  finally show ?case .
qed

lemma length_shuffle_adds [simp]: "length (shuffle_adds offset xs) = length xs"
  by (induction offset xs rule: shuffle_adds.induct) (subst shuffle_adds.simps, simp)

text \<open>After the shuffles every lane of a warp holds the sum of the values of all 32 lanes.\<close>

lemma warp_reduce_sums:
  "length xs = WARP_SIZE \<Longrightarrow> warp_reduce_sum xs = replicate WARP_SIZE (sum_list xs :: 'a::comm_monoid_add)"
  using shuffle_adds_total [of 4 xs] by (simp add: warp_reduce_sum_def Let_def map_replicate_const)

lemma lanes_sum:
  fixes g :: "nat \<Rightarrow> 'a::comm_monoid_add"
  shows "(\<Sum>lane<32. \<Sum>t<4. g (lane + t * 32)) = (\<Sum>d<128. g d)"
proof -
  have "(\<Sum>lane<32. \<Sum>t<4. g (lane + t * 32)) = (\<Sum>t<4. \<Sum>lane<32. g (lane + t * 32))"
    by (rule sum.swap)
  also have "\<dots> = (\<Sum>t<4. sum g {t * 32..<t * 32 + 32})"
  proof (rule sum.cong [OF refl])
    fix t :: nat
    show "(\<Sum>lane<32. g (lane + t * 32)) = sum g {t * 32..<t * 32 + 32}"
      using sum.shift_bounds_nat_ivl [of g 0 "t * 32" 32] by (simp add: add.commute atLeast0LessThan)
  qed
  also have "\<dots> = (\<Sum>d<4 * 32. g d)" by (rule sum.nat_group)
  finally show ?thesis by simp
qed

lemma dot_part_sum:
  "dot_part D q k lane = (\<Sum>t<4. if lane + t * 32 < D then q (lane + t * 32) * k (lane + t * 32) else 0)"
  by (simp add: dot_part_def Let_def numeral_nat)

lemma dot_lanes:
  assumes "D \<le> MAX_D"
  shows "sum_list (map (dot_part D q k) [0..<32]) = (\<Sum>d<D. q d * k d)"
proof -
  have "sum_list (map (dot_part D q k) [0..<32])
      = (\<Sum>lane<32. \<Sum>t<4. if lane + t * 32 < D then q (lane + t * 32) * k (lane + t * 32) else 0)"
    by (simp add: sum_list_sum_nth atLeast0LessThan dot_part_sum)
  also have "\<dots> = (\<Sum>d<128. if d < D then q d * k d else 0)" by (rule lanes_sum)
  also have "\<dots> = (\<Sum>d<D. q d * k d)"
    using assms by (intro sum.mono_neutral_cong_right) auto
  finally show ?thesis .
qed

section \<open>The online softmax\<close>

definition score :: "('a \<Rightarrow> 'a) \<Rightarrow> nat \<Rightarrow> (nat \<Rightarrow> 'a::linordered_field) \<Rightarrow> (nat \<Rightarrow> 'a) \<Rightarrow> 'a" where
  "score rsqrt D q k = (\<Sum>d<D. q d * k d) * rsqrt (of_nat D)"

text \<open>
  The lanes after the keys \<open>js\<close>, when the largest score so far is \<open>M\<close>: sums of exponentials relative
  to \<open>M\<close>, with the values as weights in the output row.
\<close>

definition online_lanes ::
  "nat \<Rightarrow> ('j \<Rightarrow> real) \<Rightarrow> ('j \<Rightarrow> nat \<Rightarrow> real) \<Rightarrow> 'j list \<Rightarrow> real \<Rightarrow> real lane list" where
  "online_lanes D s v js M =
     map (\<lambda>lane. \<lparr>lane_acc = map (\<lambda>t. if lane + t * 32 < D then \<Sum>j\<leftarrow>js. exp (s j - M) * v j (lane + t * 32) else 0) [0..<4],
                 lane_m = M,
                 lane_l = (\<Sum>j\<leftarrow>js. exp (s j - M))\<rparr>) [0..<32]"

lemma online_lanes_init: "replicate WARP_SIZE init_lane = online_lanes D s v [] (- FLT_MAX)"
  by (simp add: online_lanes_def init_lane_def map_replicate_const cong: if_cong)

lemma rescale:
  fixes M M' :: real
  shows "(\<Sum>j\<leftarrow>js. exp (s j - M) * w j) * exp (M - M') = (\<Sum>j\<leftarrow>js. exp (s j - M') * w j)"
proof (induction js)
  case (Cons j js)
  have "exp (s j - M) * w j * exp (M - M') = exp (s j - M') * w j"
    by (simp flip: exp_add)
  then show ?case using Cons by (simp add: distrib_right)
qed simp

lemma online_update_step:
  "online_update exp D w lane c
      \<lparr>lane_acc = map (\<lambda>t. if lane + t * 32 < D then A t else 0) [0..<4], lane_m = M, lane_l = L\<rparr>
    = \<lparr>lane_acc = map (\<lambda>t. if lane + t * 32 < D
          then A t * exp (M - max M c) + exp (c - max M c) * w (lane + t * 32) else 0) [0..<4],
        lane_m = max M c, lane_l = L * exp (M - max M c) + exp (c - max M c)\<rparr>"
  by (simp add: online_update_def Let_def)

lemma key_step_online:
  assumes "D \<le> MAX_D"
  shows "key_step exp rsqrt D q (k j) (v j) (online_lanes D (\<lambda>j. score rsqrt D q (k j)) v js M)
    = online_lanes D (\<lambda>j. score rsqrt D q (k j)) v (js @ [j]) (max M (score rsqrt D q (k j)))"
proof -
  let ?s = "\<lambda>j. score rsqrt D q (k j)"
  have "warp_reduce_sum (map (dot_part D q (k j)) [0..<32]) = replicate 32 (\<Sum>d<D. q d * k j d)"
    by (subst warp_reduce_sums) (simp_all only: dot_lanes [OF assms] length_map length_upt minus_nat.diff_0)
  then have "key_step exp rsqrt D q (k j) (v j) (online_lanes D ?s v js M)
      = map (\<lambda>lane. online_update exp D (v j) lane (?s j) (online_lanes D ?s v js M ! lane)) [0..<32]"
    by (simp add: key_step_def online_lanes_def score_def)
  also have "\<dots> = online_lanes D ?s v (js @ [j]) (max M (?s j))"
    by (simp add: online_lanes_def online_update_step rescale rescale [where w = "\<lambda>_. 1", simplified])
  finally show ?thesis .
qed

lemma keys_online:
  assumes "D \<le> MAX_D"
  shows "\<exists>M. fold (\<lambda>j. key_step exp rsqrt D q (k j) (v j)) js (replicate WARP_SIZE init_lane)
    = online_lanes D (\<lambda>j. score rsqrt D q (k j)) v js M"
proof (induction js rule: rev_induct)
  case Nil
  then show ?case using online_lanes_init by auto
next
  case (snoc j js)
  then show ?case using key_step_online [OF assms] by force
qed

section \<open>The output\<close>

lemma fold_filter_map: "fold (\<lambda>t out. if P (f t) then g (f t) out else out) ts out = fold g (filter P (map f ts)) out"
  by (induction ts arbitrary: out) simp_all

text \<open>The columns that a lane writes, and those of all lanes of the warp.\<close>

definition lane_columns :: "nat \<Rightarrow> nat \<Rightarrow> nat list" where
  "lane_columns D lane = filter (\<lambda>d. d < D) (map (\<lambda>t. lane + t * 32) [0..<4])"

lemma set_lane_columns: "lane < 32 \<Longrightarrow> set (lane_columns D lane) = {d. d < D \<and> d < 128 \<and> d mod 32 = lane}"
proof -
  assume lane: "lane < 32"
  have "d \<in> set (map (\<lambda>t. lane + t * 32) [0..<4]) \<longleftrightarrow> d < 128 \<and> d mod 32 = lane" for d
  proof
    assume d: "d < 128 \<and> d mod 32 = lane"
    then have "d = lane + (d div 32) * 32" by (metis add.commute div_mult_mod_eq)
    moreover have "d div 32 < 4" using d by (simp add: less_mult_imp_div_less)
    ultimately show "d \<in> set (map (\<lambda>t. lane + t * 32) [0..<4])" by auto
  qed (use lane in auto)
  then show ?thesis by (auto simp: lane_columns_def)
qed

lemma write_lane_columns:
  assumes "lane < 32"
  shows "write_lane D start lanes lane out = fold (\<lambda>d out. out[start + d :=
    lane_acc (lanes ! (d mod 32)) ! (d div 32) / lane_l (lanes ! (d mod 32))]) (lane_columns D lane) out"
proof -
  have "write_lane D start lanes lane out = fold (\<lambda>t out. if lane + t * 32 < D then out[start + (lane + t * 32) :=
      lane_acc (lanes ! ((lane + t * 32) mod 32)) ! ((lane + t * 32) div 32)
        / lane_l (lanes ! ((lane + t * 32) mod 32))] else out) [0..<4] out"
    using assms by (simp add: write_lane_def Let_def cong: if_cong)
  then show ?thesis
    by (simp only: lane_columns_def fold_filter_map [where f = "\<lambda>t. lane + t * 32" and P = "\<lambda>d. d < D"
        and g = "\<lambda>d out. out[start + d := lane_acc (lanes ! (d mod 32)) ! (d div 32) / lane_l (lanes ! (d mod 32))]"])
qed

lemma write_row_columns:
  "write_row D start lanes out = fold (\<lambda>d out. out[start + d :=
    lane_acc (lanes ! (d mod 32)) ! (d div 32) / lane_l (lanes ! (d mod 32))]) (concat (map (lane_columns D) [0..<32])) out"
proof -
  have "fold (write_lane D start lanes) [0..<n] out = fold (\<lambda>d out. out[start + d :=
      lane_acc (lanes ! (d mod 32)) ! (d div 32) / lane_l (lanes ! (d mod 32))]) (concat (map (lane_columns D) [0..<n])) out"
    if "n \<le> 32" for n
    using that by (induction n) (simp_all add: write_lane_columns)
  then show ?thesis by (simp add: write_row_def)
qed

lemma length_write_row [simp]: "length (write_row D start lanes out) = length out"
  by (simp add: write_row_columns)

lemma write_row_nth:
  assumes "D \<le> MAX_D" and "i < length out"
  shows "write_row D start lanes out ! i = (if start \<le> i \<and> i < start + D
    then lane_acc (lanes ! ((i - start) mod 32)) ! ((i - start) div 32) / lane_l (lanes ! ((i - start) mod 32))
    else out ! i)"
proof -
  have "set (concat (map (lane_columns D) [0..<32])) = {..<D}"
    using assms(1) by (auto simp: set_lane_columns)
  then show ?thesis
    using assms(2) by (auto simp: write_row_columns fold_write_nth)
qed

text \<open>What attention is: the values weighted with the softmax of the scores.\<close>

definition attend :: "real list \<Rightarrow> real list \<Rightarrow> real" where
  "attend scores vals = sum_list (map2 (*) (softmax exp scores) vals)"

lemma sum_list_divide: "(\<Sum>j\<leftarrow>js. f j / z) = (\<Sum>j\<leftarrow>js. f j) / (z :: real)"
  by (induction js) (simp_all add: add_divide_distrib)

lemma attend_relative:
  "attend (map s js) (map v js) = (\<Sum>j\<leftarrow>js. exp (s j - M) * v j) / (\<Sum>j\<leftarrow>js. exp (s j - M))"
proof -
  let ?Z = "\<Sum>j\<leftarrow>js. exp (s j)"
  have "attend (map s js) (map v js) = (\<Sum>j\<leftarrow>js. exp (s j) / ?Z * v j)"
    by (simp add: attend_def softmax_def map_map comp_def zip_map_map map_idI zip_same_conv_map)
  also have "\<dots> = (\<Sum>j\<leftarrow>js. exp (s j) * v j) / ?Z"
    by (simp add: sum_list_divide)
  also have "\<dots> = ((\<Sum>j\<leftarrow>js. exp (s j - M) * v j) * exp M) / ((\<Sum>j\<leftarrow>js. exp (s j - M)) * exp M)"
    using rescale [of s M v js 0] rescale [of s M "\<lambda>_. 1" js 0] by simp
  finally show ?thesis by simp
qed

definition attention ::
  "(real \<Rightarrow> real) \<Rightarrow> real list \<Rightarrow> real list \<Rightarrow> real list \<Rightarrow> nat \<Rightarrow> nat \<Rightarrow> nat \<Rightarrow> bool \<Rightarrow> nat \<times> nat \<times> nat \<Rightarrow> nat \<Rightarrow> real" where
  "attention rsqrt Q K V H S D causal blk d =
     (case blk of (b, h, q) \<Rightarrow>
        let base = head_base H S D b h;
            keys = [0..<if causal then q + 1 else S]
        in attend (map (\<lambda>k. score rsqrt D (row_at Q base D q) (row_at K base D k)) keys)
                  (map (\<lambda>k. row_at V base D k d) keys))"

lemma simple_kernel_nth:
  assumes "D \<le> MAX_D" and "i < length out" and "start = head_base H S D b h + q * D"
  shows "flash_attention_simple_kernel exp rsqrt Q K V H S D causal (b, h, q) out ! i =
    (if start \<le> i \<and> i < start + D then attention rsqrt Q K V H S D causal (b, h, q) (i - start) else out ! i)"
proof -
  let ?base = "head_base H S D b h" and ?keys = "[0..<if causal then q + 1 else S]"
  let ?s = "\<lambda>k. score rsqrt D (row_at Q ?base D q) (row_at K ?base D k)"
  obtain M where M: "fold (\<lambda>k. key_step exp rsqrt D (row_at Q ?base D q) (row_at K ?base D k) (row_at V ?base D k))
      ?keys (replicate WARP_SIZE init_lane) = online_lanes D ?s (row_at V ?base D) ?keys M"
    using keys_online [OF assms(1)] by blast
  have column: "(i - start) mod 32 + (i - start) div 32 * 32 = i - start" by simp
  have "flash_attention_simple_kernel exp rsqrt Q K V H S D causal (b, h, q) out
      = write_row D start (online_lanes D ?s (row_at V ?base D) ?keys M) out"
    by (simp only: flash_attention_simple_kernel_def Let_def prod.case M assms(3))
  moreover have "(i - start) div 32 < 4" if "i < start + D"
    using that assms(1) by (simp add: less_mult_imp_div_less)
  ultimately show ?thesis
    using assms(1,2) attend_relative [of ?s ?keys "\<lambda>k. row_at V ?base D k (i - start)" M] column
    by (auto simp: write_row_nth online_lanes_def attention_def Let_def)
qed

section \<open>The grid\<close>

lemma grid_blocks_upt:
  "grid_blocks x y z = map (\<lambda>r. (r div (y * x), r mod (y * x) div x, r mod (y * x) mod x)) [0..<z * (y * x)]"
proof -
  have "concat (map (\<lambda>h. map (\<lambda>i. (b, h, i)) [0..<x]) [0..<y]) = map (\<lambda>r. (b, r div x, r mod x)) [0..<y * x]" for b :: nat
    by (rule concat_upt)
  then show ?thesis by (simp add: grid_blocks_def concat_upt [of "\<lambda>b r. (b, r div x, r mod x)"])
qed

lemma length_simple_kernel [simp]:
  "length (flash_attention_simple_kernel ex rsqrt Q K V H S D causal blk out) = length out"
  by (simp add: flash_attention_simple_kernel_def Let_def split: prod.split)

lemma row_index:
  fixes b h q :: nat
  assumes "h < H" and "q < S"
  shows "((b * H + h) * S + q) div (H * S) = b" and "((b * H + h) * S + q) mod (H * S) div S = h"
    and "((b * H + h) * S + q) mod (H * S) mod S = q"
proof -
  have "h * S + q < H * S" using assms by (rule index_bound)
  moreover have "(b * H + h) * S + q = b * (H * S) + (h * S + q)" by (simp add: algebra_simps)
  ultimately have "((b * H + h) * S + q) div (H * S) = b" and m: "((b * H + h) * S + q) mod (H * S) = h * S + q"
    by (simp_all only: div_mult_self3 mod_mult_self3 div_less mod_less)
  then show "((b * H + h) * S + q) div (H * S) = b" by simp
  show "((b * H + h) * S + q) mod (H * S) div S = h" "((b * H + h) * S + q) mod (H * S) mod S = q"
    unfolding m using assms(2) by simp_all
qed

lemma row_start: "head_base H S D (r div (H * S)) (r mod (H * S) div S) + r mod (H * S) mod S * D = r * D"
proof -
  have "r = r div (H * S) * (H * S) + r mod (H * S)" by (simp only: div_mult_mod_eq)
  moreover have "r mod (H * S) = r mod (H * S) div S * S + r mod (H * S) mod S" by (simp only: div_mult_mod_eq)
  ultimately have "r = (r div (H * S) * H + r mod (H * S) div S) * S + r mod (H * S) mod S"
    by (metis add.assoc distrib_right mult.assoc)
  then show ?thesis unfolding head_base_def by (metis distrib_right)
qed

lemma grid_attention:
  assumes "0 < D" and "D \<le> MAX_D" and "i < length out" and "i < B * H * S * D"
  shows "fold (flash_attention_simple_kernel exp rsqrt Q K V H S D causal) (grid_blocks S H B) out ! i =
    attention rsqrt Q K V H S D causal
      (i div D div (H * S), i div D mod (H * S) div S, i div D mod (H * S) mod S) (i mod D)"
proof -
  let ?blk = "\<lambda>r. (r div (H * S), r mod (H * S) div S, r mod (H * S) mod S)"
  let ?step = "\<lambda>r. flash_attention_simple_kernel exp rsqrt Q K V H S D causal (?blk r)"
  have "fold (flash_attention_simple_kernel exp rsqrt Q K V H S D causal) (grid_blocks S H B) out
      = fold ?step [0..<B * (H * S)] out"
    by (simp add: grid_blocks_upt fold_map comp_def)
  also have "\<dots> ! i = (if i < B * (H * S) * D
      then attention rsqrt Q K V H S D causal (?blk (i div D)) (i - i div D * D) else out ! i)"
    by (rule fold_rows) (use assms in \<open>simp_all add: simple_kernel_nth [OF assms(2) _ row_start [symmetric]]\<close>)
  finally show ?thesis using assms(4) by (simp add: minus_div_mult_eq_mod mult.assoc)
qed

text \<open>The output in the layout \<^verbatim>\<open>[B, H, S, D]\<close> that attention asks for\<close>

definition attention_output ::
  "(real \<Rightarrow> real) \<Rightarrow> real list \<Rightarrow> real list \<Rightarrow> real list \<Rightarrow> nat \<Rightarrow> nat \<Rightarrow> nat \<Rightarrow> nat \<Rightarrow> bool \<Rightarrow> real list \<Rightarrow> bool" where
  "attention_output rsqrt Q K V B H S D causal res \<longleftrightarrow>
     length res = B * H * S * D
     \<and> (\<forall>b < B. \<forall>h < H. \<forall>q < S. \<forall>d < D.
          res ! (((b * H + h) * S + q) * D + d) = attention rsqrt Q K V H S D causal (b, h, q) d)"

text \<open>
  C5. For every query row of every head \<^verbatim>\<open>solve\<close> leaves the attention output: the values weighted with
  the softmax of the scaled scores, over all keys or, if causal, those up to the row itself. The
  online softmax never holds a row of scores, and how \<^verbatim>\<open>rsqrtf\<close> rounds does not matter.
\<close>

theorem simple_solve_attention:
  assumes "0 < D" and "D \<le> MAX_D" and "B \<le> 65535" and "H \<le> 65535" and "B * H * S * D \<le> 2 ^ 31"
    and "length out = B * H * S * D"
  shows "\<exists>res. simple_solve exp rsqrt Q K V out (int B) (int H) (int S) (int D) causal = Some res
    \<and> attention_output rsqrt Q K V B H S D (causal \<noteq> 0) res"
proof (cases "B = 0 \<or> H = 0 \<or> S = 0")
  case True
  then show ?thesis using assms(6) by (auto simp: simple_solve_def attention_output_def)
next
  case False
  let ?res = "fold (flash_attention_simple_kernel exp rsqrt Q K V H S D (causal \<noteq> 0)) (grid_blocks S H B) out"
  have "int B * int H * int S * int D \<le> 2 ^ 31"
    using assms(5) by (simp flip: of_nat_mult)
  then have run: "simple_solve exp rsqrt Q K V out (int B) (int H) (int S) (int D) causal = Some ?res"
    using assms False by (simp add: simple_solve_def grid_accepted_def)
  have "length (fold (flash_attention_simple_kernel exp rsqrt Q K V H S D (causal \<noteq> 0)) blks out') = length out'"
    for blks and out' :: "real list"
    by (induction blks arbitrary: out') simp_all
  then have len: "length ?res = length out" .
  have "?res ! (((b * H + h) * S + q) * D + d) = attention rsqrt Q K V H S D (causal \<noteq> 0) (b, h, q) d"
    if "b < B" "h < H" "q < S" "d < D" for b h q d
  proof -
    have "((b * H + h) * S + q) * D + d < B * H * S * D"
      using that by (intro index_bound)
    then show ?thesis
      using grid_attention [OF assms(1,2)] assms(6) that row_index [OF that(2,3), of b] by simp
  qed
  then show ?thesis using run len assms(6) by (simp add: attention_output_def)
qed

theorem simple_solve_attention_witness:
  "\<exists>res. simple_solve exp (\<lambda>x. 1 / sqrt x) [1, 2] [3, 4] [5, 6] [0, 0] (int 1) (int 1) (int 2) (int 1) 1 = Some res
    \<and> attention_output (\<lambda>x. 1 / sqrt x) [1, 2] [3, 4] [5, 6] 1 1 2 1 (1 \<noteq> (0 :: int)) res"
  by (rule simple_solve_attention) simp_all

end
