(* ===== verification/Tiled_Attention.thy ===== *)
theory Tiled_Attention
  imports Flash_Attention
begin

text \<open>
  \<^verbatim>\<open>practical_kernel/tiled_flash_attention_stand_hpc.cu\<close>: attention for eight query rows per block, one
  per warp, with the keys and values loaded into shared memory 32 rows at a time. What a warp does
  with a key is the code of Flash_Attention; the tiles, the loops over them and the masking are new.
  The main property is that the two files compute the same. Between two barriers the threads of a
  block write different cells of the tiles and the warps only read them, so they run one after the
  other here. Shared memory starts with any content.
\<close>

abbreviation BLOCK_M :: nat where "BLOCK_M \<equiv> 8"
abbreviation BLOCK_N :: nat where "BLOCK_N \<equiv> 32"
abbreviation BLOCK_THREADS :: nat where "BLOCK_THREADS \<equiv> 256"

type_synonym 'a tile = "nat \<Rightarrow> nat \<Rightarrow> 'a"

section \<open>Loading the tiles\<close>

definition set_cell :: "nat \<Rightarrow> nat \<Rightarrow> 'a \<Rightarrow> 'a tile \<Rightarrow> 'a tile" where
  "set_cell r d x tile = tile(r := (tile r)(d := x))"

definition load_q :: "'a::zero list \<Rightarrow> nat \<Rightarrow> nat \<Rightarrow> nat \<Rightarrow> nat \<Rightarrow> 'a tile \<Rightarrow> 'a tile" where
  "load_q Q bh_base S D q_block =
     fold (\<lambda>tid. fold (\<lambda>idx sQ.
         let r = idx div D; d = idx - r * D; global_q = q_block + r
         in set_cell r d (if global_q < S then Q ! (bh_base + global_q * D + d) else 0) sQ)
       (strided tid BLOCK_THREADS (BLOCK_M * D))) [0..<BLOCK_THREADS]"

definition load_kv ::
  "'a::zero list \<Rightarrow> 'a list \<Rightarrow> nat \<Rightarrow> nat \<Rightarrow> nat \<Rightarrow> nat \<Rightarrow> 'a tile \<times> 'a tile \<Rightarrow> 'a tile \<times> 'a tile" where
  "load_kv K V bh_base S D kv_block =
     fold (\<lambda>tid. fold (\<lambda>idx (sK, sV).
         let r = idx div D; d = idx - r * D; k_row = kv_block + r
         in if k_row < S
            then (let g = bh_base + k_row * D + d in (set_cell r d (K ! g) sK, set_cell r d (V ! g) sV))
            else (set_cell r d 0 sK, set_cell r d 0 sV))
       (strided tid BLOCK_THREADS (BLOCK_N * D))) [0..<BLOCK_THREADS]"

section \<open>Scanning a tile\<close>

text \<open>\<^verbatim>\<open>for (int j = 0; j < BLOCK_N; ++j)\<close> in one warp, with the keys that it skips\<close>

definition scan_tile ::
  "('a::linordered_field \<Rightarrow> 'a) \<Rightarrow> ('a \<Rightarrow> 'a) \<Rightarrow> nat \<Rightarrow> nat \<Rightarrow> bool \<Rightarrow> nat \<Rightarrow> nat \<Rightarrow> bool \<Rightarrow> (nat \<Rightarrow> 'a) \<Rightarrow>
     'a tile \<Rightarrow> 'a tile \<Rightarrow> 'a lane list \<Rightarrow> 'a lane list" where
  "scan_tile ex rsqrt S D causal kv_block q_row valid_q q sK sV =
     fold (\<lambda>j lanes.
       let k_row = kv_block + j
       in if \<not> valid_q \<or> k_row \<ge> S \<or> (causal \<and> k_row > q_row) then lanes
          else key_step ex rsqrt D q (sK j) (sV j) lanes) [0..<BLOCK_N]"

text \<open>The loop over the tiles, for all warps of the block\<close>

definition tile_step ::
  "('a::linordered_field \<Rightarrow> 'a) \<Rightarrow> ('a \<Rightarrow> 'a) \<Rightarrow> 'a list \<Rightarrow> 'a list \<Rightarrow> nat \<Rightarrow> nat \<Rightarrow> nat \<Rightarrow> bool \<Rightarrow> nat \<Rightarrow> 'a tile \<Rightarrow>
     nat \<Rightarrow> 'a lane list list \<times> 'a tile \<times> 'a tile \<Rightarrow> 'a lane list list \<times> 'a tile \<times> 'a tile" where
  "tile_step ex rsqrt K V bh_base S D causal q_block sQ kv_block st =
     (case st of (warps, sK, sV) \<Rightarrow>
        let (sK, sV) = load_kv K V bh_base S D kv_block (sK, sV)
        in (map (\<lambda>warp. let q_row = q_block + warp; valid_q = (warp < BLOCK_M \<and> q_row < S)
              in scan_tile ex rsqrt S D causal kv_block q_row valid_q (sQ warp) sK sV (warps ! warp)) [0..<BLOCK_M],
            sK, sV))"

section \<open>The kernel and its launch\<close>

definition flash_attention_tiled_kernel ::
  "('a::linordered_field \<Rightarrow> 'a) \<Rightarrow> ('a \<Rightarrow> 'a) \<Rightarrow> 'a list \<Rightarrow> 'a list \<Rightarrow> 'a list \<Rightarrow> nat \<Rightarrow> nat \<Rightarrow> nat \<Rightarrow> bool \<Rightarrow>
     'a tile \<times> 'a tile \<times> 'a tile \<Rightarrow> nat \<times> nat \<times> nat \<Rightarrow> 'a list \<Rightarrow> 'a list" where
  "flash_attention_tiled_kernel ex rsqrt Q K V H S D causal shared blk out =
     (case shared of (sQ, sK, sV) \<Rightarrow> case blk of (b, h, x) \<Rightarrow>
        let q_block = x * BLOCK_M;
            bh_base = head_base H S D b h;
            sQ = load_q Q bh_base S D q_block sQ;
            causal_end = q_block + BLOCK_M;
            kv_end = (if causal then (if S < causal_end then S else causal_end) else S);
            warps = fst (fold (tile_step ex rsqrt K V bh_base S D causal q_block sQ) (strided 0 BLOCK_N kv_end)
              (replicate BLOCK_M (replicate WARP_SIZE init_lane), sK, sV))
        in fold (\<lambda>warp out. let q_row = q_block + warp
             in if warp < BLOCK_M \<and> q_row < S then write_row D (bh_base + q_row * D) (warps ! warp) out else out)
           [0..<BLOCK_M] out)"

text \<open>\<open>None\<close>: an index expression could overflow an \<^verbatim>\<open>int\<close>; the largest run to \<^verbatim>\<open>S + 31\<close>.\<close>

definition tiled_solve ::
  "('a::linordered_field \<Rightarrow> 'a) \<Rightarrow> ('a \<Rightarrow> 'a) \<Rightarrow> (nat \<times> nat \<times> nat \<Rightarrow> 'a tile \<times> 'a tile \<times> 'a tile) \<Rightarrow>
     'a list \<Rightarrow> 'a list \<Rightarrow> 'a list \<Rightarrow> 'a list \<Rightarrow> int \<Rightarrow> int \<Rightarrow> int \<Rightarrow> int \<Rightarrow> int \<Rightarrow> 'a list option" where
  "tiled_solve ex rsqrt shared Q K V out B H S D causal =
     (if B \<le> 0 \<or> H \<le> 0 \<or> S \<le> 0 \<or> D \<le> 0 \<or> D > int MAX_D then Some out
      else if \<not> grid_accepted (nat H) (nat B) then Some out
      else if B * H * S * D > 2 ^ 31 \<or> S + int BLOCK_N > 2 ^ 31 then None
      else Some (fold (\<lambda>blk. flash_attention_tiled_kernel ex rsqrt Q K V (nat H) (nat S) (nat D) (causal \<noteq> 0) (shared blk) blk)
             (grid_blocks ((nat S + BLOCK_M - 1) div BLOCK_M) (nat H) (nat B)) out))"

section \<open>What the tiles hold\<close>

lemma fold_set_cell:
  assumes "d < D"
  shows "fold (\<lambda>idx. set_cell (idx div D) (idx - idx div D * D) (e idx)) idxs tile r d
    = (if r * D + d \<in> set idxs then e (r * D + d) else tile r d)"
proof (induction idxs arbitrary: tile)
  case (Cons idx idxs)
  have "idx = r * D + d \<longleftrightarrow> idx div D = r \<and> idx - idx div D * D = d"
    using assms by (auto simp: minus_div_mult_eq_mod)
  then show ?case using Cons by (auto simp: set_cell_def)
qed simp

lemma load_q_row:
  assumes "r < BLOCK_M" and "d < D"
  shows "load_q Q base S D q_block sQ r d = (if q_block + r < S then row_at Q base D (q_block + r) d else 0)"
proof -
  have "load_q Q base S D q_block sQ = fold (\<lambda>idx. set_cell (idx div D) (idx - idx div D * D)
      (if q_block + idx div D < S then Q ! (base + (q_block + idx div D) * D + (idx - idx div D * D)) else 0))
      (visits 256 (8 * D)) sQ"
    by (simp only: load_q_def Let_def fold_threads)
  moreover have "r * D + d < 8 * D" using assms by (rule index_bound)
  ultimately show ?thesis
    using assms(2) by (simp add: fold_set_cell set_visits row_at_def)
qed

lemma fold_two_tiles:
  "fold (\<lambda>idx (sK, sV). let r = idx div D; d = idx - r * D; k_row = kv_block + r
       in if k_row < S
          then (let g = base + k_row * D + d in (set_cell r d (K ! g) sK, set_cell r d (V ! g) sV))
          else (set_cell r d 0 sK, set_cell r d 0 sV)) idxs (sK, sV)
    = (fold (\<lambda>idx. set_cell (idx div D) (idx - idx div D * D)
          (if kv_block + idx div D < S then K ! (base + (kv_block + idx div D) * D + (idx - idx div D * D)) else 0)) idxs sK,
       fold (\<lambda>idx. set_cell (idx div D) (idx - idx div D * D)
          (if kv_block + idx div D < S then V ! (base + (kv_block + idx div D) * D + (idx - idx div D * D)) else 0)) idxs sV)"
  by (induction idxs arbitrary: sK sV) (simp_all add: Let_def)

lemma load_kv_rows:
  assumes "r < BLOCK_N" and "d < D" and "kv_block + r < S"
  shows "fst (load_kv K V base S D kv_block (sK, sV)) r d = row_at K base D (kv_block + r) d"
    and "snd (load_kv K V base S D kv_block (sK, sV)) r d = row_at V base D (kv_block + r) d"
proof -
  have "r * D + d < 32 * D" using assms(1,2) by (rule index_bound)
  then show "fst (load_kv K V base S D kv_block (sK, sV)) r d = row_at K base D (kv_block + r) d"
    and "snd (load_kv K V base S D kv_block (sK, sV)) r d = row_at V base D (kv_block + r) d"
    unfolding load_kv_def fold_threads fold_two_tiles fst_conv snd_conv
    using assms(2,3) by (simp_all add: fold_set_cell set_visits row_at_def)
qed

section \<open>What a warp does with its tiles\<close>

lemma dot_part_cong:
  "(\<And>d. d < D \<Longrightarrow> q d = q' d) \<Longrightarrow> (\<And>d. d < D \<Longrightarrow> k d = k' d) \<Longrightarrow> dot_part D q k lane = dot_part D q' k' lane"
  unfolding dot_part_sum by (intro sum.cong refl) simp

lemma key_step_cong:
  assumes "\<And>d. d < D \<Longrightarrow> q d = q' d" and "\<And>d. d < D \<Longrightarrow> k d = k' d" and "\<And>d. d < D \<Longrightarrow> v d = v' d"
  shows "key_step ex rsqrt D q k v = key_step ex rsqrt D q' k' v'"
proof -
  have "dot_part D q k = dot_part D q' k'"
    using dot_part_cong [OF assms(1,2)] by (intro ext) simp
  moreover have "online_update ex D v = online_update ex D v'"
    using assms(3) by (intro ext) (simp add: online_update_def Let_def)
  ultimately show ?thesis by (intro ext) (simp add: key_step_def)
qed

text \<open>The keys that a warp uses, and one of them with its rows taken from the matrices.\<close>

definition used :: "nat \<Rightarrow> bool \<Rightarrow> nat \<Rightarrow> nat \<Rightarrow> bool" where
  "used S causal q_row k_row \<longleftrightarrow> k_row < S \<and> (causal \<longrightarrow> k_row \<le> q_row)"

abbreviation matrix_step where
  "matrix_step ex rsqrt Q K V base D q_row k_row \<equiv>
     key_step ex rsqrt D (row_at Q base D q_row) (row_at K base D k_row) (row_at V base D k_row)"

lemma scan_tile_rows:
  assumes "\<And>d. d < D \<Longrightarrow> q d = row_at Q base D q_row d"
    and "\<And>j d. j < 32 \<Longrightarrow> d < D \<Longrightarrow> kv_block + j < S \<Longrightarrow> sK j d = row_at K base D (kv_block + j) d"
    and "\<And>j d. j < 32 \<Longrightarrow> d < D \<Longrightarrow> kv_block + j < S \<Longrightarrow> sV j d = row_at V base D (kv_block + j) d"
  shows "scan_tile ex rsqrt S D causal kv_block q_row True q sK sV lanes
    = fold (matrix_step ex rsqrt Q K V base D q_row) (filter (used S causal q_row) [kv_block..<kv_block + 32]) lanes"
proof -
  have "scan_tile ex rsqrt S D causal kv_block q_row True q sK sV lanes
      = fold (\<lambda>j lanes. if used S causal q_row (kv_block + j)
          then matrix_step ex rsqrt Q K V base D q_row (kv_block + j) lanes else lanes) [0..<32] lanes"
    unfolding scan_tile_def
  proof (rule fold_cong [OF refl refl])
    fix j :: nat assume "j \<in> set [0..<32]"
    then have "key_step ex rsqrt D q (sK j) (sV j) = matrix_step ex rsqrt Q K V base D q_row (kv_block + j)" if "kv_block + j < S"
      using that assms by (intro key_step_cong) simp_all
    then show "(\<lambda>lanes. let k_row = kv_block + j
          in if \<not> True \<or> k_row \<ge> S \<or> (causal \<and> k_row > q_row) then lanes else key_step ex rsqrt D q (sK j) (sV j) lanes)
      = (\<lambda>lanes. if used S causal q_row (kv_block + j)
          then matrix_step ex rsqrt Q K V base D q_row (kv_block + j) lanes else lanes)"
      by (intro ext) (auto simp: used_def Let_def)
  qed
  also have "\<dots> = fold (\<lambda>k lanes. if used S causal q_row k then matrix_step ex rsqrt Q K V base D q_row k lanes else lanes)
      (map (\<lambda>j. kv_block + j) [0..<32]) lanes"
    by (simp only: fold_map comp_def)
  also have "map (\<lambda>j. kv_block + j) [0..<32] = [kv_block..<kv_block + 32]"
    by (intro nth_equalityI) simp_all
  finally show ?thesis by (simp only: fold_if_filter)
qed

lemma tiles_warp:
  assumes "warp < 8" and "q_block + warp < S" and "length warps = 8"
  shows "fst (fold (tile_step ex rsqrt K V base S D causal q_block (load_q Q base S D q_block sQ)) bs (warps, sK, sV)) ! warp
    = fold (matrix_step ex rsqrt Q K V base D (q_block + warp))
        (filter (used S causal (q_block + warp)) (concat (map (\<lambda>b. [b..<b + 32]) bs))) (warps ! warp)"
  using assms(3)
proof (induction bs arbitrary: warps sK sV)
  case (Cons b bs)
  obtain sK' sV' where load: "load_kv K V base S D b (sK, sV) = (sK', sV')" by fastforce
  let ?scan = "\<lambda>w. scan_tile ex rsqrt S D causal b (q_block + w) (w < 8 \<and> q_block + w < S)
      (load_q Q base S D q_block sQ w) sK' sV' (warps ! w)"
  have "tile_step ex rsqrt K V base S D causal q_block (load_q Q base S D q_block sQ) b (warps, sK, sV)
      = (map ?scan [0..<8], sK', sV')"
    by (simp add: tile_step_def load Let_def)
  moreover have "?scan warp = fold (matrix_step ex rsqrt Q K V base D (q_block + warp))
      (filter (used S causal (q_block + warp)) [b..<b + 32]) (warps ! warp)"
  proof -
    have "(warp < 8 \<and> q_block + warp < S) = True" using assms(1,2) by simp
    moreover have "scan_tile ex rsqrt S D causal b (q_block + warp) True (load_q Q base S D q_block sQ warp) sK' sV' (warps ! warp)
      = fold (matrix_step ex rsqrt Q K V base D (q_block + warp)) (filter (used S causal (q_block + warp)) [b..<b + 32]) (warps ! warp)"
    proof (rule scan_tile_rows)
      show "load_q Q base S D q_block sQ warp d = row_at Q base D (q_block + warp) d" if "d < D" for d
        by (subst load_q_row [OF assms(1) that]) (simp add: assms(2))
      show "sK' j d = row_at K base D (b + j) d" "sV' j d = row_at V base D (b + j) d" if "j < 32" "d < D" "b + j < S" for j d
        by (simp_all add: load load_kv_rows [OF that, of K V base sK sV, unfolded load fst_conv snd_conv])
    qed
    ultimately show ?thesis by (simp only:)
  qed
  ultimately show ?case
    using Cons.IH [of "map ?scan [0..<8]" sK' sV'] assms(1) by simp
qed simp

text \<open>The tiles up to \<open>e\<close>, together, are the rows up to \<open>e\<close> and some that nobody uses.\<close>

lemma filter_none: "(\<And>k. P k \<Longrightarrow> k < e) \<Longrightarrow> filter P [e..<n] = []" for e :: nat
  by (force simp: filter_empty_conv)

lemma filter_tiles:
  assumes "\<And>k. P k \<Longrightarrow> k < e" and "0 < n"
  shows "filter P (concat (map (\<lambda>b. [b..<b + n]) (strided c n e))) = filter P [c..<e]"
  using assms
proof (induction c n e rule: strided.induct)
  case (1 c n e)
  show ?case
  proof (cases "c < e")
    case True
    then have rest: "filter P (concat (map (\<lambda>b. [b..<b + n]) (strided c n e))) = filter P [c..<c + n] @ filter P [c + n..<e]"
      using 1 by (simp add: strided_step)
    show ?thesis
    proof (cases "c + n \<le> e")
      case True
      then have "[c..<e] = [c..<c + n] @ [c + n..<e]"
        using upt_add_eq_append [of c "c + n" "e - (c + n)"] by simp
      then show ?thesis using rest by simp
    next
      case False
      then have "[c..<c + n] = [c..<e] @ [e..<c + n]"
        using True upt_add_eq_append [of c e "c + n - e"] by simp
      then show ?thesis using rest False filter_none [OF 1(2)] by simp
    qed
  qed (simp add: strided_end)
qed

lemma used_keys:
  assumes "q_row < S" and "q_row < causal_end" and "kv_end = (if causal then (if S < causal_end then S else causal_end) else S)"
  shows "filter (used S causal q_row) (concat (map (\<lambda>b. [b..<b + 32]) (strided 0 32 kv_end)))
    = [0..<if causal then q_row + 1 else S]"
proof -
  have bound: "used S causal q_row k \<Longrightarrow> k < kv_end" for k
    using assms by (auto simp: used_def)
  let ?e = "if causal then q_row + 1 else S"
  have "filter (used S causal q_row) (concat (map (\<lambda>b. [b..<b + 32]) (strided 0 32 kv_end))) = filter (used S causal q_row) [0..<kv_end]"
    by (rule filter_tiles) (use bound in auto)
  also have "[0..<kv_end] = [0..<?e] @ [?e..<kv_end]"
    using assms upt_add_eq_append [of 0 ?e "kv_end - ?e"] by (auto simp: not_less)
  also have "filter (used S causal q_row) ([0..<?e] @ [?e..<kv_end]) = [0..<?e]"
    using assms(1) by (auto simp: used_def filter_empty_conv filter_id_conv)
  finally show ?thesis .
qed

section \<open>The tiled kernel and the simple one\<close>

lemma tiled_kernel_rows:
  "flash_attention_tiled_kernel ex rsqrt Q K V H S D causal shared (b, h, x) out
    = fold (\<lambda>warp out. if x * 8 + warp < S
        then flash_attention_simple_kernel ex rsqrt Q K V H S D causal (b, h, x * 8 + warp) out else out) [0..<8] out"
proof -
  obtain sQ sK sV where shared: "shared = (sQ, sK, sV)" by (cases shared)
  let ?base = "head_base H S D b h" and ?causal_end = "x * 8 + 8"
  let ?kv_end = "if causal then (if S < ?causal_end then S else ?causal_end) else S"
  let ?warps = "fst (fold (tile_step ex rsqrt K V ?base S D causal (x * 8) (load_q Q ?base S D (x * 8) sQ)) (strided 0 32 ?kv_end)
      (replicate 8 (replicate 32 init_lane), sK, sV))"
  have row: "write_row D (?base + (x * 8 + warp) * D) (?warps ! warp) out
      = flash_attention_simple_kernel ex rsqrt Q K V H S D causal (b, h, x * 8 + warp) out"
    if "warp < 8" "x * 8 + warp < S" for warp out
  proof -
    have "?warps ! warp = fold (matrix_step ex rsqrt Q K V ?base D (x * 8 + warp))
        [0..<if causal then x * 8 + warp + 1 else S] (replicate 32 init_lane)"
      using that by (simp add: tiles_warp used_keys [where causal_end = ?causal_end])
    then show ?thesis by (simp only: flash_attention_simple_kernel_def prod.case Let_def)
  qed
  have "flash_attention_tiled_kernel ex rsqrt Q K V H S D causal shared (b, h, x) out
      = fold (\<lambda>warp out. if warp < 8 \<and> x * 8 + warp < S
          then write_row D (?base + (x * 8 + warp) * D) (?warps ! warp) out else out) [0..<8] out"
    by (simp only: flash_attention_tiled_kernel_def shared prod.case Let_def)
  also have "\<dots> = fold (\<lambda>warp out. if x * 8 + warp < S
        then flash_attention_simple_kernel ex rsqrt Q K V H S D causal (b, h, x * 8 + warp) out else out) [0..<8] out"
  proof (rule fold_cong [OF refl refl])
    fix warp :: nat assume "warp \<in> set [0..<8]"
    then have "warp < 8" by simp
    then show "(\<lambda>out. if warp < 8 \<and> x * 8 + warp < S then write_row D (?base + (x * 8 + warp) * D) (?warps ! warp) out else out)
      = (\<lambda>out. if x * 8 + warp < S
          then flash_attention_simple_kernel ex rsqrt Q K V H S D causal (b, h, x * 8 + warp) out else out)"
      by (intro ext if_cong) (simp_all only: simp_thms row)
  qed
  finally show ?thesis .
qed

text \<open>Blocks of eight rows, without the rows behind the end, are all the rows.\<close>

lemma fold_row_blocks:
  "fold (\<lambda>x st. fold (\<lambda>w st. if x * 8 + w < S then g (x * 8 + w) st else st) [0..<8] st) [0..<(S + 8 - 1) div 8] st
    = fold g [0..<S] (st :: 's)"
proof -
  let ?G = "(S + 8 - 1) div 8"
  have "fold (\<lambda>x st. fold (\<lambda>w st. if x * 8 + w < S then g (x * 8 + w) st else st) [0..<8] st) [0..<?G] st
      = fold (\<lambda>q st. if q < S then g q st else st) [0..<?G * 8] st"
    by (rule fold_blocks)
  also have "\<dots> = fold g (filter (\<lambda>q. q < S) [0..<?G * 8]) st" by (rule fold_if_filter)
  also have "[0..<?G * 8] = [0..<S] @ [S..<?G * 8]"
    using upt_add_eq_append [of 0 S "?G * 8 - S"] by simp
  finally show ?thesis by (simp add: filter_none [where e = S])
qed

lemma fold_grid:
  "fold g (grid_blocks x y z) st = fold (\<lambda>b. fold (\<lambda>h. fold (\<lambda>i. g (b, h, i)) [0..<x]) [0..<y]) [0..<z] st"
proof -
  have "fold g (concat (map (\<lambda>h. map (\<lambda>i. (b, h, i)) [0..<x]) hs)) st = fold (\<lambda>h. fold (\<lambda>i. g (b, h, i)) [0..<x]) hs st" for b hs st
    by (induction hs arbitrary: st) (simp_all add: fold_map comp_def)
  then have "fold g (concat (map (\<lambda>b. concat (map (\<lambda>h. map (\<lambda>i. (b, h, i)) [0..<x]) [0..<y])) bs)) st
      = fold (\<lambda>b. fold (\<lambda>h. fold (\<lambda>i. g (b, h, i)) [0..<x]) [0..<y]) bs st" for bs
    by (induction bs arbitrary: st) simp_all
  then show ?thesis by (simp add: grid_blocks_def)
qed

lemma tiled_grid:
  "fold (\<lambda>blk. flash_attention_tiled_kernel ex rsqrt Q K V H S D causal (shared blk) blk)
      (grid_blocks ((S + 8 - 1) div 8) H B) out
    = fold (flash_attention_simple_kernel ex rsqrt Q K V H S D causal) (grid_blocks S H B) out"
proof -
  have kernel: "flash_attention_tiled_kernel ex rsqrt Q K V H S D causal (shared (b, h, x)) (b, h, x)
      = fold (\<lambda>warp out. if x * 8 + warp < S
          then flash_attention_simple_kernel ex rsqrt Q K V H S D causal (b, h, x * 8 + warp) out else out) [0..<8]" for b h x
    by (intro ext tiled_kernel_rows)
  have head: "fold (\<lambda>x. flash_attention_tiled_kernel ex rsqrt Q K V H S D causal (shared (b, h, x)) (b, h, x)) [0..<(S + 8 - 1) div 8]
      = fold (\<lambda>q. flash_attention_simple_kernel ex rsqrt Q K V H S D causal (b, h, q)) [0..<S]" for b h
    unfolding kernel by (intro ext fold_row_blocks)
  show ?thesis unfolding fold_grid head ..
qed

text \<open>
  C4. The tiled version computes exactly what the simple version computes, whatever the number type
  and its operations and whatever shared memory held before: no key is missed, used twice or seen
  too early, and no output row is left out. With the property of the simple version, it computes
  attention.
\<close>

theorem tiled_solve_is_simple_solve:
  assumes "S \<le> 2 ^ 31 - 32"
  shows "tiled_solve ex rsqrt shared Q K V out B H S D causal = simple_solve ex rsqrt Q K V out B H S D causal"
  using assms unfolding tiled_solve_def simple_solve_def tiled_grid by simp

theorem tiled_solve_is_simple_solve_witness:
  "tiled_solve exp (\<lambda>x. 1 / sqrt x) (\<lambda>_. (\<lambda>_ _. 7, \<lambda>_ _. 8, \<lambda>_ _. 9)) [1, 2] [3, 4] [5, 6 :: real] [0, 0] 1 1 2 1 1
    = simple_solve exp (\<lambda>x. 1 / sqrt x) [1, 2] [3, 4] [5, 6] [0, 0] 1 1 2 1 1"
  by (rule tiled_solve_is_simple_solve) simp

end
