(* ===== verification/Tiled_Mine.thy ===== *)
theory Tiled_Mine
  imports Tiled_Attention
begin

text \<open>
  \<^verbatim>\<open>practical_kernel/tiled_flash_att_mine.cu\<close>, as far as it goes: the file ends in the loop over the tiles, after
  the barrier behind the loads, and does not compile. Up to there it is the finished kernel: the
  same tiles, the same range of keys and the same state of a warp, for any number of threads in the block.
\<close>

section \<open>The kernel up to the end of the file\<close>

text \<open>\<open>threads\<close> is \<^verbatim>\<open>blockDim.x\<close>; the file has no launch that would fix it.\<close>

definition mine_load_q :: "'a::zero list \<Rightarrow> nat \<Rightarrow> nat \<Rightarrow> nat \<Rightarrow> nat \<Rightarrow> nat \<Rightarrow> 'a tile \<Rightarrow> 'a tile" where
  "mine_load_q q bh_base_dim sequency D row_base threads =
     fold (\<lambda>tid. fold (\<lambda>idx q_tile.
         let r = idx div D; c = idx - r * D; global_row = r + row_base
         in set_cell r c (if global_row < sequency then q ! (bh_base_dim + global_row * D + c) else 0) q_tile)
       (strided tid threads (BLOCK_M * D))) [0..<threads]"

definition mine_load_kv ::
  "'a::zero list \<Rightarrow> 'a list \<Rightarrow> nat \<Rightarrow> nat \<Rightarrow> nat \<Rightarrow> nat \<Rightarrow> nat \<Rightarrow> 'a tile \<times> 'a tile \<Rightarrow> 'a tile \<times> 'a tile" where
  "mine_load_kv k v bh_base_dim sequency D k_row threads =
     fold (\<lambda>tid. fold (\<lambda>t (k_tile, v_tile).
         let row = t div D; col = t - row * D; global_k_row = k_row + row
         in if global_k_row < sequency
            then (let global_idx = bh_base_dim + global_k_row * D + col
                  in (set_cell row col (k ! global_idx) k_tile, set_cell row col (v ! global_idx) v_tile))
            else (set_cell row col 0 k_tile, set_cell row col 0 v_tile))
       (strided tid threads (BLOCK_N * D))) [0..<threads]"

text \<open>Where the rows of a head start, the rows of a block, and up to where it scans the keys\<close>

definition mine_base :: "nat \<Rightarrow> nat \<Rightarrow> nat \<Rightarrow> nat \<Rightarrow> nat \<Rightarrow> nat" where
  "mine_base heads sequency D batchid headsid = ((batchid * heads + headsid) * sequency) * D"

definition mine_kv_end :: "nat \<Rightarrow> bool \<Rightarrow> nat \<Rightarrow> nat" where
  "mine_kv_end sequency casual row_base =
     (let casual_end = row_base + BLOCK_M
      in if casual then (if sequency < casual_end then sequency else casual_end) else sequency)"

text \<open>
  The tiles at the end of the file, in the iteration of the loop that starts at \<open>k_row\<close>, with \<^verbatim>\<open>valid_q\<close> by thread and
  what every thread keeps (\<^verbatim>\<open>acc\<close>, \<^verbatim>\<open>m\<close>, \<^verbatim>\<open>l\<close>); \<open>None\<close>: the kernel has returned (\<^verbatim>\<open>dim > max_d\<close>) or left the loop. Index
  arithmetic is exact here; where it overflows an \<^verbatim>\<open>int\<close> it does so in \<open>tiled_solve\<close> too.
\<close>

definition flash_att_kernel ::
  "'a::linordered_field list \<Rightarrow> 'a list \<Rightarrow> 'a list \<Rightarrow> nat \<Rightarrow> nat \<Rightarrow> nat \<Rightarrow> bool \<Rightarrow> nat \<Rightarrow> 'a tile \<times> 'a tile \<times> 'a tile \<Rightarrow>
     nat \<times> nat \<times> nat \<Rightarrow> nat \<Rightarrow> ('a tile \<times> 'a tile \<times> 'a tile \<times> (nat \<Rightarrow> bool) \<times> 'a lane) option" where
  "flash_att_kernel q k v heads sequency D casual threads shared blk k_row =
     (case shared of (q_tile, k_tile, v_tile) \<Rightarrow> case blk of (batchid, headsid, x) \<Rightarrow>
        if D > MAX_D then None
        else
          let row_base = x * BLOCK_M;
              bh_base_dim = mine_base heads sequency D batchid headsid;
              valid_q = (\<lambda>tid. let warp = tid div 32; q_row = row_base + warp in warp < BLOCK_M \<and> q_row < sequency);
              q_tile = mine_load_q q bh_base_dim sequency D row_base threads q_tile;
              lane = \<lparr>lane_acc = replicate MAX_D_PER_LANE 0, lane_m = - FLT_MAX, lane_l = 0\<rparr>
          in if k_row \<in> set (strided 0 BLOCK_N (mine_kv_end sequency casual row_base))
             then (case mine_load_kv k v bh_base_dim sequency D k_row threads (k_tile, v_tile) of
                     (k_tile, v_tile) \<Rightarrow> Some (q_tile, k_tile, v_tile, valid_q, lane))
             else None)"

section \<open>It loads what the finished kernel loads\<close>

text \<open>A load by any number of threads sets each cell of the tile once.\<close>

lemma mine_load_q_cell:
  assumes "0 < threads" and "r < BLOCK_M" and "c < D"
  shows "mine_load_q q base S D row_base threads q_tile r c
    = (if row_base + r < S then q ! (base + (row_base + r) * D + c) else 0)"
proof -
  have "mine_load_q q base S D row_base threads q_tile = fold (\<lambda>idx. set_cell (idx div D) (idx - idx div D * D)
      (if idx div D + row_base < S then q ! (base + (idx div D + row_base) * D + (idx - idx div D * D)) else 0))
      (visits threads (8 * D)) q_tile"
    by (simp only: mine_load_q_def Let_def fold_threads)
  moreover have "r * D + c < 8 * D" using assms(2,3) by (rule index_bound)
  ultimately show ?thesis using assms(1,3) by (simp add: fold_set_cell set_visits add.commute [of _ row_base])
qed

lemma mine_load_kv_cells:
  assumes "0 < threads" and "r < BLOCK_N" and "c < D"
  shows "fst (mine_load_kv k v base S D k_row threads (k_tile, v_tile)) r c
      = (if k_row + r < S then k ! (base + (k_row + r) * D + c) else 0)"
    and "snd (mine_load_kv k v base S D k_row threads (k_tile, v_tile)) r c
      = (if k_row + r < S then v ! (base + (k_row + r) * D + c) else 0)"
proof -
  have "r * D + c < 32 * D" using assms(2,3) by (rule index_bound)
  then show "fst (mine_load_kv k v base S D k_row threads (k_tile, v_tile)) r c
      = (if k_row + r < S then k ! (base + (k_row + r) * D + c) else 0)"
    and "snd (mine_load_kv k v base S D k_row threads (k_tile, v_tile)) r c
      = (if k_row + r < S then v ! (base + (k_row + r) * D + c) else 0)"
    unfolding mine_load_kv_def fold_threads fold_two_tiles fst_conv snd_conv
    using assms(1,3) by (simp_all add: fold_set_cell set_visits)
qed

lemma load_is_mine:
  "load_q Q base S D q_block sQ = mine_load_q Q base S D q_block BLOCK_THREADS sQ"
  "load_kv K V base S D kv_block = mine_load_kv K V base S D kv_block BLOCK_THREADS"
  by (simp_all only: load_q_def mine_load_q_def load_kv_def mine_load_kv_def add.commute [of _ q_block])

text \<open>
  C33. In every iteration, whatever shared memory held and however many threads the block has, the unfinished
  kernel has in its tiles what the finished one has in them when it scans the same keys, and the lanes
  start from the same state.
\<close>

theorem mine_loads_the_tiles:
  assumes "0 < threads" and "D \<le> MAX_D" and "k_row \<in> set (strided 0 BLOCK_N (mine_kv_end S casual (x * BLOCK_M)))"
  shows "\<exists>q_tile k_tile v_tile.
    flash_att_kernel q k v H S D casual threads shared (b, h, x) k_row = Some (q_tile, k_tile, v_tile,
      \<lambda>tid. tid div 32 < BLOCK_M \<and> x * BLOCK_M + tid div 32 < S, init_lane) \<and>
    (\<forall>r < BLOCK_M. \<forall>c < D. q_tile r c = load_q q (head_base H S D b h) S D (x * BLOCK_M) sQ r c) \<and>
    (\<forall>r < BLOCK_N. \<forall>c < D.
       k_tile r c = fst (load_kv k v (head_base H S D b h) S D k_row (sK, sV)) r c \<and>
       v_tile r c = snd (load_kv k v (head_base H S D b h) S D k_row (sK, sV)) r c)"
proof -
  obtain q0 k0 v0 where shared: "shared = (q0, k0, v0)" by (rule prod_cases3)
  let ?base = "head_base H S D b h"
  obtain k1 v1 where kv: "mine_load_kv k v ?base S D k_row threads (k0, v0) = (k1, v1)" by fastforce
  have base: "mine_base H S D b h = ?base" by (simp add: mine_base_def head_base_def)
  have "flash_att_kernel q k v H S D casual threads shared (b, h, x) k_row
      = Some (mine_load_q q ?base S D (x * BLOCK_M) threads q0, k1, v1,
          \<lambda>tid. tid div 32 < BLOCK_M \<and> x * BLOCK_M + tid div 32 < S, init_lane)"
    using assms(2,3) by (simp add: flash_att_kernel_def shared Let_def base kv init_lane_def)
  moreover have "mine_load_q q ?base S D (x * BLOCK_M) threads q0 r c = load_q q ?base S D (x * BLOCK_M) sQ r c"
    if "r < BLOCK_M" "c < D" for r c
    by (simp only: load_is_mine mine_load_q_cell [OF assms(1) that] mine_load_q_cell [OF zero_less_numeral that])
  moreover have "k1 r c = fst (load_kv k v ?base S D k_row (sK, sV)) r c \<and> v1 r c = snd (load_kv k v ?base S D k_row (sK, sV)) r c"
    if "r < BLOCK_N" "c < D" for r c
    using mine_load_kv_cells [OF assms(1) that, of k v ?base S k_row k0 v0, unfolded kv fst_conv snd_conv]
    by (simp only: load_is_mine mine_load_kv_cells [OF zero_less_numeral that])
  ultimately show ?thesis by blast
qed

text \<open>The range of keys is that of the finished kernel.\<close>

lemma mine_kv_end_tiles:
  "strided 0 BLOCK_N (mine_kv_end S casual q_block)
    = strided 0 BLOCK_N (if casual then (if S < q_block + BLOCK_M then S else q_block + BLOCK_M) else S)"
  by (simp add: mine_kv_end_def Let_def)

theorem mine_loads_the_tiles_witness:
  "\<exists>q_tile k_tile v_tile.
    flash_att_kernel [1] [2] [3 :: real] 1 1 1 True 64 (\<lambda>_ _. 7, \<lambda>_ _. 7, \<lambda>_ _. 7) (0, 0, 0) 0 = Some (q_tile, k_tile, v_tile,
      \<lambda>tid. tid div 32 < BLOCK_M \<and> 0 * BLOCK_M + tid div 32 < 1, init_lane) \<and>
    (\<forall>r < BLOCK_M. \<forall>c < 1. q_tile r c = load_q [1] (head_base 1 1 1 0 0) 1 1 (0 * BLOCK_M) (\<lambda>_ _. 0) r c) \<and>
    (\<forall>r < BLOCK_N. \<forall>c < 1.
       k_tile r c = fst (load_kv [2] [3] (head_base 1 1 1 0 0) 1 1 0 (\<lambda>_ _. 0, \<lambda>_ _. 0)) r c \<and>
       v_tile r c = snd (load_kv [2] [3] (head_base 1 1 1 0 0) 1 1 0 (\<lambda>_ _. 0, \<lambda>_ _. 0)) r c)"
  by (rule mine_loads_the_tiles) (simp_all add: mine_kv_end_def strided_step)

end
