(* ===== verification/Spec2Isabelle.thy ===== *)
theory Spec2Isabelle
  imports Client_Process Server_Interleaved Softmax_Program Tiled_Mine
begin

text \<open>
  A verification of the C++ and CUDA code of the repository: minirpc, an RPC library under
  \<^verbatim>\<open>src/2026-06-23_cpp_learning_projects/\<close>, and three groups of kernels,
  \<^verbatim>\<open>practical_kernel/\<close> (attention), \<^verbatim>\<open>softmax-profile-card/\<close> and \<^verbatim>\<open>bandwidth-roofline-mini/\<close> (reduction, vector
  addition). They share no code; paths below are relative to these directories.

  \<^bold>\<open>minirpc.\<close> A message (\<^verbatim>\<open>message.hpp\<close>) is encoded in the protobuf wire format
  (\<^verbatim>\<open>protobuf_wire.cpp\<close>) and sent in a frame with a length header (\<^verbatim>\<open>framing.hpp\<close>). One thread runs an
  epoll loop with a table of handlers and a queue of posted tasks (\<^verbatim>\<open>event_loop.cpp\<close>); other threads
  only post. A session (\<^verbatim>\<open>session.cpp\<close>) is one connection on the loop: it reads frames and calls a
  message handler, queues frames for writing, and closes once. The server (\<^verbatim>\<open>server.cpp\<close>) accepts
  sessions and keeps a map of them; the client (\<^verbatim>\<open>client.cpp\<close>) has one session and a table of calls
  that wait for a response. The examples (\<^verbatim>\<open>examples/server_main.cpp\<close>, \<^verbatim>\<open>client_main.cpp\<close>) put both to
  work.

  \<^bold>\<open>The kernels.\<close> A kernel is launched on a grid of blocks of threads. The threads of a block share
  memory and barriers; 32 of them, a warp, also exchange values directly. The reduction and the
  softmax halve a shared array between barriers; attention takes its softmax online, a warp per query
  row, with and without tiles of keys and values in shared memory.

  \<^bold>\<open>The model of minirpc.\<close> An operation is an effect, a function from a state to a result (a value or an
  exception, as C++ throws it) and the state it leaves, also when it throws. Objects are records;
  an object that is shared lives in a heap under a pointer (\<open>objects\<close>), and the state beside it (the
  loop, extended by the members of the server or the client) is one record. Closures are data: each
  closure of the library is a constructor (\<open>SessionEvents\<close>, \<open>SendTask\<close>, \<open>EraseSession\<close>, ...), each
  closure of a user is a number into \<open>app\<close> or \<open>client_app\<close>, whose fields compute the calls it makes.

  \<^item> \<open>Prelude\<close>: machine types, errno values, effects and their rules.
  \<^item> \<open>Message\<close>: \<^verbatim>\<open>RpcMessage\<close> and its kind.
  \<^item> \<open>Varint\<close>, \<open>Protobuf_Wire\<close>, \<open>Codec\<close>: \<^verbatim>\<open>ProtobufWireCodec\<close>; first the varints, then every operation
    with a decoder specification over fields that \<open>decode\<close> refines, then round trip, merging of
    concatenated bodies, unknown fields and the inputs the decoder confuses.
  \<^item> \<open>Framing\<close>: \<^verbatim>\<open>make_frame\<close> and \<^verbatim>\<open>try_pop_frame\<close>; the messages of a byte stream (\<open>parse_stream\<close>), however
    it is cut. The locale \<open>framed_codec\<close> is what the transport needs of a codec.
  \<^item> \<open>Event_Loop\<close>: \<^verbatim>\<open>EventLoop\<close>, over any answers of the kernel. The locales \<open>loop_tasks\<close> (no wakeup is
    lost) and \<open>loop_invariant\<close> (what every task and event keeps, a run keeps) are its contracts.
  \<^item> \<open>Loop_Threads\<close>: the same loop one access at a time, with any number of threads that post and stop: tasks run
    once each and in order, no wakeup is lost, a stop is heeded. \<open>Loop_Interleaved\<close>: the steps of the loop
    with the effects of tasks and handlers; what \<open>loop_invariant\<close> asks then holds at every moment, and every run of
    \<open>Event_Loop\<close> is one of these.
  \<^item> \<open>Session\<close>: all operations of \<^verbatim>\<open>Session\<close>. \<open>Session_Laws\<close>: what each does, under the contract
    \<open>session_hooks\<close> of the handlers it calls. \<open>Session_Frame\<close>: what each may touch. \<open>Session_History\<close>: the
    life of a session as steps and the invariant that ties the answers of recv to the messages delivered
    (the bytes of all passes of reads that ended with \<^verbatim>\<open>EAGAIN\<close>; a pass that ends in end of file or an error
    closes the session, and what it read is dropped) and the frames accepted to the bytes written. \<open>Session_Keeps\<close>: invariants of the state beside the
    loop. \<open>Application\<close>: the calls a user's closure can make.
  \<^item> \<open>Server\<close>, \<open>Server_Laws\<close>, \<open>Server_Properties\<close>, \<open>Server_Lifecycle\<close>: \<^verbatim>\<open>TcpServer\<close>, the invariant of its map and
    of the handler table, its properties, starting, stopping and failing, and the simulation of the
    sessions by what the loop runs. \<open>Server_Interleaved\<close>: the invariant of the map and the life of every session, at
    every moment of an interleaved run.
  \<^item> \<open>Client\<close>, \<open>Client_Laws\<close>, \<open>Client_Calls\<close>, \<open>Client_Runs\<close>, \<open>Client_Properties\<close>: \<^verbatim>\<open>RpcClient\<close>, its closures against the
    contract of a session, the table of calls, the steps of a process with a client, its properties.
    The locale \<open>kept_by_client\<close> is what an invariant of the client has to survive; then it survives
    every operation and every step. \<open>Client_Races\<close>: the same operations one access at a time, against the
    thread of the loop.
  \<^item> \<open>Demo_Server\<close>, \<open>Demo_Client\<close>, \<open>Demo_Properties\<close>, \<open>End_To_End\<close>: the two programs, and client and server at the ends
    of one connection. \<open>Client_Process\<close>: the process of \<^verbatim>\<open>client_main.cpp\<close>, its main thread as a program counter
    with a step function and the thread that runs the loop, and with which status it ends. A call in which the main
    thread can block is one step, taken when it returns.

  \<^bold>\<open>The model of the kernels.\<close> What all threads of a block do between two barriers is one step of the
  shared array or, where they write the output, a loop over the threads: they write different cells,
  so the order does not matter. Where threads do meet without a barrier, the order is explicit:
  a schedule of the last additions of the reduction (\<open>run_lanes\<close>; that the warp moves in \<open>lock_step\<close> is a hypothesis of
  the theorems on the sum, not of those on bounds), \<open>late\<close> in the softmax. Every read and write of the benchmark kernels
  checks its index (\<open>Checked_Arrays\<close>), so a kernel stays in its buffers and its shared memory exactly when it gives
  \<open>Some\<close>. Numbers are of any type with the
  operations used; the theorems on sums hold for a commutative monoid, those with an exponential for
  the reals, so they are about the algorithms and say nothing about rounding. An operation that
  can fail (a launch the device refuses, an \<^verbatim>\<open>int\<close> that overflows, an access outside an array) is an
  option.

  \<^item> \<open>Strided_Loop\<close>: the loop by which the threads of a block share out indices, and that it visits each
    exactly once; blocks of equal size.
  \<^item> \<open>Checked_Arrays\<close>: accesses that check the index, and loops of steps that can fail.
  \<^item> \<open>Block_Reduction\<close>: the kernel of \<^verbatim>\<open>reduction.cu\<close>. The locale \<open>reduction\<close> is what halving needs of an
    operation; it is interpreted for the sum and, in \<open>Softmax\<close>, for the maximum.
  \<^item> \<open>Softmax\<close>: both kernels and the thread check of the benchmark. \<open>Softmax_Program\<close>: the program
    \<^verbatim>\<open>softmax_bench.cu\<close> from its arguments to its exit status.
  \<^item> \<open>Flash_Attention\<close>, \<open>Tiled_Attention\<close>: \<^verbatim>\<open>flash_attention_simple_stand.cu\<close> refines attention, and
    \<^verbatim>\<open>tiled_flash_attention_stand_hpc.cu\<close> equals it. \<open>Tiled_Mine\<close>: the unfinished \<^verbatim>\<open>tiled_flash_att_mine.cu\<close>, which
    loads what the finished kernel loads.
  \<^item> \<open>Text_Numbers\<close>: the number parsers of the standard library, also for the examples of minirpc.
    \<open>Roofline_Bench\<close>: the command line, percentiles and classes of the roofline programs, and the kernel
    of \<^verbatim>\<open>vector_add.cu\<close>.
  \<^item> \<open>Cuda_Runtime\<close>: device memory, launches, errors, events and the clock, and the rules for programs
    that a failing call ends. \<open>Bench_Programs\<close>: \<^verbatim>\<open>reduction.cu\<close> and \<^verbatim>\<open>vector_add.cu\<close> as programs. \<open>Bench_Laws\<close>: one rule
    for each call and loop, over what the program owns and has done. \<open>Bench_Properties\<close>: what the two
    programs print, leave behind and end in, the options for which their kernels stay in their buffers, and two
    for which they do not.

  \<^bold>\<open>Parameters and bounds.\<close> The kernel is a parameter: the outcome of every system call is taken
  from a list that the theorems quantify over (\<open>answers\<close>, \<open>rx\<close>, \<open>tx\<close>, \<open>accepts\<close>, the answers of epoll_wait),
  as are getaddrinfo, inet_pton, the clock, \<^verbatim>\<open>strtod\<close> and the text of an error code. So are the results of the
  CUDA runtime's calls, the times it measures, what fresh device memory holds, the random numbers and
  how much the host can allocate, and what becomes of a launch whose kernel left its buffers (a fault, or any numbers in
  them, unnoticed); what a successful call does is as the runtime documents it. A run of the loop consumes
  the list of epoll_wait's answers, so no fuel is needed (and no other definition has any: the loops
  of the benchmarks count, the wait of the demo client is bounded by the program itself); \<open>None\<close> is a loop that still waits at its
  end. Session ids and request ids are 64-bit words; the theorems about them assume that fewer than
  \<open>2 ^ 64 - 1\<close> were handed out. The network is the hypothesis that bytes arrive in order and none is
  invented. The mutexes make what they guard one step. \<open>Event_Loop\<close> takes the calls of other threads as made while the
  loop waits, which keeps its runs executable; \<open>Loop_Threads\<close> and \<open>Loop_Interleaved\<close> put them anywhere. The public calls of the
  client from another thread are steps between those of the loop, except in \<open>Client_Races\<close>, where each access to the
  unguarded \<^verbatim>\<open>session_\<close> is one.

  \<^bold>\<open>Not modelled.\<close> The destruction order of objects at the end of a process; what a data race does beyond the
  order of the accesses (\<^verbatim>\<open>RpcClient::session_\<close>, \<^verbatim>\<open>Session::open_\<close>); memory exhaustion; the text that \<^verbatim>\<open>what()\<close> adds for an
  error code. In the CUDA programs: rounding, infinities and NaN (but for the maximum of nothing and
  for quotients, which are then \<open>None\<close>); the interleaving of host and device (a launch is done when the
  next call is made); the text on standard error and the usage text; what \<^verbatim>\<open>tiled_flash_att_mine.cu\<close> would
  do after its last line, which is in the middle of a loop. The copies of \<^verbatim>\<open>reduction.cu\<close> and \<^verbatim>\<open>vector_add.cu\<close> under
  \<^verbatim>\<open>src/2026.6.27.../\<close> are byte for byte the files modelled. Python and shell
  scripts, build files and notes are left aside.
\<close>

end
